(* ===== verification/Prelude.thy ===== *)
theory Prelude imports Main "HOL-Library.Word" "HOL-Library.Sublist" "HOL-Library.AList" "HOL-Library.List_Lexorder" "HOL-Library.Char_ord" "HOL-Library.Signed_Division" begin

text \<open>
  What every component of the development shares: the collections of rewrite rules, the
  result type, generic facts on lists and association lists, and a generic transition
  system with its invariant rule.
\<close>

section \<open>Rule collections\<close>

named_theorems gostd \<open>characteristic equations of the Go library models\<close>
named_theorems step_defs \<open>definitions of the handlers a transition is made of\<close>

section \<open>Results\<close>

text \<open>A Go function that returns a value and an error: the error on the left.\<close>

type_synonym ('e, 'a) outcome = "'e + 'a"

abbreviation Err :: "'e \<Rightarrow> ('e, 'a) outcome" where
  "Err e \<equiv> Inl e"

abbreviation Ok :: "'a \<Rightarrow> ('e, 'a) outcome" where
  "Ok a \<equiv> Inr a"

definition bind_result :: "('e, 'a) outcome \<Rightarrow> ('a \<Rightarrow> ('e, 'b) outcome) \<Rightarrow> ('e, 'b) outcome" where
  "bind_result r f = (case r of Inl e \<Rightarrow> Inl e | Inr a \<Rightarrow> f a)"

lemma bind_result_simps [simp]:
  "bind_result (Inl e) f = Inl e"
  "bind_result (Inr a) f = f a"
  by (simp_all add: bind_result_def)

lemma bind_result_Ok:
  "bind_result r f = Inr b \<longleftrightarrow> (\<exists>a. r = Inr a \<and> f a = Inr b)"
  by (cases r) auto

section \<open>Lists\<close>

text \<open>The loops of the form \<open>for x in xs { ...; if err { return err } }\<close>.\<close>

fun fold_result :: "('a \<Rightarrow> 's \<Rightarrow> ('e, 's) outcome) \<Rightarrow> 'a list \<Rightarrow> 's \<Rightarrow> ('e, 's) outcome" where
  "fold_result f [] s = Ok s"
| "fold_result f (x # xs) s = (case f x s of Inl e \<Rightarrow> Inl e | Inr s' \<Rightarrow> fold_result f xs s')"

lemma fold_result_invariant:
  assumes "fold_result f xs s = Ok s'" and "I s"
    and "\<And>x s s'. x \<in> set xs \<Longrightarrow> I s \<Longrightarrow> f x s = Ok s' \<Longrightarrow> I s'"
  shows "I s'"
  using assms
proof (induction xs arbitrary: s)
  case (Cons x xs)
  from Cons.prems(1) obtain s1 where s1: "f x s = Ok s1" "fold_result f xs s1 = Ok s'"
    by (auto split: sum.splits)
  have "I s1" using Cons.prems(3) [OF _ Cons.prems(2) s1(1)] by simp
  then show ?case
    using Cons.IH [OF s1(2)] Cons.prems(3) by (metis list.set_intros(2))
qed simp

lemma fold_result_append:
  "fold_result f (xs @ ys) s = (case fold_result f xs s of Inl e \<Rightarrow> Inl e | Inr s' \<Rightarrow> fold_result f ys s')"
  by (induction xs arbitrary: s) (auto split: sum.splits)

text \<open>First occurrences, in order: what a loop with a \<open>done\<close> set keeps.\<close>

fun nub :: "'a list \<Rightarrow> 'a list" where
  "nub [] = []"
| "nub (x # xs) = x # filter (\<lambda>y. y \<noteq> x) (nub xs)"

lemma set_nub [simp]: "set (nub xs) = set xs"
  by (induction xs) auto

lemma distinct_nub [simp]: "distinct (nub xs)"
  by (induction xs) auto

lemma nub_snoc: "nub (xs @ [x]) = (if x \<in> set xs then nub xs else nub xs @ [x])"
  by (induction xs) auto

lemma nub_append: "nub (xs @ ys) = nub xs @ filter (\<lambda>y. y \<notin> set xs) (nub ys)"
  by (induction xs) (auto intro: filter_cong)

lemma distinct_map_filter_fst:
  "distinct (map fst xs) \<Longrightarrow> distinct (map fst (filter P xs))"
  by (induction xs) auto

section \<open>Association lists\<close>

text \<open>A Go map as an association list with distinct keys; \<open>AList.update\<close> is the assignment.\<close>

lemma map_of_update [simp]: "map_of (AList.update k v al) = (map_of al)(k \<mapsto> v)"
  by (rule update_conv')

lemma update_keys_mem [simp]: "fst ` set (AList.update k v al) = insert k (fst ` set al)"
  using dom_update [of k v al] by simp

lemma distinct_update_keys: "distinct (map fst al) \<Longrightarrow> distinct (map fst (AList.update k v al))"
  by (rule distinct_update)

lemma map_of_eq_None_keys: "map_of al k = None \<longleftrightarrow> k \<notin> fst ` set al"
  by (rule map_of_eq_None_iff)

lemma map_of_SomeI: "distinct (map fst al) \<Longrightarrow> (k, v) \<in> set al \<Longrightarrow> map_of al k = Some v"
  by (rule map_of_is_SomeI)

lemma update_keys_in: "k \<in> fst ` set al \<Longrightarrow> map fst (AList.update k v al) = map fst al"
  by (induction al) auto

lemma update_keys_notin: "k \<notin> fst ` set al \<Longrightarrow> AList.update k v al = al @ [(k, v)]"
  by (induction al) auto

section \<open>Transition systems\<close>

text \<open>The states a step relation reaches from an initial state.\<close>

inductive reachable :: "('s \<Rightarrow> bool) \<Rightarrow> ('s \<Rightarrow> 'e \<Rightarrow> 's \<Rightarrow> bool) \<Rightarrow> 's \<Rightarrow> bool"
  for init :: "'s \<Rightarrow> bool" and step :: "'s \<Rightarrow> 'e \<Rightarrow> 's \<Rightarrow> bool" where
  reachable_init: "init s \<Longrightarrow> reachable init step s"
| reachable_step: "reachable init step s \<Longrightarrow> step s e t \<Longrightarrow> reachable init step t"

inductive run_of :: "('s \<Rightarrow> 'e \<Rightarrow> 's \<Rightarrow> bool) \<Rightarrow> 's \<Rightarrow> 'e list \<Rightarrow> 's \<Rightarrow> bool"
  for step :: "'s \<Rightarrow> 'e \<Rightarrow> 's \<Rightarrow> bool" where
  run_nil: "run_of step s [] s"
| run_cons: "step s e t \<Longrightarrow> run_of step t es u \<Longrightarrow> run_of step s (e # es) u"

lemma run_of_reachable: "run_of step s es t \<Longrightarrow> reachable init step s \<Longrightarrow> reachable init step t"
  by (induction rule: run_of.induct) (auto intro: reachable_step)

lemma run_of_append: "run_of step s es t \<Longrightarrow> run_of step t fs u \<Longrightarrow> run_of step s (es @ fs) u"
  by (induction rule: run_of.induct) (auto intro: run_cons)

lemma run_single: "step s e t \<Longrightarrow> run_of step s [e] t"
  by (rule run_cons [where step = step, OF _ run_nil])

text \<open>An invariant of a transition system: what its components have to prove once.\<close>

locale invariant_of =
  fixes init :: "'s \<Rightarrow> bool"
    and step :: "'s \<Rightarrow> 'e \<Rightarrow> 's \<Rightarrow> bool"
    and inv :: "'s \<Rightarrow> bool"
  assumes inv_init: "init s \<Longrightarrow> inv s"
    and inv_step: "inv s \<Longrightarrow> step s e t \<Longrightarrow> inv t"
begin

lemma inv_reachable: "reachable init step s \<Longrightarrow> inv s"
  by (induction rule: reachable.induct) (auto intro: inv_init inv_step)

lemma inv_run: "run_of step s es t \<Longrightarrow> inv s \<Longrightarrow> inv t"
  by (induction rule: run_of.induct) (auto intro: inv_step)

end

text \<open>
  Refinement: every step of the detailed system is a (possibly empty) sequence of steps of
  an abstract one, which its label determines.
\<close>

locale refines = invariant_of init step inv
  for init :: "'s \<Rightarrow> bool" and step :: "'s \<Rightarrow> 'e \<Rightarrow> 's \<Rightarrow> bool" and inv :: "'s \<Rightarrow> bool" +
  fixes astep :: "'a \<Rightarrow> 'l \<Rightarrow> 'a \<Rightarrow> bool"
    and absf :: "'s \<Rightarrow> 'a"
    and obs :: "'e \<Rightarrow> 'l list"
  assumes step_refines: "inv s \<Longrightarrow> step s e t \<Longrightarrow> run_of astep (absf s) (obs e) (absf t)"
begin

lemma run_refines:
  "run_of step s es t \<Longrightarrow> inv s \<Longrightarrow> run_of astep (absf s) (concat (map obs es)) (absf t)"
proof (induction rule: run_of.induct)
  case (run_cons s e t es u)
  then show ?case using run_of_append [OF step_refines] inv_step by fastforce
qed (simp add: run_nil)

end

text \<open>
  A codec: a printer and a parser of which the parser undoes the printer on valid values.
  The program persists times, durations and counters as text and reads them back.
\<close>

locale text_codec =
  fixes enc :: "'a \<Rightarrow> string"
    and dec :: "string \<Rightarrow> ('e, 'a) outcome"
    and valid :: "'a \<Rightarrow> bool"
  assumes dec_enc: "valid v \<Longrightarrow> dec (enc v) = Ok v"
begin

lemma enc_inj: "valid v \<Longrightarrow> valid w \<Longrightarrow> enc v = enc w \<Longrightarrow> v = w"
  by (metis dec_enc sum.inject(2))

lemma dec_enc_iff: "valid v \<Longrightarrow> dec (enc v) = Ok w \<longleftrightarrow> w = v"
proof -
  assume "valid v"
  then have "dec (enc v) = Ok v" by (rule dec_enc)
  then show ?thesis by (simp add: eq_commute [of v w])
qed

end

end
