(* ===== verification/Go_Strings.thy ===== *)
theory Go_Strings imports Prelude begin

text \<open>
  The functions of Go's \<open>strings\<close> and \<open>bufio\<close> packages the program calls, on byte strings.
  Separators and white space are the ASCII ones; the non-ASCII white space of
  \<open>strings.TrimSpace\<close> is not stripped here.
\<close>

section \<open>Prefixes and suffixes\<close>

definition trim_prefix :: "string \<Rightarrow> string \<Rightarrow> string" where
  "trim_prefix s p = (if prefix p s then drop (length p) s else s)"

definition trim_suffix :: "string \<Rightarrow> string \<Rightarrow> string" where
  "trim_suffix s p = (if suffix p s then take (length s - length p) s else s)"

lemma trim_prefix_append [gostd]: "trim_prefix (p @ s) p = s"
  by (simp add: trim_prefix_def)

lemma trim_suffix_append [gostd]: "trim_suffix (s @ p) p = s"
  by (simp add: trim_suffix_def suffix_def)

section \<open>Splitting and joining\<close>

fun split_on :: "char \<Rightarrow> string \<Rightarrow> string list" where
  "split_on c [] = [[]]"
| "split_on c (x # xs) =
     (if x = c then [] # split_on c xs
      else (case split_on c xs of [] \<Rightarrow> [[x]] | y # ys \<Rightarrow> (x # y) # ys))"

text \<open>\<open>strings.SplitN(s, sep, n)\<close>: at most \<open>n\<close> pieces, the last one unsplit.\<close>

fun split_n :: "nat \<Rightarrow> char \<Rightarrow> string \<Rightarrow> string list" where
  "split_n 0 c s = []"
| "split_n (Suc 0) c s = [s]"
| "split_n (Suc (Suc n)) c s =
     (case dropWhile (\<lambda>x. x \<noteq> c) s of
        [] \<Rightarrow> [s]
      | _ # t \<Rightarrow> takeWhile (\<lambda>x. x \<noteq> c) s # split_n (Suc n) c t)"

fun join :: "string \<Rightarrow> string list \<Rightarrow> string" where
  "join sep [] = []"
| "join sep [x] = x"
| "join sep (x # y # ys) = x @ sep @ join sep (y # ys)"

definition fields_by :: "char \<Rightarrow> string \<Rightarrow> string list" where
  "fields_by c s = filter (\<lambda>f. f \<noteq> []) (split_on c s)"

lemma split_on_nonempty [simp]: "split_on c s \<noteq> []"
  by (induction s) (auto split: list.splits)

lemma split_on_no_sep: "c \<notin> set s \<Longrightarrow> split_on c s = [s]"
  by (induction s) auto

lemma split_on_pieces: "f \<in> set (split_on c s) \<Longrightarrow> c \<notin> set f"
proof (induction s arbitrary: f)
  case (Cons x xs)
  then show ?case
    by (cases "split_on c xs") (auto split: if_splits)
qed simp

lemma split_on_append_sep: "c \<notin> set s \<Longrightarrow> split_on c (s @ c # t) = s # split_on c t"
  by (induction s) auto

lemma split_on_append: "split_on c (s @ c # t) = split_on c s @ split_on c t"
proof (induction s)
  case (Cons x xs)
  then show ?case by (cases "split_on c xs") auto
qed simp

lemma split_on_join:
  "xs \<noteq> [] \<Longrightarrow> \<forall>x\<in>set xs. c \<notin> set x \<Longrightarrow> split_on c (join [c] xs) = xs"
  by (induction "[c]" xs rule: join.induct) (auto simp: split_on_no_sep split_on_append_sep)

lemma join_split_on: "join [c] (split_on c s) = s"
proof (induction s)
  case (Cons x xs)
  then show ?case
    by (cases "split_on c xs"; cases "tl (split_on c xs)") auto
qed simp

lemma split_n_one_piece: "c \<notin> set s \<Longrightarrow> split_n (Suc (Suc n)) c s = [s]"
proof -
  assume "c \<notin> set s"
  then have "dropWhile (\<lambda>x. x \<noteq> c) s = []" by (induction s) auto
  then show ?thesis by (simp only: split_n.simps list.case)
qed

lemma split_n_append_sep:
  "c \<notin> set s \<Longrightarrow> split_n (Suc (Suc n)) c (s @ c # t) = s # split_n (Suc n) c t"
proof -
  assume c: "c \<notin> set s"
  then have "dropWhile (\<lambda>x. x \<noteq> c) (s @ c # t) = c # t"
    and "takeWhile (\<lambda>x. x \<noteq> c) (s @ c # t) = s"
    by (induction s) auto
  then show ?thesis by simp
qed

lemma fields_by_join:
  assumes "xs \<noteq> []" and "\<forall>x\<in>set xs. c \<notin> set x \<and> x \<noteq> []"
  shows "fields_by c (join [c] xs) = xs"
  using assms by (auto simp: fields_by_def split_on_join filter_id_conv)

section \<open>White space\<close>

text \<open>The white space of ASCII; the other Unicode spaces \<open>strings.TrimSpace\<close> knows are not modelled.\<close>

definition is_space :: "char \<Rightarrow> bool" where
  "is_space c \<longleftrightarrow> c \<in> {CHR '' '', CHR 0x09, CHR 0x0A, CHR 0x0B, CHR 0x0C, CHR 0x0D}"

definition trim_space :: "string \<Rightarrow> string" where
  "trim_space s = rev (dropWhile is_space (rev (dropWhile is_space s)))"

lemma trim_space_hd: "trim_space s \<noteq> [] \<Longrightarrow> \<not> is_space (hd (trim_space s))"
proof -
  let ?t = "dropWhile is_space s"
  assume ne: "trim_space s \<noteq> []"
  obtain n where n: "trim_space s = take n ?t"
    unfolding trim_space_def by (metis dropWhile_eq_drop rev_drop rev_rev_ident)
  with ne have "?t \<noteq> []" and "hd (trim_space s) = hd ?t" by (auto simp: hd_take)
  then show ?thesis by (metis hd_dropWhile)
qed

lemma trim_space_idem: "trim_space (trim_space s) = trim_space s"
proof (cases "trim_space s = []")
  case True
  then show ?thesis by (simp only: True) (simp add: trim_space_def)
next
  case False
  let ?u = "trim_space s"
  from False have 1: "dropWhile is_space ?u = ?u"
    using trim_space_hd [of s] by (cases ?u) auto
  have "dropWhile is_space (rev ?u) = rev ?u"
    unfolding trim_space_def by (simp only: rev_rev_ident dropWhile_idem)
  with 1 show ?thesis by (metis rev_rev_ident trim_space_def)
qed

lemma trim_space_last: "trim_space s \<noteq> [] \<Longrightarrow> \<not> is_space (last (trim_space s))"
  unfolding trim_space_def by (simp add: last_rev hd_dropWhile del: dropWhile_eq_Nil_conv)

section \<open>The line scanner\<close>

text \<open>
  \<open>bufio.Scanner\<close> with its default split function: the lines without their terminators,
  a trailing carriage return dropped, and an error at the first line that does not fit
  the 64 KiB buffer.
\<close>

datatype scan_error = ErrTooLong

definition newline :: char where
  "newline = CHR 0x0A"

definition max_token :: nat where
  "max_token = 65536"

definition drop_cr :: "string \<Rightarrow> string" where
  "drop_cr l = (if l \<noteq> [] \<and> last l = CHR 0x0D then butlast l else l)"

definition raw_lines :: "string \<Rightarrow> string list" where
  "raw_lines s = (let ls = split_on newline s in if last ls = [] then butlast ls else ls)"

definition scan_lines :: "string \<Rightarrow> string list \<times> scan_error option" where
  "scan_lines s =
     (let ls = raw_lines s;
          ok = takeWhile (\<lambda>l. length l < max_token) ls
      in (map drop_cr ok, if length ok < length ls then Some ErrTooLong else None))"

lemma raw_lines_no_newline: "l \<in> set (raw_lines s) \<Longrightarrow> newline \<notin> set l"
  by (auto simp: raw_lines_def Let_def split: if_splits dest: in_set_butlastD split_on_pieces)

text \<open>A text made of whole lines scans to these lines.\<close>

lemma raw_lines_unlines:
  assumes "\<forall>l\<in>set ls. newline \<notin> set l"
  shows "raw_lines (concat (map (\<lambda>l. l @ [newline]) ls)) = ls"
proof -
  have "split_on newline (concat (map (\<lambda>l. l @ [newline]) ls)) = ls @ [[]]"
    using assms by (induction ls) (auto simp: split_on_append_sep)
  then show ?thesis by (simp add: raw_lines_def)
qed

lemma scan_lines_unlines_cr:
  assumes "\<forall>l\<in>set ls. newline \<notin> set l \<and> drop_cr l = l \<and> length l < max_token"
  shows "scan_lines (concat (map (\<lambda>l. l @ [newline]) ls)) = (ls, None)"
proof -
  have cr: "map drop_cr ls = ls"
    using assms by (intro map_idI) simp
  have tw: "takeWhile (\<lambda>l. length l < max_token) ls = ls"
    using assms by (simp add: takeWhile_eq_all_conv)
  show ?thesis
    using assms by (simp add: scan_lines_def raw_lines_unlines Let_def tw cr)
qed

lemma scan_lines_unlines:
  assumes "\<forall>l\<in>set ls. newline \<notin> set l \<and> CHR 0x0D \<notin> set l \<and> length l < max_token"
  shows "scan_lines (concat (map (\<lambda>l. l @ [newline]) ls)) = (ls, None)"
  using assms by (intro scan_lines_unlines_cr) (auto simp: drop_cr_def dest: last_in_set)

end
