(* ===== verification/Go_Path.thy ===== *)
theory Go_Path imports Go_Strings begin

text \<open>
  The lexical path functions of Go's \<open>path\<close> and (on Unix) \<open>path/filepath\<close> packages:
  \<open>Clean\<close>, \<open>Join\<close>, \<open>Base\<close>, \<open>Dir\<close>, \<open>IsAbs\<close>. A path is cleaned component by component
  on a stack, as the library does in place.
\<close>

section \<open>Cleaning\<close>

abbreviation slash :: char where
  "slash \<equiv> CHR ''/''"

fun clean_go :: "bool \<Rightarrow> string list \<Rightarrow> string list \<Rightarrow> string list" where
  "clean_go rooted st [] = rev st"
| "clean_go rooted st (c # cs) =
     (if c = [] \<or> c = ''.'' then clean_go rooted st cs
      else if c = ''..'' then
        (case st of
           [] \<Rightarrow> clean_go rooted (if rooted then [] else [''..'']) cs
         | t # ts \<Rightarrow> if t = ''..'' then clean_go rooted (''..'' # st) cs else clean_go rooted ts cs)
      else clean_go rooted (c # st) cs)"

definition is_abs :: "string \<Rightarrow> bool" where
  "is_abs s \<longleftrightarrow> s \<noteq> [] \<and> hd s = slash"

definition clean :: "string \<Rightarrow> string" where
  "clean s =
     (if s = [] then ''.''
      else let out = clean_go (is_abs s) [] (split_on slash s)
           in if is_abs s then slash # join ''/'' out
              else if out = [] then ''.'' else join ''/'' out)"

definition path_join :: "string list \<Rightarrow> string" where
  "path_join es =
     (let ne = filter (\<lambda>e. e \<noteq> []) es in if ne = [] then [] else clean (join ''/'' ne))"

definition path_base :: "string \<Rightarrow> string" where
  "path_base s =
     (if s = [] then ''.''
      else let t = rev (dropWhile (\<lambda>c. c = slash) (rev s))
           in if t = [] then ''/'' else last (split_on slash t))"

definition path_dir :: "string \<Rightarrow> string" where
  "path_dir s = clean (rev (dropWhile (\<lambda>c. c \<noteq> slash) (rev s)))"

section \<open>Plain components\<close>

text \<open>A component that cleaning leaves alone.\<close>

definition plain_comp :: "string \<Rightarrow> bool" where
  "plain_comp c \<longleftrightarrow> c \<noteq> [] \<and> c \<noteq> ''.'' \<and> c \<noteq> ''..'' \<and> slash \<notin> set c"

definition path_comps :: "string \<Rightarrow> string list" where
  "path_comps s = clean_go True [] (split_on slash s)"

lemma clean_go_plain: "list_all plain_comp cs \<Longrightarrow> clean_go r st cs = rev st @ cs"
  by (induction cs arbitrary: st) (auto simp: plain_comp_def)

lemma clean_go_rooted_plain:
  "list_all plain_comp st \<Longrightarrow> \<forall>c\<in>set cs. slash \<notin> set c \<Longrightarrow> list_all plain_comp (clean_go True st cs)"
proof (induction cs arbitrary: st)
  case Nil
  then show ?case by (simp add: list_all_iff)
next
  case (Cons c cs)
  then show ?case
    by (cases st) (auto simp: plain_comp_def)
qed

lemma path_comps_plain: "list_all plain_comp (path_comps s)"
  unfolding path_comps_def by (rule clean_go_rooted_plain) (auto dest: split_on_pieces)

lemma clean_rooted: "clean (slash # s) = slash # join ''/'' (path_comps s)"
  by (simp add: clean_def is_abs_def path_comps_def)

lemma plain_no_slash: "list_all plain_comp cs \<Longrightarrow> \<forall>c\<in>set cs. slash \<notin> set c"
  by (auto simp: list_all_iff plain_comp_def)

lemma split_on_join_plain:
  "cs \<noteq> [] \<Longrightarrow> list_all plain_comp cs \<Longrightarrow> split_on slash (join ''/'' cs) = cs"
  by (rule split_on_join) (auto dest: plain_no_slash)

lemma join_plain_nonempty: "cs \<noteq> [] \<Longrightarrow> list_all plain_comp cs \<Longrightarrow> join ''/'' cs \<noteq> []"
  by (cases cs; cases "tl cs") (auto simp: plain_comp_def)

lemma path_comps_join: "list_all plain_comp cs \<Longrightarrow> path_comps (join ''/'' cs) = cs"
  by (cases "cs = []") (auto simp: path_comps_def split_on_join_plain clean_go_plain)

text \<open>The components of a cleaned rooted path, read back by splitting at the slashes.\<close>

lemma split_clean_rooted:
  "path_comps s \<noteq> [] \<Longrightarrow> split_on slash (tl (clean (slash # s))) = path_comps s"
  by (simp add: clean_rooted split_on_join_plain path_comps_plain)

lemma clean_rooted_root_iff: "clean (slash # s) = ''/'' \<longleftrightarrow> path_comps s = []"
  using join_plain_nonempty [OF _ path_comps_plain [of s]] by (auto simp: clean_rooted)

section \<open>Absolute and relative paths as component lists\<close>

definition abs_path :: "string list \<Rightarrow> string" where
  "abs_path cs = slash # join ''/'' cs"

definition rel_path :: "string list \<Rightarrow> string" where
  "rel_path cs = join ''/'' cs"

lemma join_snoc: "cs \<noteq> [] \<Longrightarrow> join sep (cs @ [x]) = join sep cs @ sep @ x"
  by (induction sep cs rule: join.induct) auto

lemma clean_abs_path [simp]: "list_all plain_comp cs \<Longrightarrow> clean (abs_path cs) = abs_path cs"
  by (simp add: abs_path_def clean_rooted path_comps_join)

lemma rel_path_hd:
  assumes "cs \<noteq> []" and "list_all plain_comp cs"
  shows "rel_path cs \<noteq> []" and "\<not> is_abs (rel_path cs)"
proof -
  from assms obtain a c cs' where cs: "cs = (a # c) # cs'" "a \<noteq> slash"
    by (cases cs; cases "hd cs") (auto simp: plain_comp_def)
  have "\<exists>t. rel_path cs = a # t" by (cases cs') (simp_all add: rel_path_def cs)
  then show "rel_path cs \<noteq> []" and "\<not> is_abs (rel_path cs)"
    using cs by (auto simp: is_abs_def)
qed

lemma clean_rel_path [simp]:
  "cs \<noteq> [] \<Longrightarrow> list_all plain_comp cs \<Longrightarrow> clean (rel_path cs) = rel_path cs"
proof -
  assume cs: "cs \<noteq> []" "list_all plain_comp cs"
  then have "clean_go False [] (split_on slash (rel_path cs)) = cs"
    by (simp add: rel_path_def split_on_join_plain clean_go_plain)
  then show ?thesis
    using rel_path_hd [OF cs] cs(1) by (simp add: clean_def) (simp add: rel_path_def)
qed

lemma path_join_rel:
  assumes "cs \<noteq> []" and "list_all plain_comp cs" and "plain_comp x"
  shows "path_join [rel_path cs, x] = rel_path (cs @ [x])"
proof -
  have "join ''/'' [rel_path cs, x] = rel_path (cs @ [x])"
    using assms by (simp add: rel_path_def join_snoc)
  moreover have "clean (rel_path (cs @ [x])) = rel_path (cs @ [x])"
    using assms by (intro clean_rel_path) auto
  ultimately show ?thesis
    using assms rel_path_hd [of cs] by (simp add: path_join_def plain_comp_def)
qed

lemma path_comps_abs_snoc:
  assumes "list_all plain_comp cs" and "plain_comp x"
  shows "path_comps (join ''/'' cs @ ''/'' @ x) = cs @ [x]"
proof (cases "cs = []")
  case True
  have "path_comps (''/'' @ x) = clean_go True [] ([] # split_on slash x)"
    by (simp add: path_comps_def)
  also have "\<dots> = [x]"
    using assms by (simp add: split_on_no_sep plain_comp_def)
  finally show ?thesis using True by simp
next
  case False
  then have "join ''/'' cs @ ''/'' @ x = join ''/'' (cs @ [x])" by (simp add: join_snoc)
  moreover have "list_all plain_comp (cs @ [x])" using assms by simp
  ultimately show ?thesis by (simp only: path_comps_join)
qed

lemma path_join_abs:
  assumes "list_all plain_comp cs" and "plain_comp x"
  shows "path_join [abs_path cs, x] = abs_path (cs @ [x])"
proof -
  have "path_join [abs_path cs, x] = clean (slash # (join ''/'' cs @ ''/'' @ x))"
    using assms by (simp add: path_join_def abs_path_def plain_comp_def)
  also have "\<dots> = abs_path (cs @ [x])"
    using path_comps_abs_snoc [OF assms] by (simp add: clean_rooted abs_path_def)
  finally show ?thesis .
qed

text \<open>The last component, and the path before it.\<close>

lemma abs_path_snoc: "abs_path (cs @ [x]) = (if cs = [] then '''' else abs_path cs) @ slash # x"
  by (simp add: abs_path_def join_snoc)

lemma last_split_append_sep: "slash \<notin> set x \<Longrightarrow> last (split_on slash (p @ slash # x)) = x"
  by (simp add: split_on_append split_on_no_sep)

lemma dropWhile_rev_snoc:
  "c \<notin> set x \<Longrightarrow> dropWhile (\<lambda>y. y \<noteq> c) (rev (p @ c # x)) = c # rev p"
proof -
  assume "c \<notin> set x"
  then have "dropWhile (\<lambda>y. y \<noteq> c) (rev x @ c # rev p) = c # rev p"
    by (subst dropWhile_append2) auto
  then show ?thesis by simp
qed

lemma path_base_abs:
  assumes "plain_comp x"
  shows "path_base (abs_path (cs @ [x])) = x"
proof -
  obtain p where p: "abs_path (cs @ [x]) = p @ slash # x" using abs_path_snoc by blast
  from assms have x: "x \<noteq> []" "slash \<notin> set x" by (auto simp: plain_comp_def)
  then obtain y ys where y: "rev x = y # ys" "y \<noteq> slash"
    by (metis list.set_intros(1) neq_Nil_conv rev_is_Nil_conv set_rev)
  then have "dropWhile (\<lambda>c. c = slash) (rev (p @ slash # x)) = rev (p @ slash # x)"
    by simp
  with x show ?thesis
    by (simp only: path_base_def p Let_def rev_rev_ident) (simp add: last_split_append_sep del: rev_append)
qed

lemma path_dir_abs:
  assumes "list_all plain_comp cs" and "plain_comp x"
  shows "path_dir (abs_path (cs @ [x])) = abs_path cs"
proof -
  let ?p = "if cs = [] then [] else abs_path cs"
  have eq: "abs_path (cs @ [x]) = ?p @ slash # x" by (simp add: abs_path_snoc)
  have "slash \<notin> set x" using assms(2) by (simp add: plain_comp_def)
  then have "path_dir (abs_path (cs @ [x])) = clean (?p @ [slash])"
    unfolding path_dir_def eq by (subst dropWhile_rev_snoc) auto
  also have "\<dots> = abs_path cs"
  proof (cases "cs = []")
    case True
    then show ?thesis by (simp add: clean_def is_abs_def abs_path_def)
  next
    case False
    have "split_on slash (join ''/'' cs @ [slash]) = cs @ [[]]"
      using split_on_join [of "cs @ [[]]" slash] False plain_no_slash [OF assms(1)]
      by (simp add: join_snoc)
    then have "path_comps (join ''/'' cs @ [slash]) = clean_go True [] (cs @ [[]])"
      by (simp add: path_comps_def)
    also have "\<dots> = cs"
    proof -
      have "clean_go True st (cs @ [[]]) = clean_go True st cs" for st
        by (induction cs arbitrary: st) (auto split: list.splits)
      then show ?thesis using assms(1) by (simp add: clean_go_plain)
    qed
    finally show ?thesis using False by (simp add: abs_path_def clean_rooted)
  qed
  finally show ?thesis .
qed

end
