(* ===== verification/Config_Script.thy ===== *)
theory Config_Script imports Go_Path begin

text \<open>
  \<open>config/script.go\<close>: the pre- and post-scripts of a host, their inline lines (from YAML) and
  the lines of their files. The file system and the YAML decoder are parameters: the record
  \<open>fs\<close> says what \<open>filepath.Glob\<close> and reading a file answer.
\<close>

section \<open>Errors of the configuration\<close>

datatype conf_error =
    EGlob string
  | EOpen string
  | EYaml string
  | EScan scan_error
  | EDuplicate string
  | EScheduleFormat
  | EScheduleOutOfRange
  | EDuration string
  | ENum
  | EWrap string conf_error

text \<open>The answers of the operating system: matches of a pattern, contents of a file.\<close>

record fs =
  glob :: "string \<Rightarrow> (conf_error, string list) outcome"
  open_file :: "string \<Rightarrow> (conf_error, string) outcome"

section \<open>Scripts\<close>

record script =
  inline :: "string list"
  scripts :: "string list"

definition empty_script :: script where
  "empty_script = \<lparr>inline = [], scripts = []\<rparr>"

definition Lines :: "script \<Rightarrow> string list" where
  "Lines s = inline s @ scripts s"

text \<open>The loop over the scanner: trimmed lines, without empty lines and comments.\<close>

fun clean_lines :: "string list \<Rightarrow> string list" where
  "clean_lines [] = []"
| "clean_lines (l # ls) =
     (let line = trim_space l
      in if line = [] \<or> hd line = CHR ''#'' then clean_lines ls else line # clean_lines ls)"

definition cleanScript :: "string \<Rightarrow> string list \<times> scan_error option" where
  "cleanScript r = (let (ls, err) = scan_lines r in (clean_lines ls, err))"

text \<open>
  \<open>Script.UnmarshalYAML\<close>: \<open>u\<close> is what the decoder's callback leaves in the string or its
  error. The script changes only when everything succeeded.
\<close>

definition Script_UnmarshalYAML ::
  "(conf_error, string) outcome \<Rightarrow> script \<Rightarrow> script \<times> conf_error option" where
  "Script_UnmarshalYAML u s =
     (case u of
        Inl e \<Rightarrow> (s, Some e)
      | Inr txt \<Rightarrow>
          (case cleanScript txt of
             (ls, Some e) \<Rightarrow> (s, Some (EScan e))
           | (ls, None) \<Rightarrow> (\<lparr>inline = ls, scripts = []\<rparr>, None)))"

definition readScriptFile :: "fs \<Rightarrow> string \<Rightarrow> (conf_error, string list) outcome" where
  "readScriptFile f name =
     (case open_file f name of
        Inl e \<Rightarrow> Err e
      | Inr txt \<Rightarrow>
          (case cleanScript txt of
             (ls, Some e) \<Rightarrow> Err (EWrap (''failed to parse '' @ name) (EScan e))
           | (ls, None) \<Rightarrow> Ok ls))"

fun read_files_loop :: "fs \<Rightarrow> string list \<Rightarrow> script \<Rightarrow> script \<times> conf_error option" where
  "read_files_loop f [] s = (s, None)"
| "read_files_loop f (name # names) s =
     (case readScriptFile f name of
        Inl e \<Rightarrow> (s, Some e)
      | Inr ls \<Rightarrow> read_files_loop f names (s\<lparr>scripts := scripts s @ ls\<rparr>))"

definition readFiles :: "fs \<Rightarrow> string \<Rightarrow> string \<Rightarrow> string \<Rightarrow> script \<Rightarrow> script \<times> conf_error option" where
  "readFiles f root host pattern s =
     (case glob f (path_join [root, host, pattern]) of
        Inl e \<Rightarrow> (s, Some e)
      | Inr names \<Rightarrow> read_files_loop f (sort names) s)"

section \<open>Cleaning\<close>

text \<open>What a line must be for the cleaning to keep it as it is.\<close>

definition clean_line :: "string \<Rightarrow> bool" where
  "clean_line l \<longleftrightarrow> l \<noteq> [] \<and> trim_space l = l \<and> hd l \<noteq> CHR ''#''"

lemma clean_lines_clean: "list_all clean_line (clean_lines ls)"
  by (induction ls) (auto simp: Let_def clean_line_def trim_space_idem)

lemma clean_lines_id: "list_all clean_line ls \<Longrightarrow> clean_lines ls = ls"
  by (induction ls) (auto simp: Let_def clean_line_def)

lemma clean_lines_eq: "clean_lines ls = filter (\<lambda>l. l \<noteq> [] \<and> hd l \<noteq> CHR ''#'') (map trim_space ls)"
  by (induction ls) (auto simp: Let_def)

lemma clean_lines_append: "clean_lines (xs @ ys) = clean_lines xs @ clean_lines ys"
  by (simp add: clean_lines_eq)

lemma set_trim_space: "set (trim_space s) \<subseteq> set s"
  unfolding trim_space_def by (auto dest!: set_dropWhileD)

lemma length_trim_space: "length (trim_space s) \<le> length s"
  unfolding trim_space_def
  by (metis (no_types, lifting) dual_order.trans length_dropWhile_le length_rev)

lemma scan_lines_chars:
  assumes "l \<in> set (fst (scan_lines s))"
  shows "newline \<notin> set l" and "length l < max_token"
proof -
  obtain r where r: "r \<in> set (raw_lines s)" "l = drop_cr r" "length r < max_token"
    using assms by (auto simp: scan_lines_def Let_def dest!: set_takeWhileD)
  then show "newline \<notin> set l"
    using raw_lines_no_newline [OF r(1)] by (auto simp: drop_cr_def dest: in_set_butlastD split: if_splits)
  show "length l < max_token" using r by (auto simp: drop_cr_def split: if_splits)
qed

text \<open>
  The cleaned lines, written back one per line, clean to themselves: the cleaning is a normal
  form. The scanner drops a carriage return only at the end of a line, and a trimmed line has none there.
\<close>

lemma clean_lines_mem:
  assumes "l \<in> set (clean_lines ls)"
  obtains l' where "l' \<in> set ls" and "l = trim_space l'"
  using assms by (auto simp: clean_lines_eq)

lemma clean_lines_reread:
  assumes "cleanScript txt = (ls, err)"
  shows "cleanScript (concat (map (\<lambda>l. l @ [newline]) ls)) = (ls, None)"
proof -
  from assms have ls: "ls = clean_lines (fst (scan_lines txt))"
    by (auto simp: cleanScript_def split: prod.splits)
  have "newline \<notin> set l \<and> drop_cr l = l \<and> length l < max_token" if l: "l \<in> set ls" for l
  proof -
    from l ls obtain l' where l': "l' \<in> set (fst (scan_lines txt))" "l = trim_space l'"
      by (auto elim: clean_lines_mem)
    then show ?thesis
      using scan_lines_chars [OF l'(1)] set_trim_space [of l'] length_trim_space [of l'] trim_space_last [of l']
      by (auto simp: drop_cr_def is_space_def)
  qed
  then have "scan_lines (concat (map (\<lambda>l. l @ [newline]) ls)) = (ls, None)"
    by (intro scan_lines_unlines_cr) blast
  moreover have "clean_lines ls = ls" using clean_lines_clean ls clean_lines_id by metis
  ultimately show ?thesis by (simp add: cleanScript_def)
qed

section \<open>Reading the files\<close>

text \<open>The specification of the loop: every file is readable, and their lines in order.\<close>

lemma read_files_loop_ok:
  "read_files_loop f names s = (s', None) \<longleftrightarrow>
     (\<exists>lss. map (readScriptFile f) names = map Inr lss
        \<and> s' = s\<lparr>scripts := scripts s @ concat lss\<rparr>)"
proof (induction names arbitrary: s)
  case Nil
  then show ?case by auto
next
  case (Cons n ns)
  show ?case
  proof (cases "readScriptFile f n")
    case (Inl e)
    then show ?thesis by auto
  next
    case (Inr ls)
    have "(\<exists>lss. Inr ls # map (readScriptFile f) ns = map Inr lss \<and> s' = s\<lparr>scripts := scripts s @ concat lss\<rparr>)
      \<longleftrightarrow> (\<exists>lss. map (readScriptFile f) ns = map Inr lss \<and> s' = s\<lparr>scripts := (scripts s @ ls) @ concat lss\<rparr>)"
      (is "?L = ?R")
    proof
      assume ?L
      then show ?R by (auto simp: Cons_eq_map_conv)
    next
      assume ?R
      then show ?L by (elim exE, intro exI [of _ "ls # _"]) simp
    qed
    then show ?thesis using Inr by (simp add: Cons.IH)
  qed
qed

lemma read_files_loop_inline: "inline (fst (read_files_loop f names s)) = inline s"
  by (induction f names s rule: read_files_loop.induct) (auto split: sum.split)

lemma readFiles_inline: "inline (fst (readFiles f root host pat s)) = inline s"
  by (simp add: readFiles_def read_files_loop_inline split: sum.split)

text \<open>The lines a successful read appends: those of the matches, in the order of their names.\<close>

lemma readFiles_ok:
  assumes "readFiles f root host pat s = (s', None)"
  obtains names lss where "glob f (path_join [root, host, pat]) = Ok names"
    and "map (readScriptFile f) (sort names) = map Inr lss"
    and "s' = s\<lparr>scripts := scripts s @ concat lss\<rparr>"
  using assms by (auto simp: readFiles_def read_files_loop_ok split: sum.splits)

section \<open>Properties\<close>

text \<open>C38: Cleaning a script is a normal form, whether or not the scan ended with an error: no cleaned line is
  empty, a comment or padded with (ASCII) white space, and the cleaned lines, written back one per line, clean to
  themselves without an error.\<close>

theorem cleanScript_normal_form:
  assumes "cleanScript txt = (ls, err)"
  shows "(\<forall>l\<in>set ls. l \<noteq> [] \<and> trim_space l = l \<and> hd l \<noteq> CHR ''#'')
    \<and> cleanScript (concat (map (\<lambda>l. l @ [newline]) ls)) = (ls, None)"
proof -
  from assms have "ls = clean_lines (fst (scan_lines txt))"
    by (auto simp: cleanScript_def split: prod.splits)
  then have "list_all clean_line ls" using clean_lines_clean by simp
  then show ?thesis using clean_lines_reread [OF assms] by (simp add: list_all_iff clean_line_def)
qed

lemma cleanScript_normal_form_witness:
  "cleanScript (''  echo a'' @ [newline] @ ''# no'' @ [newline, newline]) = ([''echo a''], None)
    \<and> cleanScript (concat (map (\<lambda>l. l @ [newline]) [''echo a''])) = ([''echo a''], None)"
proof -
  have "cleanScript (''  echo a'' @ [newline] @ ''# no'' @ [newline, newline]) = ([''echo a''], None)"
    by (simp add: cleanScript_def scan_lines_def raw_lines_def newline_def drop_cr_def trim_space_def is_space_def max_token_def Let_def)
  then show ?thesis using cleanScript_normal_form [of _ "[''echo a'']" None] by simp
qed

text \<open>Reading the hook files of a host fails exactly if the pattern or one of the files cannot be
  read; otherwise it appends the cleaned lines of all matching files, in the order of their
  names, after the lines the script already has.\<close>

theorem readFiles_sorted:
  "readFiles f root host pat s = (s', None) \<longleftrightarrow>
     (\<exists>names lss. glob f (path_join [root, host, pat]) = Ok names
        \<and> map (readScriptFile f) (sort names) = map Inr lss
        \<and> s' = s\<lparr>scripts := scripts s @ concat lss\<rparr>)"
  by (auto simp: readFiles_def read_files_loop_ok split: sum.splits)

end
