(* ===== verification/Config_Job.thy ===== *)
theory Config_Job imports Config_Script begin

text \<open>
  \<open>config/job.go\<close>: the settings of a backup job and \<open>mergeGlobals\<close>, which fills what a host
  leaves open from the global settings. Pointers that may be \<open>nil\<close> are options; this theory
  reads slices as lists (\<open>Config_Alias\<close> keeps their backing arrays).
\<close>

record ssh_config =
  User :: string
  Port :: "16 word"
  Timeout :: "64 word option"

record rsync_config =
  Included :: "string list"
  Excluded :: "string list"
  Arguments :: "string list"
  OverrideGlobalInclude :: bool
  OverrideGlobalExclude :: bool
  OverrideGlobalArguments :: bool

record job_config =
  job_host :: string
  SSH :: "ssh_config option"
  RSync :: "rsync_config option"
  PreScript :: script
  PostScript :: script

text \<open>\<open>JobConfig{}\<close>, and \<open>&JobConfig{host: h}\<close>.\<close>

definition new_job :: "string \<Rightarrow> job_config" where
  "new_job h = \<lparr>job_host = h, SSH = None, RSync = None, PreScript = empty_script, PostScript = empty_script\<rparr>"

definition Host :: "job_config \<Rightarrow> string" where
  "Host j = job_host j"

section \<open>Merging\<close>

definition merge_ssh :: "ssh_config option \<Rightarrow> ssh_config option \<Rightarrow> ssh_config option" where
  "merge_ssh js gs =
     (case gs of
        None \<Rightarrow> js
      | Some g \<Rightarrow>
          (case js of
             None \<Rightarrow> Some g
           | Some j \<Rightarrow>
               Some \<lparr>User = (if User j = [] then User g else User j),
                     Port = (if Port j = 0 then Port g else Port j),
                     Timeout = (if Timeout j = None \<and> Timeout g \<noteq> None then Timeout g else Timeout j)\<rparr>))"

definition merge_rsync :: "rsync_config option \<Rightarrow> rsync_config option \<Rightarrow> rsync_config option" where
  "merge_rsync jr gr =
     (case gr of
        None \<Rightarrow> jr
      | Some g \<Rightarrow>
          (case jr of
             None \<Rightarrow> Some g
           | Some j \<Rightarrow>
               Some (j\<lparr>Included := (if OverrideGlobalInclude j then Included j else Included j @ Included g),
                       Excluded := (if OverrideGlobalExclude j then Excluded j else Excluded j @ Excluded g),
                       Arguments := (if OverrideGlobalArguments j then Arguments j
                                     else Arguments j @ Arguments g)\<rparr>)))"

definition merge_script :: "script \<Rightarrow> script \<Rightarrow> script" where
  "merge_script j g = \<lparr>inline = inline g @ inline j, scripts = scripts g @ scripts j\<rparr>"

definition mergeGlobals :: "job_config \<Rightarrow> job_config \<Rightarrow> job_config" where
  "mergeGlobals j globals =
     j\<lparr>SSH := merge_ssh (SSH j) (SSH globals),
       RSync := merge_rsync (RSync j) (RSync globals),
       PreScript := merge_script (PreScript j) (PreScript globals),
       PostScript := merge_script (PostScript j) (PostScript globals)\<rparr>"

section \<open>What merging gives\<close>

lemma mergeGlobals_host [simp]: "job_host (mergeGlobals j g) = job_host j"
  by (simp add: mergeGlobals_def)

lemma mergeGlobals_simps:
  "SSH (mergeGlobals j g) = merge_ssh (SSH j) (SSH g)"
  "RSync (mergeGlobals j g) = merge_rsync (RSync j) (RSync g)"
  "PreScript (mergeGlobals j g) = merge_script (PreScript j) (PreScript g)"
  "PostScript (mergeGlobals j g) = merge_script (PostScript j) (PostScript g)"
  by (simp_all add: mergeGlobals_def)

lemma merge_script_empty [simp]:
  "merge_script empty_script s = s" "merge_script s empty_script = s"
  by (simp_all add: merge_script_def empty_script_def)

lemma merge_script_assoc: "merge_script (merge_script a b) c = merge_script a (merge_script b c)"
  by (simp add: merge_script_def)

lemma merge_ssh_None [simp]: "merge_ssh None g = g" "merge_ssh j None = j"
  by (simp_all add: merge_ssh_def split: option.split)

lemma merge_rsync_None [simp]: "merge_rsync None g = g" "merge_rsync j None = j"
  by (simp_all add: merge_rsync_def split: option.split)

text \<open>Merging a configuration into a fresh job copies it: this is how \<open>Tree.Host\<close> copies.\<close>

lemma mergeGlobals_new_job: "mergeGlobals (new_job (job_host g)) g = g"
  by (cases g) (simp add: mergeGlobals_def new_job_def)

lemma mergeGlobals_no_globals: "mergeGlobals j (new_job h) = j"
  by (cases j) (simp add: mergeGlobals_def new_job_def)

text \<open>Filling from two sources of connection settings, one after the other.\<close>

lemma merge_ssh_assoc: "merge_ssh (merge_ssh a b) c = merge_ssh a (merge_ssh b c)"
  by (cases a; cases b; cases c; cases "Timeout (the a)"; cases "Timeout (the b)"; cases "Timeout (the c)")
    (simp_all add: merge_ssh_def)

lemma Lines_merge_script:
  "Lines (merge_script j g) = inline g @ inline j @ scripts g @ scripts j"
  by (simp add: Lines_def merge_script_def)

section \<open>Properties\<close>

text \<open>Without overrides in the middle, the lists of paths and arguments merge like lists.\<close>

lemma merge_rsync_assoc:
  assumes "\<forall>r. b = Some r \<longrightarrow> \<not> OverrideGlobalInclude r \<and> \<not> OverrideGlobalExclude r \<and> \<not> OverrideGlobalArguments r"
  shows "merge_rsync (merge_rsync a b) c = merge_rsync a (merge_rsync b c)"
  using assms by (cases a; cases b; cases c) (simp_all add: merge_rsync_def)

text \<open>Filling a host's configuration from two layers of global settings gives the same result as
  filling it from the two layers merged, as long as the nearer layer does not itself
  override the farther one; the empty configuration is neutral, on both sides.\<close>

theorem mergeGlobals_assoc:
  assumes "\<forall>r. RSync b = Some r \<longrightarrow> \<not> OverrideGlobalInclude r \<and> \<not> OverrideGlobalExclude r \<and> \<not> OverrideGlobalArguments r"
  shows "mergeGlobals (mergeGlobals a b) c = mergeGlobals a (mergeGlobals b c)
    \<and> mergeGlobals a (new_job h) = a \<and> mergeGlobals (new_job (Host a)) a = a"
  using merge_rsync_assoc [OF assms] mergeGlobals_no_globals mergeGlobals_new_job
  by (simp add: mergeGlobals_def merge_ssh_assoc merge_script_assoc Host_def)

lemma mergeGlobals_assoc_witness:
  "mergeGlobals (mergeGlobals (new_job ''a'') (new_job ''b'')) (new_job ''c'')
    = mergeGlobals (new_job ''a'') (mergeGlobals (new_job ''b'') (new_job ''c''))"
  using mergeGlobals_assoc [of "new_job ''b''" "new_job ''a''" "new_job ''c''" "[]"] by (simp add: new_job_def)

text \<open>A job's own settings win over the global ones, the global script lines run before the job's
  own, and an overriding list of the job hides the global one.\<close>

theorem mergeGlobals_precedence:
  "(case (SSH j, SSH g, SSH (mergeGlobals j g)) of
      (Some a, Some b, Some m) \<Rightarrow>
        User m = (if User a \<noteq> [] then User a else User b) \<and> Port m = (if Port a \<noteq> 0 then Port a else Port b)
        \<and> Timeout m = (if Timeout a \<noteq> None then Timeout a else Timeout b)
    | (None, b, m) \<Rightarrow> m = b
    | (a, None, m) \<Rightarrow> m = a
    | _ \<Rightarrow> False)
   \<and> Lines (PreScript (mergeGlobals j g)) =
       inline (PreScript g) @ inline (PreScript j) @ scripts (PreScript g) @ scripts (PreScript j)
   \<and> Lines (PostScript (mergeGlobals j g)) =
       inline (PostScript g) @ inline (PostScript j) @ scripts (PostScript g) @ scripts (PostScript j)
   \<and> (case (RSync j, RSync g, RSync (mergeGlobals j g)) of
      (Some a, Some b, Some m) \<Rightarrow>
        Included m = Included a @ (if OverrideGlobalInclude a then [] else Included b)
        \<and> Excluded m = Excluded a @ (if OverrideGlobalExclude a then [] else Excluded b)
        \<and> Arguments m = Arguments a @ (if OverrideGlobalArguments a then [] else Arguments b)
    | (None, b, m) \<Rightarrow> m = b
    | (a, None, m) \<Rightarrow> m = a
    | _ \<Rightarrow> False)"
  by (auto simp: mergeGlobals_simps Lines_merge_script merge_ssh_def merge_rsync_def split: option.splits)

end
