(* ===== verification/Go_Strconv.thy ===== *)
theory Go_Strconv imports Go_Strings begin

text \<open>
  Go's decimal conversions: \<open>strconv.ParseUint\<close>, \<open>ParseInt\<close> and \<open>Atoi\<close> in base 10 and 64
  bits, \<open>Itoa\<close> and the verbs \<open>%d\<close> and \<open>%02d\<close>. A signed 64-bit value is an \<open>int\<close> in the
  range of \<open>int64\<close>, an unsigned one a \<open>64 word\<close>. Printing and parsing are codecs.
\<close>

section \<open>Digits\<close>

definition digit_char :: "nat \<Rightarrow> char" where
  "digit_char d = char_of (48 + d)"

definition digit_val :: "char \<Rightarrow> nat" where
  "digit_val c = of_char c - 48"

definition is_digit :: "char \<Rightarrow> bool" where
  "is_digit c \<longleftrightarrow> 48 \<le> (of_char c :: nat) \<and> (of_char c :: nat) \<le> 57"

lemma digit_char_props:
  assumes "d < 10"
  shows "is_digit (digit_char d)" and "digit_val (digit_char d) = d"
  using assms by (simp_all add: is_digit_def digit_char_def digit_val_def)

fun nat_str :: "nat \<Rightarrow> string" where
  "nat_str n = (if n < 10 then [digit_char n] else nat_str (n div 10) @ [digit_char (n mod 10)])"

declare nat_str.simps [simp del]

definition int_str :: "int \<Rightarrow> string" where
  "int_str i = (if i < 0 then CHR ''-'' # nat_str (nat (- i)) else nat_str (nat i))"

text \<open>The verb \<open>%02d\<close> of the two-digit fields of a schedule or a time stamp.\<close>

definition pad2 :: "int \<Rightarrow> string" where
  "pad2 i = (let s = int_str i in if length s < 2 then CHR ''0'' # s else s)"

lemma nat_str_digits: "list_all is_digit (nat_str n)"
proof (induction n rule: nat_str.induct)
  case (1 n)
  then show ?case by (subst nat_str.simps) (auto simp: digit_char_props)
qed

lemma nat_str_nonempty [simp]: "nat_str n \<noteq> []"
  by (subst nat_str.simps) simp

section \<open>Parsing\<close>

datatype num_error = ErrSyntax | ErrRange

fun parse_loop :: "nat \<Rightarrow> nat \<Rightarrow> string \<Rightarrow> (num_error, nat) outcome" where
  "parse_loop mx acc [] = Ok acc"
| "parse_loop mx acc (c # cs) =
     (if \<not> is_digit c then Err ErrSyntax
      else let n = acc * 10 + digit_val c in if mx < n then Err ErrRange else parse_loop mx n cs)"

definition parse_nat :: "string \<Rightarrow> (num_error, nat) outcome" where
  "parse_nat s = (if s = [] then Err ErrSyntax else parse_loop (2 ^ 64 - 1) 0 s)"

definition parse_uint64 :: "string \<Rightarrow> (num_error, 64 word) outcome" where
  "parse_uint64 s = (case parse_nat s of Inl e \<Rightarrow> Err e | Inr n \<Rightarrow> Ok (of_nat n))"

definition parse_int64 :: "string \<Rightarrow> (num_error, int) outcome" where
  "parse_int64 s =
     (if s = [] then Err ErrSyntax
      else let neg = (hd s = CHR ''-'');
               t = (if hd s = CHR ''-'' \<or> hd s = CHR ''+'' then tl s else s)
           in case parse_nat t of
                Inl e \<Rightarrow> Err e
              | Inr n \<Rightarrow> if \<not> neg \<and> 2 ^ 63 \<le> n then Err ErrRange
                         else if neg \<and> 2 ^ 63 < n then Err ErrRange
                         else Ok (if neg then - int n else int n))"

text \<open>\<open>int\<close> has 64 bits on the platforms the program is built for.\<close>

definition atoi :: "string \<Rightarrow> (num_error, int) outcome" where
  "atoi s = parse_int64 s"

definition int64_range :: "int \<Rightarrow> bool" where
  "int64_range i \<longleftrightarrow> - (2 ^ 63) \<le> i \<and> i < 2 ^ 63"

section \<open>Printing, then parsing\<close>

lemma parse_loop_snoc:
  "parse_loop mx acc (s @ [c]) =
     (case parse_loop mx acc s of Inl e \<Rightarrow> Err e | Inr n \<Rightarrow> parse_loop mx n [c])"
  by (induction s arbitrary: acc) (auto simp: Let_def)

lemma parse_loop_nat_str: "n \<le> mx \<Longrightarrow> parse_loop mx 0 (nat_str n) = Ok n"
proof (induction n rule: nat_str.induct)
  case (1 n)
  show ?case
  proof (cases "n < 10")
    case True
    with 1 show ?thesis by (subst nat_str.simps) (simp add: digit_char_props Let_def)
  next
    case False
    have "n div 10 \<le> mx" using 1 by linarith
    with 1 False have "parse_loop mx 0 (nat_str (n div 10)) = Ok (n div 10)" by simp
    moreover have "n div 10 * 10 + n mod 10 = n" by simp
    ultimately show ?thesis
      using 1 False by (subst nat_str.simps) (simp add: parse_loop_snoc digit_char_props Let_def)
  qed
qed

lemma parse_nat_nat_str: "n < 2 ^ 64 \<Longrightarrow> parse_nat (nat_str n) = Ok n"
  by (simp add: parse_nat_def parse_loop_nat_str)

lemma parse_loop_zero_prefix: "parse_loop mx 0 (CHR ''0'' # s) = parse_loop mx 0 s"
  by (simp add: is_digit_def digit_val_def Let_def)

lemma nat_str_hd: "hd (nat_str n) \<noteq> CHR ''-''" "hd (nat_str n) \<noteq> CHR ''+''"
proof -
  have "is_digit (hd (nat_str n))"
    using nat_str_digits [of n] by (cases "nat_str n") auto
  then show "hd (nat_str n) \<noteq> CHR ''-''" "hd (nat_str n) \<noteq> CHR ''+''"
    by (auto simp: is_digit_def)
qed

lemma parse_uint64_nat_str: "parse_uint64 (nat_str (unat (v :: 64 word))) = Ok v"
proof -
  have "unat v < 2 ^ 64" using unsigned_less [where 'a = nat, of v] by simp
  then show ?thesis by (simp add: parse_uint64_def parse_nat_nat_str)
qed

lemma parse_int64_int_str: "int64_range i \<Longrightarrow> parse_int64 (int_str i) = Ok i"
proof (cases "i < 0")
  case True
  assume r: "int64_range i"
  then have "nat (- i) \<le> 2 ^ 63" by (simp add: int64_range_def nat_le_iff)
  then show ?thesis
    using True by (simp add: parse_int64_def int_str_def parse_nat_nat_str Let_def)
next
  case False
  assume r: "int64_range i"
  then have "nat i < 2 ^ 63" using False by (simp add: int64_range_def)
  then show ?thesis
    using False nat_str_hd [of "nat i"]
    by (simp add: parse_int64_def int_str_def parse_nat_nat_str Let_def)
qed

lemma parse_int64_range: "parse_int64 s = Ok i \<Longrightarrow> int64_range i"
  by (auto simp: parse_int64_def int64_range_def Let_def split: if_splits sum.splits)

lemma pad2_small:
  assumes "0 \<le> i" and "i < 100"
  shows "pad2 i = [digit_char (nat i div 10), digit_char (nat i mod 10)]"
proof (cases "i < 10")
  case True
  then have "nat i < 10" by simp
  then have "nat_str (nat i) = [digit_char (nat i)]" by (subst nat_str.simps) simp
  moreover have "digit_char 0 = CHR ''0''" by code_simp
  ultimately show ?thesis
    using assms \<open>nat i < 10\<close> by (simp add: pad2_def int_str_def Let_def)
next
  case False
  then have n: "\<not> nat i < 10" "nat i div 10 < 10" using assms by auto
  then have "nat_str (nat i) = [digit_char (nat i div 10), digit_char (nat i mod 10)]"
    by (subst nat_str.simps, subst nat_str.simps) simp
  then show ?thesis using assms by (simp add: pad2_def int_str_def Let_def)
qed

lemma atoi_pad2: "0 \<le> i \<Longrightarrow> i < 100 \<Longrightarrow> atoi (pad2 i) = Ok i"
proof -
  assume r: "0 \<le> i" "i < 100"
  let ?a = "nat i div 10" and ?b = "nat i mod 10"
  have d: "?a < 10" "?b < 10" using r by auto
  have "parse_nat [digit_char ?a, digit_char ?b] = Ok (nat i)"
    using d r by (simp add: parse_nat_def digit_char_props Let_def)
  moreover have "digit_char ?a \<noteq> CHR ''-''" "digit_char ?a \<noteq> CHR ''+''"
    using digit_char_props(1) [OF d(1)] by (auto simp: is_digit_def)
  ultimately show ?thesis
    using r by (simp add: atoi_def parse_int64_def pad2_small Let_def)
qed

text \<open>What printing never produces: the separators of the formats the numbers go into.\<close>

lemma is_digit_not_sep: "is_digit c \<Longrightarrow> c \<noteq> CHR '':'' \<and> c \<noteq> CHR ''/'' \<and> c \<noteq> CHR 0x09 \<and> c \<noteq> CHR 0x0A \<and> c \<noteq> CHR 0x0D \<and> c \<noteq> CHR ''-''"
  by (auto simp: is_digit_def)

lemma int_str_chars: "c \<in> set (int_str i) \<Longrightarrow> is_digit c \<or> c = CHR ''-''"
  using nat_str_digits by (auto simp: int_str_def list_all_iff split: if_splits)

lemma pad2_digits: "0 \<le> i \<Longrightarrow> i < 100 \<Longrightarrow> list_all is_digit (pad2 i)"
  by (simp add: pad2_small digit_char_props)

interpretation uint64_codec: text_codec "\<lambda>v :: 64 word. nat_str (unat v)" parse_uint64 "\<lambda>_. True"
  by unfold_locales (rule parse_uint64_nat_str)

interpretation int64_codec: text_codec int_str parse_int64 int64_range
  by unfold_locales (rule parse_int64_int_str)

end
