(* ===== verification/Go_Time.thy ===== *)
theory Go_Time imports Go_Strconv begin

text \<open>
  Go's \<open>time\<close> package as the program uses it. A \<open>time.Time\<close> is the number of nanoseconds
  since the Unix epoch (an \<open>int\<close>: every instant of the wall clock, the location is UTC and
  monotonic readings are stripped by \<open>UTC()\<close>); a \<open>time.Duration\<close> is an \<open>int64\<close> number of
  nanoseconds. The calendar is Go's proleptic Gregorian algorithm.
\<close>

type_synonym time = int
type_synonym duration = int

abbreviation millisecond :: duration where
  "millisecond \<equiv> 1000000"

abbreviation second :: duration where
  "second \<equiv> 1000000000"

abbreviation day_secs :: int where
  "day_secs \<equiv> 86400"

section \<open>64-bit arithmetic\<close>

definition wrap64 :: "int \<Rightarrow> int" where
  "wrap64 i = signed_take_bit 63 i"

lemma wrap64_id: "int64_range i \<Longrightarrow> wrap64 i = i"
  by (simp add: wrap64_def int64_range_def signed_take_bit_int_eq_self_iff)

lemma wrap64_range: "int64_range (wrap64 i)"
  using signed_take_bit_int_greater_eq_minus_exp [of 63 i] signed_take_bit_int_less_exp [of 63 i]
  by (simp add: wrap64_def int64_range_def)

section \<open>Durations\<close>

text \<open>\<open>Duration.Truncate\<close> rounds towards zero to a multiple of \<open>m\<close>.\<close>

definition trunc_dur :: "duration \<Rightarrow> duration \<Rightarrow> duration" where
  "trunc_dur d m = (if m \<le> 0 then d else d - d smod m)"

lemma smod_pos: "0 \<le> (d :: int) \<Longrightarrow> 0 < m \<Longrightarrow> d smod m = d mod m"
  by (cases "d = 0") (simp_all add: signed_modulo_int_def)

lemma smod_neg: "(d :: int) < 0 \<Longrightarrow> 0 < m \<Longrightarrow> d smod m = - ((- d) mod m)"
  by (simp add: signed_modulo_int_def)

lemma trunc_dur_nonneg: "0 \<le> d \<Longrightarrow> 0 < m \<Longrightarrow> 0 \<le> trunc_dur d m \<and> trunc_dur d m \<le> d"
proof -
  assume a: "0 \<le> d" "0 < m"
  then have "0 \<le> d mod m" "d mod m \<le> d" by (auto simp: zmod_le_nonneg_dividend)
  moreover have "trunc_dur d m = d - d mod m" using a by (simp add: trunc_dur_def smod_pos)
  ultimately show ?thesis by linarith
qed

lemma trunc_dur_neg: "d < 0 \<Longrightarrow> 0 < m \<Longrightarrow> d \<le> trunc_dur d m \<and> trunc_dur d m \<le> 0"
proof -
  assume "d < 0" "0 < m"
  then have "0 \<le> (- d) mod m" "(- d) mod m \<le> - d"
    by (auto intro: zmod_le_nonneg_dividend)
  with \<open>d < 0\<close> \<open>0 < m\<close> show ?thesis by (simp add: trunc_dur_def smod_neg)
qed

lemma trunc_dur_range: "int64_range d \<Longrightarrow> 0 < m \<Longrightarrow> int64_range (trunc_dur d m)"
  using trunc_dur_nonneg [of d m] trunc_dur_neg [of d m]
  by (cases "0 \<le> d") (auto simp: int64_range_def)

lemma trunc_dur_dvd: "0 < m \<Longrightarrow> m dvd trunc_dur d m"
proof (cases "0 \<le> d")
  case True
  assume "0 < m"
  with True show ?thesis by (simp add: trunc_dur_def smod_pos)
next
  case False
  assume m: "0 < m"
  have "m dvd (- d) - (- d) mod m" by simp
  moreover have "(- d) - (- d) mod m = - (d + (- d) mod m)" by simp
  ultimately have "m dvd d + (- d) mod m" by (metis dvd_minus_iff)
  with False m show ?thesis by (simp add: trunc_dur_def smod_neg)
qed

section \<open>Instants\<close>

definition zero_time :: time where
  "zero_time = - 62135596800 * second"

definition is_zero :: "time \<Rightarrow> bool" where
  "is_zero t \<longleftrightarrow> t = zero_time"

definition unix :: "time \<Rightarrow> int" where
  "unix t = t div second"

text \<open>\<open>time.Unix(sec, 0)\<close>: the seconds are kept in an \<open>int64\<close> counted from year 1.\<close>

definition time_unix :: "int \<Rightarrow> time" where
  "time_unix sec = (wrap64 (sec + 62135596800) - 62135596800) * second"

text \<open>\<open>t.Sub(u)\<close> saturates at the ends of \<open>int64\<close>.\<close>

definition time_sub :: "time \<Rightarrow> time \<Rightarrow> duration" where
  "time_sub t u =
     (if int64_range (t - u) then t - u else if t < u then - (2 ^ 63) else 2 ^ 63 - 1)"

lemma time_sub_range: "int64_range (time_sub t u)"
  by (simp add: time_sub_def int64_range_def)

text \<open>The instants \<open>time.Unix\<close> does not wrap.\<close>

definition unix_range :: "int \<Rightarrow> bool" where
  "unix_range s \<longleftrightarrow> - (2 ^ 63) \<le> s \<and> s < 2 ^ 63 - 62135596800"

lemma time_unix_exact: "unix_range s \<Longrightarrow> time_unix s = s * second"
proof -
  assume "unix_range s"
  then have "int64_range (s + 62135596800)" by (simp add: unix_range_def int64_range_def)
  then show ?thesis by (simp add: time_unix_def wrap64_id)
qed

lemma unix_mono: "t \<le> u \<Longrightarrow> unix t \<le> unix u"
  by (simp add: unix_def zdiv_mono1)

section \<open>The calendar\<close>

text \<open>Days are counted from 0001-01-01; \<open>epoch_days\<close> is 1970-01-01.\<close>

definition epoch_days :: int where
  "epoch_days = 719162"

definition is_leap :: "int \<Rightarrow> bool" where
  "is_leap y \<longleftrightarrow> y mod 4 = 0 \<and> (y mod 100 \<noteq> 0 \<or> y mod 400 = 0)"

definition days_before_year :: "int \<Rightarrow> int" where
  "days_before_year y = (let p = y - 1 in 365 * p + p div 4 - p div 100 + p div 400)"

definition days_before_month :: "int list" where
  "days_before_month = [0, 31, 59, 90, 120, 151, 181, 212, 243, 273, 304, 334, 365]"

text \<open>\<open>time.Date\<close>: months and days out of range are carried over.\<close>

definition days_of_date :: "int \<Rightarrow> int \<Rightarrow> int \<Rightarrow> int" where
  "days_of_date y m d =
     (let y' = y + (m - 1) div 12; m' = (m - 1) mod 12
      in days_before_year y' + days_before_month ! nat m'
         + (if is_leap y' \<and> 2 \<le> m' then 1 else 0) + (d - 1))"

definition time_date :: "int \<Rightarrow> int \<Rightarrow> int \<Rightarrow> int \<Rightarrow> int \<Rightarrow> int \<Rightarrow> int \<Rightarrow> time" where
  "time_date y m d h mi s ns =
     ((days_of_date y m d - epoch_days) * day_secs + h * 3600 + mi * 60 + s) * second + ns"

text \<open>The year of a day and the day within it, by cycles of 400, 100, 4 and 1 years.\<close>

definition year_yday :: "int \<Rightarrow> int \<times> int" where
  "year_yday n =
     (let n400 = n div 146097; r = n mod 146097;
          c = r div 36524; n100 = c - c div 4; r = r - 36524 * n100;
          n4 = r div 1461; r = r mod 1461;
          a = r div 365; n1 = a - a div 4; r = r - 365 * n1
      in (400 * n400 + 100 * n100 + 4 * n4 + n1 + 1, r))"

definition month_day :: "int \<Rightarrow> int \<Rightarrow> int \<times> int" where
  "month_day y yday =
     (if is_leap y \<and> yday = 59 then (2, 29)
      else let d = (if is_leap y \<and> 59 < yday then yday - 1 else yday);
               m = d div 31;
               e = days_before_month ! nat (m + 1)
           in if e \<le> d then (m + 2, d - e + 1) else (m + 1, d - days_before_month ! nat m + 1))"

definition date_of_days :: "int \<Rightarrow> int \<times> int \<times> int" where
  "date_of_days n = (let (y, yd) = year_yday n; (m, d) = month_day y yd in (y, m, d))"

text \<open>\<open>t.Date()\<close> and \<open>t.Clock()\<close>.\<close>

definition time_day :: "time \<Rightarrow> int" where
  "time_day t = unix t div day_secs + epoch_days"

definition date_of :: "time \<Rightarrow> int \<times> int \<times> int" where
  "date_of t = date_of_days (time_day t)"

definition clock_of :: "time \<Rightarrow> int \<times> int \<times> int" where
  "clock_of t = (let s = unix t mod day_secs in (s div 3600, s mod 3600 div 60, s mod 60))"

text \<open>The last cycle of a longer one may be a day longer: the index of a cycle is capped at 3.\<close>

lemma capped_div:
  assumes "0 \<le> (r :: int)" and "r \<le> 4 * k" and "0 < k"
  defines "q \<equiv> r div k - r div k div 4"
  shows "0 \<le> q" and "q \<le> 3" and "0 \<le> r - k * q" and "r - k * q \<le> k"
proof -
  define d where "d = r div k"
  have d: "k * d \<le> r" "r < k * d + k"
    using assms(3) unfolding d_def
    by (metis mult.commute div_mult_mod_eq le_add_same_cancel1 pos_mod_sign)
      (metis assms(3) d_def mult.commute mult_div_mod_eq add_strict_left_mono pos_mod_bound)
  have "0 \<le> d" using assms(1,3) by (simp add: d_def pos_imp_zdiv_nonneg_iff)
  moreover have "d \<le> 4"
  proof (rule ccontr)
    assume "\<not> d \<le> 4"
    then have "k * 5 \<le> k * d" using assms(3) by simp
    with d(1) assms(2,3) show False by linarith
  qed
  ultimately consider "d = 0" | "d = 1" | "d = 2" | "d = 3" | "d = 4" by linarith
  then have "0 \<le> d - d div 4 \<and> d - d div 4 \<le> 3
      \<and> 0 \<le> r - k * (d - d div 4) \<and> r - k * (d - d div 4) \<le> k"
    by cases (use d assms in auto)
  then show "0 \<le> q" and "q \<le> 3" and "0 \<le> r - k * q" and "r - k * q \<le> k"
    by (simp_all add: q_def d_def)
qed

lemma year_yday_days:
  assumes "year_yday n = (y, yd)"
  shows "days_before_year y + yd = n" and "0 \<le> yd" and "yd \<le> 365"
proof -
  define a where "a = n div 146097"
  define r where "r = n mod 146097"
  define b where "b = r div 36524 - r div 36524 div 4"
  define r2 where "r2 = r - 36524 * b"
  define c where "c = r2 div 1461"
  define r3 where "r3 = r2 mod 1461"
  define e where "e = r3 div 365 - r3 div 365 div 4"
  define r4 where "r4 = r3 - 365 * e"
  have "year_yday n = (400 * a + 100 * b + 4 * c + e + 1, r4)"
    unfolding year_yday_def Let_def a_def r_def b_def r2_def c_def r3_def e_def r4_def by (rule refl)
  with assms have y: "y = 400 * a + 100 * b + 4 * c + e + 1" and yd: "yd = r4" by simp_all
  have r: "0 \<le> r" "r < 146097" "n = 146097 * a + r" by (simp_all add: r_def a_def)
  have b: "0 \<le> b" "b \<le> 3" and r2: "0 \<le> r2" "r2 \<le> 36524"
    using capped_div [OF r(1), of 36524] r(2) unfolding r2_def b_def by simp_all
  have r3: "0 \<le> r3" "r3 < 1461" "r2 = 1461 * c + r3" by (simp_all add: r3_def c_def)
  have c: "0 \<le> c" "c \<le> 24" using r2 r3 by linarith+
  have e: "0 \<le> e" "e \<le> 3" and r4: "0 \<le> r4" "r4 \<le> 365"
    using capped_div [OF r3(1), of 365] r3(2) unfolding r4_def e_def by simp_all
  have n: "n = 146097 * a + 36524 * b + 1461 * c + 365 * e + r4"
    using r r3 by (simp add: r2_def r4_def)
  define p where "p = 400 * a + 100 * b + 4 * c + e"
  have "p = 4 * (100 * a + 25 * b + c) + e" by (simp add: p_def)
  then have "p div 4 = 100 * a + 25 * b + c" using e by simp
  moreover have "p = 100 * (4 * a + b) + (4 * c + e)" by (simp add: p_def)
  then have "p div 100 = 4 * a + b" using c e by simp
  moreover have "p = 400 * a + (100 * b + 4 * c + e)" by (simp add: p_def)
  then have "p div 400 = a" using b c e by simp
  ultimately have "days_before_year y = 146097 * a + 36524 * b + 1461 * c + 365 * e"
    by (simp add: days_before_year_def Let_def y p_def [symmetric]) (simp add: p_def)
  with n yd show "days_before_year y + yd = n" by simp
  show "0 \<le> yd" "yd \<le> 365" using r4 yd by simp_all
qed

lemma days_before_month_nth [simp]:
  "days_before_month ! 0 = 0" "days_before_month ! Suc 0 = 31" "days_before_month ! 2 = 59"
  "days_before_month ! 3 = 90" "days_before_month ! 4 = 120" "days_before_month ! 5 = 151"
  "days_before_month ! 6 = 181" "days_before_month ! 7 = 212" "days_before_month ! 8 = 243"
  "days_before_month ! 9 = 273" "days_before_month ! 10 = 304" "days_before_month ! 11 = 334"
  "days_before_month ! 12 = 365"
  by (simp_all add: days_before_month_def)

lemma month_index_cases:
  "0 \<le> (m :: int) \<Longrightarrow> m \<le> 11 \<Longrightarrow>
   m = 0 \<or> m = 1 \<or> m = 2 \<or> m = 3 \<or> m = 4 \<or> m = 5 \<or> m = 6 \<or> m = 7 \<or> m = 8 \<or> m = 9 \<or> m = 10 \<or> m = 11"
  by presburger

text \<open>Only a leap year has a day 365.\<close>

lemma year_yday_leap:
  assumes "year_yday n = (y, yd)" and "yd = 365"
  shows "is_leap y"
proof -
  define r where "r = n mod 146097"
  define b where "b = r div 36524 - r div 36524 div 4"
  define r2 where "r2 = r - 36524 * b"
  define c where "c = r2 div 1461"
  define r3 where "r3 = r2 mod 1461"
  define e where "e = r3 div 365 - r3 div 365 div 4"
  have "year_yday n = (400 * (n div 146097) + 100 * b + 4 * c + e + 1, r3 - 365 * e)"
    unfolding year_yday_def Let_def r_def b_def r2_def c_def r3_def e_def by (rule refl)
  with assms have y: "y = 400 * (n div 146097) + 100 * b + 4 * c + e + 1" and yd: "r3 - 365 * e = 365"
    by simp_all
  have r: "0 \<le> r" "r < 146097" by (simp_all add: r_def)
  have b: "0 \<le> b" "b \<le> 3" and r2: "0 \<le> r2" "r2 \<le> 36524"
    using capped_div [of r 36524] r unfolding r2_def b_def by simp_all
  have r3: "0 \<le> r3" "r3 < 1461" "r2 = 1461 * c + r3" by (simp_all add: r3_def c_def)
  have c: "0 \<le> c" "c \<le> 24" using r2 r3 by linarith+
  have e: "0 \<le> e" "e \<le> 3" using capped_div [of r3 365] r3 unfolding e_def by simp_all
  have "e = 3"
  proof (rule ccontr)
    assume "e \<noteq> 3"
    then have "r3 div 365 = e \<or> r3 div 365 = 4 \<and> e = 3" using e r3 unfolding e_def by linarith
    with yd \<open>e \<noteq> 3\<close> show False by linarith
  qed
  with yd have "r3 = 1460" by simp
  then consider "c < 24" | "c = 24" "r2 = 36524" using c r2 r3 by linarith
  then show ?thesis
  proof cases
    case 1
    have "y = 4 * (100 * (n div 146097) + 25 * b + c + 1)" using y \<open>e = 3\<close> by simp
    moreover have "y mod 100 = 4 * (c + 1)"
    proof -
      have "y = 4 * (c + 1) + 100 * (4 * (n div 146097) + b)" using y \<open>e = 3\<close> by simp
      then have "y mod 100 = (4 * (c + 1)) mod 100" by (simp only: mod_mult_self2)
      then show ?thesis using 1 c by simp
    qed
    ultimately show ?thesis using 1 c by (simp add: is_leap_def)
  next
    case 2
    have "b = 3"
    proof (rule ccontr)
      assume "b \<noteq> 3"
      then have "r div 36524 = b \<or> r div 36524 = 4 \<and> b = 3" using b r unfolding b_def by linarith
      with \<open>b \<noteq> 3\<close> 2(2) show False unfolding r2_def by linarith
    qed
    then have "y = 400 * (n div 146097 + 1)" using y 2(1) \<open>e = 3\<close> by simp
    then show ?thesis by (simp add: is_leap_def)
  qed
qed

lemma month_day_spec:
  assumes "0 \<le> yd" and "yd \<le> 365" and "yd = 365 \<Longrightarrow> is_leap y" and "month_day y yd = (m, d)"
  shows "1 \<le> m \<and> m \<le> 12 \<and> 1 \<le> d \<and> d \<le> 31
    \<and> days_before_month ! nat (m - 1) + (if is_leap y \<and> 2 \<le> m - 1 then 1 else 0) + (d - 1) = yd"
proof (cases "is_leap y \<and> yd = 59")
  case True
  with assms(4) show ?thesis by (auto simp: month_day_def)
next
  case False
  define k where "k = (if is_leap y \<and> 59 < yd then yd - 1 else yd)"
  define q where "q = k div 31"
  have "yd \<le> 364 \<or> is_leap y" using assms(2,3) by linarith
  then have k: "0 \<le> k" "k \<le> 364" using assms(1,2) by (auto simp: k_def)
  then have q: "0 \<le> q" "q \<le> 11" "31 * q \<le> k" "k < 31 * q + 31" unfolding q_def by linarith+
  have md: "(m, d) = (if days_before_month ! nat (q + 1) \<le> k
      then (q + 2, k - days_before_month ! nat (q + 1) + 1)
      else (q + 1, k - days_before_month ! nat q + 1))"
    using assms(4) False unfolding month_day_def Let_def k_def [symmetric] q_def [symmetric]
    by (simp split: if_splits)
  have yd: "yd = (if is_leap y \<and> 59 \<le> k then k + 1 else k)" using False by (auto simp: k_def)
  show ?thesis
    using month_index_cases [OF q(1,2)] md q k unfolding yd
    by (elim disjE) (simp_all split: if_splits)
qed

theorem days_of_date_of_days:
  assumes "date_of_days n = (y, m, d)"
  shows "days_of_date y m (d + k) = n + k" and "1 \<le> m \<and> m \<le> 12 \<and> 1 \<le> d \<and> d \<le> 31"
proof -
  obtain yd where yy: "year_yday n = (y, yd)" and md: "month_day y yd = (m, d)"
    using assms by (auto simp: date_of_days_def split: prod.splits)
  note spec = month_day_spec [OF year_yday_days(2,3) [OF yy] year_yday_leap [OF yy] md]
  then have "(m - 1) div 12 = 0" "(m - 1) mod 12 = m - 1" by auto
  then show "days_of_date y m (d + k) = n + k"
    using spec year_yday_days(1) [OF yy] by (simp add: days_of_date_def)
  show "1 \<le> m \<and> m \<le> 12 \<and> 1 \<le> d \<and> d \<le> 31" using spec by simp
qed

lemma clock_of_bounds:
  assumes "clock_of t = (h, m, s)"
  shows "0 \<le> h \<and> h \<le> 23 \<and> 0 \<le> m \<and> m \<le> 59 \<and> 0 \<le> s \<and> s \<le> 59"
    and "unix t mod day_secs = h * 3600 + m * 60 + s"
proof -
  define r where "r = unix t mod day_secs"
  have r: "0 \<le> r" "r < day_secs" by (simp_all add: r_def)
  have h: "h = r div 3600" and m: "m = r mod 3600 div 60" and s: "s = r mod 60"
    using assms by (simp_all add: clock_of_def Let_def r_def)
  have "r mod 3600 mod 60 = r mod 60" by (rule mod_mod_cancel) simp
  then show "unix t mod day_secs = h * 3600 + m * 60 + s"
    unfolding r_def [symmetric] h m s
    by (metis add.assoc div_mult_mod_eq)
  show "0 \<le> h \<and> h \<le> 23 \<and> 0 \<le> m \<and> m \<le> 59 \<and> 0 \<le> s \<and> s \<le> 59"
    using r unfolding h m s by (intro conjI; linarith)
qed

section \<open>RFC 3339\<close>

definition pad4 :: "int \<Rightarrow> string" where
  "pad4 i = (let s = int_str i in replicate (4 - length s) (CHR ''0'') @ s)"

definition rfc3339 :: "time \<Rightarrow> string" where
  "rfc3339 t =
     (let (y, m, d) = date_of t; (h, mi, s) = clock_of t
      in pad4 y @ ''-'' @ pad2 m @ ''-'' @ pad2 d @ ''T'' @ pad2 h @ '':'' @ pad2 mi @ '':'' @ pad2 s @ ''Z'')"

lemma pad2_inj:
  "0 \<le> i \<Longrightarrow> i < 100 \<Longrightarrow> 0 \<le> j \<Longrightarrow> j < 100 \<Longrightarrow> pad2 i = pad2 j \<longleftrightarrow> i = j"
  by (metis atoi_pad2 sum.inject(2))

lemma pad2_length: "0 \<le> i \<Longrightarrow> i < 100 \<Longrightarrow> length (pad2 i) = 2"
  by (simp add: pad2_small)

lemma parse_loop_replicate_zero: "parse_loop mx 0 (replicate k (CHR ''0'') @ s) = parse_loop mx 0 s"
  by (induction k) (simp_all add: parse_loop_zero_prefix del: parse_loop.simps(2))

lemma pad4_inj:
  assumes "0 \<le> i" and "0 \<le> j" and "i < 2 ^ 63" and "j < 2 ^ 63"
  shows "pad4 i = pad4 j \<longleftrightarrow> i = j"
proof
  have p: "parse_loop (2 ^ 64) 0 (pad4 v) = Ok (nat v)" if "0 \<le> v" "v < 2 ^ 63" for v
    using that by (simp add: pad4_def Let_def parse_loop_replicate_zero int_str_def parse_loop_nat_str nat_le_iff)
  assume "pad4 i = pad4 j"
  then show "i = j" using p [of i] p [of j] assms by simp
qed simp

lemma nat_str_length_le: "n < 10 ^ k \<Longrightarrow> 0 < k \<Longrightarrow> length (nat_str n) \<le> k"
proof (induction k arbitrary: n)
  case (Suc k)
  show ?case
  proof (cases "n < 10")
    case True
    then show ?thesis by (subst nat_str.simps) simp
  next
    case False
    then have "0 < k" using Suc.prems by (cases k) auto
    moreover have "n div 10 < 10 ^ k" using Suc.prems(1) by (simp add: div_less_iff_less_mult mult.commute)
    ultimately show ?thesis using Suc.IH [of "n div 10"] False by (subst nat_str.simps) simp
  qed
qed simp

lemma pad4_length: "0 \<le> i \<Longrightarrow> i < 10000 \<Longrightarrow> length (pad4 i) = 4"
  using nat_str_length_le [of "nat i" 4] by (simp add: pad4_def int_str_def Let_def nat_less_iff)

text \<open>Within the years of four digits, the text of an instant determines its second.\<close>

definition four_digit_year :: "time \<Rightarrow> bool" where
  "four_digit_year t \<longleftrightarrow> 0 \<le> fst (date_of t) \<and> fst (date_of t) < 10000"

lemma date_clock_unix:
  assumes "date_of t = (y, m, d)" and "clock_of t = (h, mi, s)"
  shows "unix t = (days_of_date y m d - epoch_days) * day_secs + (h * 3600 + mi * 60 + s)"
proof -
  have "days_of_date y m (d + 0) = time_day t + 0"
    using assms(1) unfolding date_of_def by (rule days_of_date_of_days(1))
  then have "unix t div day_secs = days_of_date y m d - epoch_days" by (simp add: time_day_def)
  then show ?thesis using clock_of_bounds(2) [OF assms(2)] by (metis div_mult_mod_eq)
qed

lemma date_of_bounds: "date_of t = (y, m, d) \<Longrightarrow> 1 \<le> m \<and> m \<le> 12 \<and> 1 \<le> d \<and> d \<le> 31"
  unfolding date_of_def by (rule days_of_date_of_days(2))

lemma rfc3339_inj:
  assumes "four_digit_year t" and "four_digit_year u" and "rfc3339 t = rfc3339 u"
  shows "unix t = unix u"
proof -
  obtain y m d where dt: "date_of t = (y, m, d)" by (cases "date_of t")
  obtain h mi s where ct: "clock_of t = (h, mi, s)" by (cases "clock_of t")
  obtain y' m' d' where du: "date_of u = (y', m', d')" by (cases "date_of u")
  obtain h' mi' s' where cu: "clock_of u = (h', mi', s')" by (cases "clock_of u")
  have b: "0 \<le> y" "y < 10000" "0 \<le> m" "m < 100" "0 \<le> d" "d < 100" "0 \<le> h" "h < 100" "0 \<le> mi" "mi < 100" "0 \<le> s" "s < 100"
    using assms(1) date_of_bounds [OF dt] clock_of_bounds(1) [OF ct] by (simp_all add: four_digit_year_def dt)
  have b': "0 \<le> y'" "y' < 10000" "0 \<le> m'" "m' < 100" "0 \<le> d'" "d' < 100" "0 \<le> h'" "h' < 100" "0 \<le> mi'" "mi' < 100" "0 \<le> s'" "s' < 100"
    using assms(2) date_of_bounds [OF du] clock_of_bounds(1) [OF cu] by (simp_all add: four_digit_year_def du)
  have "pad4 y = pad4 y' \<and> pad2 m = pad2 m' \<and> pad2 d = pad2 d' \<and> pad2 h = pad2 h' \<and> pad2 mi = pad2 mi' \<and> pad2 s = pad2 s'"
    using assms(3) b b' by (simp add: rfc3339_def dt ct du cu append_eq_append_conv pad2_length pad4_length)
  then have "y = y' \<and> m = m' \<and> d = d' \<and> h = h' \<and> mi = mi' \<and> s = s'"
    using b b' by (simp add: pad2_inj pad4_inj)
  then show ?thesis using date_clock_unix [OF dt ct] date_clock_unix [OF du cu] by simp
qed

end
