(* ===== verification/App_Metrics.thy ===== *)
theory App_Metrics imports Config_Job Go_Time begin

text \<open>
  \<open>app/metric_status.go\<close>, the type \<open>metrics\<close> of \<open>app/state.go\<close> and \<open>app/zprops.go\<close>: the
  metrics of a host, the status computed from them and the decoders of the ZFS properties
  they are restored from. A \<open>float64\<close> is its 64-bit pattern; \<open>strconv.ParseFloat\<close> is a
  parameter.
\<close>

type_synonym float64 = "64 word"

record metrics =
  m_job :: "job_config option"
  ScheduledAt :: time
  StartedAt :: time
  SucceededAt :: "time option"
  SuccessDuration :: duration
  FailedAt :: "time option"
  FailureDuration :: duration
  SpaceUsedBySnapshots :: "64 word"
  SpaceUsedByDataset :: "64 word"
  SpaceUsedByChildren :: "64 word"
  SpaceUsedByRefReservation :: "64 word"
  CompressionFactor :: float64

text \<open>The zero value \<open>metrics{}\<close>.\<close>

definition zero_metrics :: metrics where
  "zero_metrics =
     \<lparr>m_job = None, ScheduledAt = zero_time, StartedAt = zero_time, SucceededAt = None, SuccessDuration = 0,
      FailedAt = None, FailureDuration = 0, SpaceUsedBySnapshots = 0, SpaceUsedByDataset = 0,
      SpaceUsedByChildren = 0, SpaceUsedByRefReservation = 0, CompressionFactor = 0\<rparr>"

definition SpaceUsedTotal :: "metrics \<Rightarrow> 64 word" where
  "SpaceUsedTotal m =
     SpaceUsedBySnapshots m + SpaceUsedByDataset m + SpaceUsedByChildren m + SpaceUsedByRefReservation m"

section \<open>Status\<close>

datatype metric_status = StatusUnknown | StatusPrimed | StatusSuccess | StatusFailed | StatusRunning

text \<open>The constants are an enumeration from 0, compared as integers.\<close>

fun status_code :: "metric_status \<Rightarrow> int" where
  "status_code StatusUnknown = 0"
| "status_code StatusPrimed = 1"
| "status_code StatusSuccess = 2"
| "status_code StatusFailed = 3"
| "status_code StatusRunning = 4"

fun status_String :: "metric_status \<Rightarrow> string" where
  "status_String StatusUnknown = ''unknown''"
| "status_String StatusPrimed = ''primed''"
| "status_String StatusSuccess = ''success''"
| "status_String StatusFailed = ''failed''"
| "status_String StatusRunning = ''running''"

lemma status_code_inj: "status_code a = status_code b \<longleftrightarrow> a = b"
  by (cases a; cases b) simp_all

instantiation metric_status :: linorder
begin

definition less_eq_metric_status :: "metric_status \<Rightarrow> metric_status \<Rightarrow> bool" where
  "less_eq_metric_status a b \<longleftrightarrow> status_code a \<le> status_code b"

definition less_metric_status :: "metric_status \<Rightarrow> metric_status \<Rightarrow> bool" where
  "less_metric_status a b \<longleftrightarrow> status_code a < status_code b"

instance
  by standard (auto simp: less_eq_metric_status_def less_metric_status_def status_code_inj)

end

definition Status :: "metrics \<Rightarrow> metric_status" where
  "Status m =
     (let t0 = StartedAt m; tOK = SucceededAt m; tErr = FailedAt m
      in if is_zero t0 then StatusPrimed
         else if (case tOK of None \<Rightarrow> True | Some ok \<Rightarrow> ok < t0) \<and> (case tErr of None \<Rightarrow> True | Some er \<Rightarrow> er < t0)
         then StatusRunning
         else if (case tOK of None \<Rightarrow> False
                  | Some ok \<Rightarrow> (case tErr of None \<Rightarrow> True | Some er \<Rightarrow> er < ok) \<and> t0 \<le> ok)
         then StatusSuccess
         else if (case tErr of None \<Rightarrow> False
                  | Some er \<Rightarrow> (case tOK of None \<Rightarrow> True | Some ok \<Rightarrow> ok < er) \<and> t0 \<le> er)
         then StatusFailed
         else StatusUnknown)"

text \<open>The abstract status: which result, if any, is the latest since the last start.\<close>

definition finished_by :: "time \<Rightarrow> time option \<Rightarrow> time option \<Rightarrow> bool" where
  "finished_by t0 this other \<longleftrightarrow> (\<exists>t. this = Some t \<and> t0 \<le> t \<and> (\<forall>u. other = Some u \<longrightarrow> u < t))"

definition still_running :: "time \<Rightarrow> time option \<Rightarrow> time option \<Rightarrow> bool" where
  "still_running t0 a b \<longleftrightarrow> (\<forall>t. a = Some t \<or> b = Some t \<longrightarrow> t < t0)"

lemma Status_Primed: "Status m = StatusPrimed \<longleftrightarrow> is_zero (StartedAt m)"
  by (auto simp: Status_def Let_def)

lemma Status_Running:
  "Status m = StatusRunning \<longleftrightarrow> \<not> is_zero (StartedAt m) \<and> still_running (StartedAt m) (SucceededAt m) (FailedAt m)"
  by (auto simp: Status_def Let_def still_running_def split: option.splits)

lemma Status_Success:
  "Status m = StatusSuccess \<longleftrightarrow> \<not> is_zero (StartedAt m) \<and> finished_by (StartedAt m) (SucceededAt m) (FailedAt m)"
  by (auto simp: Status_def Let_def finished_by_def split: option.splits)

lemma Status_Failed:
  "Status m = StatusFailed \<longleftrightarrow> \<not> is_zero (StartedAt m) \<and> finished_by (StartedAt m) (FailedAt m) (SucceededAt m)"
  by (auto simp: Status_def Let_def finished_by_def split: option.splits)

text \<open>The status is unknown only when success and failure carry the same instant.\<close>

lemma Status_Unknown:
  "Status m = StatusUnknown \<longleftrightarrow> \<not> is_zero (StartedAt m)
     \<and> (\<exists>t. SucceededAt m = Some t \<and> FailedAt m = Some t \<and> StartedAt m \<le> t)"
  by (auto simp: Status_def Let_def split: option.splits)

section \<open>ZFS properties\<close>

definition propUsedBySnapshots :: string where
  "propUsedBySnapshots = ''usedbysnapshots''"

definition propUsedByDataset :: string where
  "propUsedByDataset = ''usedbydataset''"

definition propUsedByChildren :: string where
  "propUsedByChildren = ''usedbychildren''"

definition propUsedByRefReservation :: string where
  "propUsedByRefReservation = ''usedbyrefreservation''"

definition propCompressRatio :: string where
  "propCompressRatio = ''compressratio''"

definition propZackupNS :: string where
  "propZackupNS = ''de.digineo.zackup:''"

definition propZackupLastStart :: string where
  "propZackupLastStart = propZackupNS @ ''last_start''"

definition propZackupLastSuccessDate :: string where
  "propZackupLastSuccessDate = propZackupNS @ ''s_date''"

definition propZackupLastSuccessDuration :: string where
  "propZackupLastSuccessDuration = propZackupNS @ ''s_duration''"

definition propZackupLastFailureDate :: string where
  "propZackupLastFailureDate = propZackupNS @ ''f_date''"

definition propZackupLastFailureDuration :: string where
  "propZackupLastFailureDuration = propZackupNS @ ''f_duration''"

lemmas prop_defs =
  propUsedBySnapshots_def propUsedByDataset_def propUsedByChildren_def propUsedByRefReservation_def
  propCompressRatio_def propZackupNS_def propZackupLastStart_def propZackupLastSuccessDate_def
  propZackupLastSuccessDuration_def propZackupLastFailureDate_def propZackupLastFailureDuration_def

definition prop_names :: "string list" where
  "prop_names =
     [propUsedBySnapshots, propUsedByDataset, propUsedByChildren, propUsedByRefReservation, propCompressRatio,
      propZackupLastStart, propZackupLastSuccessDate, propZackupLastSuccessDuration,
      propZackupLastFailureDate, propZackupLastFailureDuration]"

definition zackupProps :: string where
  "zackupProps = join '','' prop_names"

text \<open>
  The decoders. Each returns a \<open>*decodeError\<close> that wraps the parser's error, which is \<open>nil\<close>
  when the value was parsed; the pointer itself is never \<open>nil\<close>.
\<close>

datatype parse_cause = NumCause num_error | FloatCause string

datatype decode_error = DecodeError (de_prop: string) (de_cause: "parse_cause option")

definition decodeError_Unwrap :: "decode_error \<Rightarrow> parse_cause option" where
  "decodeError_Unwrap err = de_cause err"

text \<open>The text of the error, with the text of its cause.\<close>

definition decodeError_Error :: "(parse_cause option \<Rightarrow> string) \<Rightarrow> decode_error \<Rightarrow> string" where
  "decodeError_Error show_cause err = ''failed to decode zprop '' @ de_prop err @ '': '' @ show_cause (de_cause err)"

type_synonym decoder = "metrics \<Rightarrow> string \<Rightarrow> metrics \<times> decode_error option"

definition decode_uint :: "string \<Rightarrow> (64 word \<Rightarrow> metrics \<Rightarrow> metrics) \<Rightarrow> decoder" where
  "decode_uint p upd m v =
     (case parse_uint64 v of
        Inl e \<Rightarrow> (m, Some (DecodeError p (Some (NumCause e))))
      | Inr u \<Rightarrow> (upd u m, Some (DecodeError p None)))"

definition decode_int :: "string \<Rightarrow> (int \<Rightarrow> metrics \<Rightarrow> metrics) \<Rightarrow> decoder" where
  "decode_int p upd m v =
     (case parse_int64 v of
        Inl e \<Rightarrow> (m, Some (DecodeError p (Some (NumCause e))))
      | Inr i \<Rightarrow> (upd i m, Some (DecodeError p None)))"

definition decode_float :: "(string \<Rightarrow> (string, float64) outcome) \<Rightarrow> string \<Rightarrow> (float64 \<Rightarrow> metrics \<Rightarrow> metrics) \<Rightarrow> decoder" where
  "decode_float parse_float p upd m v =
     (case parse_float (trim_suffix v ''x'') of
        Inl e \<Rightarrow> (m, Some (DecodeError p (Some (FloatCause e))))
      | Inr f \<Rightarrow> (upd f m, Some (DecodeError p None)))"

text \<open>\<open>time.Duration(ival) * time.Millisecond\<close> is a product of \<open>int64\<close>s.\<close>

definition from_millis :: "int \<Rightarrow> duration" where
  "from_millis i = wrap64 (i * millisecond)"

definition propDecoder :: "(string \<Rightarrow> (string, float64) outcome) \<Rightarrow> (string \<times> decoder) list" where
  "propDecoder pf =
     [(propUsedBySnapshots, decode_uint propUsedBySnapshots (\<lambda>u m. m\<lparr>SpaceUsedBySnapshots := u\<rparr>)),
      (propUsedByDataset, decode_uint propUsedByDataset (\<lambda>u m. m\<lparr>SpaceUsedByDataset := u\<rparr>)),
      (propUsedByChildren, decode_uint propUsedByChildren (\<lambda>u m. m\<lparr>SpaceUsedByChildren := u\<rparr>)),
      (propUsedByRefReservation, decode_uint propUsedByRefReservation (\<lambda>u m. m\<lparr>SpaceUsedByRefReservation := u\<rparr>)),
      (propCompressRatio, decode_float pf propCompressRatio (\<lambda>f m. m\<lparr>CompressionFactor := f\<rparr>)),
      (propZackupLastStart, decode_int propZackupLastStart (\<lambda>i m. m\<lparr>StartedAt := time_unix i\<rparr>)),
      (propZackupLastSuccessDate, decode_int propZackupLastSuccessDate (\<lambda>i m. m\<lparr>SucceededAt := Some (time_unix i)\<rparr>)),
      (propZackupLastSuccessDuration,
        decode_int propZackupLastSuccessDuration (\<lambda>i m. m\<lparr>SuccessDuration := from_millis i\<rparr>)),
      (propZackupLastFailureDate, decode_int propZackupLastFailureDate (\<lambda>i m. m\<lparr>FailedAt := Some (time_unix i)\<rparr>)),
      (propZackupLastFailureDuration,
        decode_int propZackupLastFailureDuration (\<lambda>i m. m\<lparr>FailureDuration := from_millis i\<rparr>))]"

lemma propDecoder_keys: "map fst (propDecoder pf) = prop_names"
  by (simp add: propDecoder_def prop_names_def)

lemma prop_names_distinct: "distinct prop_names"
  by (simp add: prop_names_def prop_defs)

lemma prop_names_chars: "p \<in> set prop_names \<Longrightarrow> CHR '','' \<notin> set p \<and> CHR 0x09 \<notin> set p \<and> CHR 0x0A \<notin> set p \<and> CHR 0x0D \<notin> set p \<and> p \<noteq> []"
  by (auto simp: prop_names_def prop_defs)

lemma propDecoder_props:
  "(p, d) \<in> set (propDecoder pf) \<Longrightarrow> \<exists>c. snd (d m v) = Some (DecodeError p c)"
  by (auto simp: propDecoder_def decode_uint_def decode_int_def decode_float_def split: sum.split)

text \<open>The decoder of each property the program itself sets.\<close>

lemma propDecoder_user:
  "map_of (propDecoder pf) propZackupLastStart =
     Some (decode_int propZackupLastStart (\<lambda>i m. m\<lparr>StartedAt := time_unix i\<rparr>))"
  "map_of (propDecoder pf) propZackupLastSuccessDate =
     Some (decode_int propZackupLastSuccessDate (\<lambda>i m. m\<lparr>SucceededAt := Some (time_unix i)\<rparr>))"
  "map_of (propDecoder pf) propZackupLastSuccessDuration =
     Some (decode_int propZackupLastSuccessDuration (\<lambda>i m. m\<lparr>SuccessDuration := from_millis i\<rparr>))"
  "map_of (propDecoder pf) propZackupLastFailureDate =
     Some (decode_int propZackupLastFailureDate (\<lambda>i m. m\<lparr>FailedAt := Some (time_unix i)\<rparr>))"
  "map_of (propDecoder pf) propZackupLastFailureDuration =
     Some (decode_int propZackupLastFailureDuration (\<lambda>i m. m\<lparr>FailureDuration := from_millis i\<rparr>))"
  by (simp_all add: propDecoder_def prop_defs)

lemma decode_int_int_str: "int64_range i \<Longrightarrow> fst (decode_int p upd m (int_str i)) = upd i m"
  by (simp add: decode_int_def int64_codec.dec_enc)

text \<open>
  Milliseconds and back: exact for the durations the program stores, which were cut to
  milliseconds when they were measured.
\<close>

lemma from_millis_exact:
  assumes "int64_range d" and "millisecond dvd d"
  shows "from_millis (d sdiv millisecond) = d"
proof -
  from assms(2) obtain k where k: "d = millisecond * k" by auto
  have "d sdiv millisecond = k"
    by (cases "0 \<le> k") (auto simp: k signed_divide_int_def sgn_mult abs_mult zero_less_mult_iff sgn_if)
  then show ?thesis using assms(1) by (simp add: from_millis_def k mult.commute wrap64_id)
qed

lemma millis_range: "int64_range d \<Longrightarrow> int64_range (d sdiv millisecond)"
proof -
  assume r: "int64_range d"
  have "\<bar>d sdiv millisecond\<bar> \<le> \<bar>d\<bar> div millisecond"
    by (simp add: signed_divide_int_def abs_mult sgn_if)
  also have "\<dots> \<le> 2 ^ 63 div millisecond"
    using r by (intro zdiv_mono1) (auto simp: int64_range_def abs_le_iff)
  finally show ?thesis by (simp add: int64_range_def abs_le_iff)
qed

section \<open>Properties\<close>

text \<open>The status tells which result is the latest since the last start: primed before the first
  start, running while no result is as young as the start, success or failed when the one
  result is and beats the other, unknown only when both results carry the same instant.\<close>

theorem Status_spec:
  "(Status m = StatusPrimed \<longleftrightarrow> is_zero (StartedAt m))
   \<and> (Status m = StatusRunning \<longleftrightarrow>
        \<not> is_zero (StartedAt m) \<and> still_running (StartedAt m) (SucceededAt m) (FailedAt m))
   \<and> (Status m = StatusSuccess \<longleftrightarrow>
        \<not> is_zero (StartedAt m) \<and> finished_by (StartedAt m) (SucceededAt m) (FailedAt m))
   \<and> (Status m = StatusFailed \<longleftrightarrow>
        \<not> is_zero (StartedAt m) \<and> finished_by (StartedAt m) (FailedAt m) (SucceededAt m))
   \<and> (Status m = StatusUnknown \<longleftrightarrow> \<not> is_zero (StartedAt m)
        \<and> (\<exists>t. SucceededAt m = Some t \<and> FailedAt m = Some t \<and> StartedAt m \<le> t))"
  by (intro conjI Status_Primed Status_Running Status_Success Status_Failed Status_Unknown)

text \<open>Every decoder in the table belongs to one of the properties the program asks ZFS for. It
  changes the metrics only if the value parses, and returns an error that is not nil in either
  case, so its caller never sees a success.\<close>

theorem decoders_always_err:
  assumes "(p, d) \<in> set (propDecoder pf)"
  shows "p \<in> set prop_names
    \<and> (\<exists>c. snd (d m v) = Some (DecodeError p c) \<and> (c = None \<or> fst (d m v) = m))"
proof
  show "p \<in> set prop_names"
    using image_eqI [of p fst, OF _ assms] propDecoder_keys [of pf] by (metis fst_conv image_set)
  show "\<exists>c. snd (d m v) = Some (DecodeError p c) \<and> (c = None \<or> fst (d m v) = m)"
    using assms by (auto simp: propDecoder_def decode_uint_def decode_int_def decode_float_def split: sum.split)
qed

text \<open>A start at 42 seconds after 1970 is stored and reported as an error with no cause.\<close>

lemma decoders_always_err_witness:
  "\<exists>d c. (propZackupLastStart, d) \<in> set (propDecoder (\<lambda>_. Err [])) \<and> StartedAt (fst (d zero_metrics ''42'')) = 42 * second
    \<and> snd (d zero_metrics ''42'') = Some (DecodeError propZackupLastStart c)"
proof -
  let ?d = "decode_int propZackupLastStart (\<lambda>i m. m\<lparr>StartedAt := time_unix i\<rparr>)"
  have mem: "(propZackupLastStart, ?d) \<in> set (propDecoder (\<lambda>_. Err []))" by (simp add: propDecoder_def)
  have "int_str 42 = ''42''" by code_simp
  then have "fst (?d zero_metrics ''42'') = zero_metrics\<lparr>StartedAt := time_unix 42\<rparr>"
    using decode_int_int_str [of 42] by (simp add: int64_range_def)
  moreover have "time_unix 42 = 42 * second" by (rule time_unix_exact) (simp add: unix_range_def)
  ultimately show ?thesis using mem decoders_always_err [OF mem, of zero_metrics "''42''"] by (intro exI [of _ ?d]) auto
qed

end
