(* ===== verification/Go_Slice.thy ===== *)
theory Go_Slice imports Prelude begin

text \<open>
  Go slices with their backing arrays. A store maps an array's address to its contents, all
  of its capacity included; a slice is an address, a length and a capacity (every slice of
  the program starts at the array's first element; a \<open>nil\<close> slice has capacity 0). \<open>append\<close>
  writes into the array when the capacity suffices and allocates a new one otherwise. How
  much a new array holds is up to the implementation: \<open>grow\<close> is a parameter of which the
  language promises only that it is enough.
\<close>

record 'a heap =
  arrays :: "nat \<Rightarrow> 'a list"
  next_arr :: nat

record slice =
  s_arr :: nat
  s_len :: nat
  s_cap :: nat

definition nil_slice :: slice where
  "nil_slice = \<lparr>s_arr = 0, s_len = 0, s_cap = 0\<rparr>"

definition contents :: "'a heap \<Rightarrow> slice \<Rightarrow> 'a list" where
  "contents h s = take (s_len s) (arrays h (s_arr s))"

definition write_at :: "nat \<Rightarrow> 'a list \<Rightarrow> 'a list \<Rightarrow> 'a list" where
  "write_at n xs ys = take n ys @ xs @ drop (n + length xs) ys"

text \<open>A new array holds the old elements, the new ones, then unused cells (\<open>z\<close>).\<close>

definition append_slice ::
  "(nat \<Rightarrow> nat \<Rightarrow> nat) \<Rightarrow> 'a \<Rightarrow> 'a heap \<Rightarrow> slice \<Rightarrow> 'a list \<Rightarrow> 'a heap \<times> slice" where
  "append_slice grow z h s xs =
     (let n = s_len s + length xs
      in if n \<le> s_cap s
         then (h\<lparr>arrays := (arrays h)(s_arr s := write_at (s_len s) xs (arrays h (s_arr s)))\<rparr>,
               s\<lparr>s_len := n\<rparr>)
         else let c = grow (s_cap s) n; a = next_arr h
              in (h\<lparr>arrays := (arrays h)(a := contents h s @ xs @ replicate (c - n) z), next_arr := Suc a\<rparr>,
                  \<lparr>s_arr = a, s_len = n, s_cap = c\<rparr>))"

definition slice_ok :: "'a heap \<Rightarrow> slice \<Rightarrow> bool" where
  "slice_ok h s \<longleftrightarrow> s_len s \<le> s_cap s
     \<and> (0 < s_cap s \<longrightarrow> s_arr s < next_arr h \<and> length (arrays h (s_arr s)) = s_cap s)"

definition grow_ok :: "(nat \<Rightarrow> nat \<Rightarrow> nat) \<Rightarrow> bool" where
  "grow_ok grow \<longleftrightarrow> (\<forall>c n. n \<le> grow c n)"

text \<open>The growth of Go's runtime for slices of fewer than 256 elements.\<close>

definition go_grow :: "nat \<Rightarrow> nat \<Rightarrow> nat" where
  "go_grow c n = (if 2 * c < n then n else 2 * c)"

lemma go_grow_ok: "grow_ok go_grow"
  by (simp add: grow_ok_def go_grow_def)

section \<open>Laws of append\<close>

lemma contents_nil: "s_len s = 0 \<Longrightarrow> contents h s = []"
  by (simp add: contents_def)

lemma length_contents: "slice_ok h s \<Longrightarrow> length (contents h s) = s_len s"
  by (cases "s_cap s = 0") (auto simp: contents_def slice_ok_def)

lemma append_slice_fits:
  assumes "slice_ok h s" and "s_len s + length xs \<le> s_cap s"
  shows "append_slice grow z h s xs =
    (h\<lparr>arrays := (arrays h)(s_arr s := write_at (s_len s) xs (arrays h (s_arr s)))\<rparr>,
     s\<lparr>s_len := s_len s + length xs\<rparr>)"
  using assms by (simp add: append_slice_def Let_def)

lemma append_slice_grows:
  assumes "s_cap s < s_len s + length xs"
  shows "append_slice grow z h s xs =
    (let n = s_len s + length xs; c = grow (s_cap s) n; a = next_arr h
     in (h\<lparr>arrays := (arrays h)(a := contents h s @ xs @ replicate (c - n) z), next_arr := Suc a\<rparr>,
         \<lparr>s_arr = a, s_len = n, s_cap = c\<rparr>))"
  using assms by (simp add: append_slice_def Let_def)

lemma append_slice_Nil:
  assumes "slice_ok h s"
  shows "append_slice grow z h s [] = (h, s)"
proof -
  have "write_at (s_len s) [] (arrays h (s_arr s)) = arrays h (s_arr s)"
    by (simp add: write_at_def)
  then show ?thesis
    using assms by (simp add: append_slice_def slice_ok_def Let_def)
qed

lemma contents_append_slice:
  assumes "slice_ok h s" and "append_slice grow z h s xs = (h', s')"
  shows "contents h' s' = contents h s @ xs"
proof (cases "s_len s + length xs \<le> s_cap s")
  case True
  with assms show ?thesis
    by (cases "s_cap s = 0"; cases xs)
      (auto simp: append_slice_fits contents_def write_at_def slice_ok_def min_def)
next
  case False
  with assms show ?thesis
    using length_contents [OF assms(1)]
    by (auto simp: append_slice_grows Let_def contents_def)
qed

lemma slice_ok_append_slice:
  assumes "slice_ok h s" and "grow_ok grow" and "append_slice grow z h s xs = (h', s')"
  shows "slice_ok h' s'"
proof (cases "s_len s + length xs \<le> s_cap s")
  case True
  with assms show ?thesis
    by (auto simp: append_slice_fits slice_ok_def write_at_def min_def)
next
  case False
  have "s_len s + length xs \<le> grow (s_cap s) (s_len s + length xs)"
    using assms(2) by (simp add: grow_ok_def)
  with False assms(1,3) show ?thesis
    using length_contents [OF assms(1)]
    by (auto simp: append_slice_grows Let_def slice_ok_def)
qed

text \<open>Frame: what an append leaves alone.\<close>

lemma slice_ok_frame:
  assumes "slice_ok h s" and "slice_ok h d" and "append_slice grow z h d xs = (h', d')"
  shows "slice_ok h' s"
proof (cases "s_len d + length xs \<le> s_cap d")
  case True
  with assms show ?thesis
    by (auto simp: append_slice_fits slice_ok_def write_at_def min_def)
next
  case False
  with assms show ?thesis by (auto simp: append_slice_grows Let_def slice_ok_def)
qed

text \<open>A slice is unharmed when it does not reach past the destination's length in its array.\<close>

definition unharmed :: "slice \<Rightarrow> slice \<Rightarrow> bool" where
  "unharmed d s \<longleftrightarrow> s_arr s \<noteq> s_arr d \<or> s_len s \<le> s_len d"

lemma contents_frame:
  assumes "slice_ok h s" and "slice_ok h d" and "unharmed d s" and "append_slice grow z h d xs = (h', d')"
  shows "contents h' s = contents h s"
proof (cases "s_len s = 0")
  case True
  then show ?thesis by (simp add: contents_nil)
next
  case False
  with assms(1) have s: "0 < s_cap s" "s_arr s < next_arr h" by (auto simp: slice_ok_def)
  show ?thesis
  proof (cases "s_len d + length xs \<le> s_cap d")
    case True
    with assms(2-4) False show ?thesis
      by (auto simp: append_slice_fits contents_def write_at_def unharmed_def slice_ok_def min_def)
  next
    case False
    with assms(4) s show ?thesis by (auto simp: append_slice_grows Let_def contents_def)
  qed
qed

text \<open>A slice without spare capacity: appending to it never writes to an existing array.\<close>

definition full_slice :: "slice \<Rightarrow> bool" where
  "full_slice s \<longleftrightarrow> s_len s = s_cap s"

definition heap_le :: "'a heap \<Rightarrow> 'a heap \<Rightarrow> bool" where
  "heap_le h h' \<longleftrightarrow> next_arr h \<le> next_arr h' \<and> (\<forall>a<next_arr h. arrays h' a = arrays h a)"

lemma heap_le_refl: "heap_le h h"
  by (simp add: heap_le_def)

lemma heap_le_trans: "heap_le h1 h2 \<Longrightarrow> heap_le h2 h3 \<Longrightarrow> heap_le h1 h3"
  by (auto simp: heap_le_def)

lemma heap_le_append_full:
  assumes "slice_ok h d" and "full_slice d" and "append_slice grow z h d xs = (h', d')"
  shows "heap_le h h'"
proof (cases "xs = []")
  case True
  with assms show ?thesis by (simp add: append_slice_Nil heap_le_refl)
next
  case False
  with assms(2) have "s_cap d < s_len d + length xs" by (simp add: full_slice_def)
  with assms(3) show ?thesis by (auto simp: append_slice_grows Let_def heap_le_def)
qed

lemma heap_le_contents: "heap_le h h' \<Longrightarrow> slice_ok h s \<Longrightarrow> contents h' s = contents h s"
  by (cases "s_cap s = 0") (auto simp: heap_le_def slice_ok_def contents_def)

lemma heap_le_slice_ok: "heap_le h h' \<Longrightarrow> slice_ok h s \<Longrightarrow> slice_ok h' s"
  by (auto simp: heap_le_def slice_ok_def)

text \<open>
  Two appends to the same slice with room for both share its array: the second overwrites
  what the first appended.
\<close>

lemma append_twice_overwrites:
  assumes ok: "slice_ok h s" and room: "s_len s + length xs \<le> s_cap s" "s_len s + length ys \<le> s_cap s"
    and a1: "append_slice grow z h s xs = (h1, s1)" and a2: "append_slice grow z h1 s ys = (h2, s2)"
  shows "contents h2 s1 = contents h s @ take (length xs) (ys @ drop (length ys) xs)"
proof (cases "s_cap s = 0")
  case True
  with room have "xs = []" "s_len s = 0" by auto
  then show ?thesis using a1 ok by (simp add: append_slice_Nil contents_def)
next
  case False
  let ?A = "arrays h (s_arr s)"
  have len: "length ?A = s_cap s" using ok False by (simp add: slice_ok_def)
  have ok1: "slice_ok h1 s" using slice_ok_frame [OF ok ok a1] .
  have h1: "arrays h1 (s_arr s) = write_at (s_len s) xs ?A" and s1: "s1 = s\<lparr>s_len := s_len s + length xs\<rparr>"
    using a1 by (auto simp: append_slice_fits [OF ok room(1)])
  have h2: "arrays h2 (s_arr s) = write_at (s_len s) ys (arrays h1 (s_arr s))"
    using a2 by (auto simp: append_slice_fits [OF ok1 room(2)])
  have "arrays h2 (s_arr s) = take (s_len s) ?A @ ys @ drop (length ys) (xs @ drop (s_len s + length xs) ?A)"
    unfolding h2 h1 write_at_def using len room by (cases xs) (simp_all add: min_def add.commute)
  moreover have "take (length xs) (ys @ drop (length ys) (xs @ T)) = take (length xs) (ys @ drop (length ys) xs)" for T
    by (cases "length ys \<le> length xs") simp_all
  ultimately show ?thesis
    using len room by (cases xs) (auto simp: contents_def s1 min_def)
qed

end
