(* ===== verification/Config_Alias.thy ===== *)
theory Config_Alias imports Config_Job Go_Slice begin

text \<open>
  The loop at the end of \<open>tree.reload\<close> with the slices it really works on. For scripts,
  \<open>mergeGlobals\<close> appends the host's lines to the \<^emph>\<open>global\<close> slice, whose backing array all
  hosts share; for rsync lists it appends to the host's own slice, which only this call
  appends to, so that lists are exact there. The theory relates the loop to the list-level
  \<open>mergeGlobals\<close>: it refines it when the global script slices have no spare capacity, and
  lets a later host overwrite the lines of an earlier one otherwise.
\<close>

section \<open>Jobs with slices\<close>

record hscript =
  h_inline :: slice
  h_scripts :: slice

record hjob =
  hj_host :: string
  hj_SSH :: "ssh_config option"
  hj_RSync :: "rsync_config option"
  hj_Pre :: hscript
  hj_Post :: hscript

type_synonym strings = "string heap"

text \<open>The \<open>cleaned = append(cleaned, line)\<close> of \<open>cleanScript\<close>, for lines already cleaned.\<close>

fun append_each :: "(nat \<Rightarrow> nat \<Rightarrow> nat) \<Rightarrow> strings \<Rightarrow> slice \<Rightarrow> string list \<Rightarrow> strings \<times> slice" where
  "append_each grow h s [] = (h, s)"
| "append_each grow h s (l # ls) =
     (let (h', s') = append_slice grow [] h s [l] in append_each grow h' s' ls)"

definition merge_script_heap ::
  "(nat \<Rightarrow> nat \<Rightarrow> nat) \<Rightarrow> strings \<Rightarrow> hscript \<Rightarrow> hscript \<Rightarrow> strings \<times> hscript" where
  "merge_script_heap grow h j g =
     (let (h, i) = append_slice grow [] h (h_inline g) (contents h (h_inline j));
          (h, s) = append_slice grow [] h (h_scripts g) (contents h (h_scripts j))
      in (h, \<lparr>h_inline = i, h_scripts = s\<rparr>))"

definition mergeGlobals_heap ::
  "(nat \<Rightarrow> nat \<Rightarrow> nat) \<Rightarrow> strings \<Rightarrow> hjob \<Rightarrow> hjob \<Rightarrow> strings \<times> hjob" where
  "mergeGlobals_heap grow h j globals =
     (let (h, pre) = merge_script_heap grow h (hj_Pre j) (hj_Pre globals);
          (h, post) = merge_script_heap grow h (hj_Post j) (hj_Post globals)
      in (h, j\<lparr>hj_SSH := merge_ssh (hj_SSH j) (hj_SSH globals),
              hj_RSync := merge_rsync (hj_RSync j) (hj_RSync globals),
              hj_Pre := pre, hj_Post := post\<rparr>))"

text \<open>The loop over the hosts, in the order the map's iteration visits them.\<close>

fun merge_all_heap ::
  "(nat \<Rightarrow> nat \<Rightarrow> nat) \<Rightarrow> strings \<Rightarrow> hjob list \<Rightarrow> hjob \<Rightarrow> strings \<times> hjob list" where
  "merge_all_heap grow h [] g = (h, [])"
| "merge_all_heap grow h (j # js) g =
     (let (h, j') = mergeGlobals_heap grow h j g; (h, js') = merge_all_heap grow h js g
      in (h, j' # js'))"

section \<open>What the jobs say\<close>

definition read_script :: "strings \<Rightarrow> hscript \<Rightarrow> script" where
  "read_script h s = \<lparr>inline = contents h (h_inline s), scripts = contents h (h_scripts s)\<rparr>"

definition read_job :: "strings \<Rightarrow> hjob \<Rightarrow> job_config" where
  "read_job h j =
     \<lparr>job_host = hj_host j, SSH = hj_SSH j, RSync = hj_RSync j,
      PreScript = read_script h (hj_Pre j), PostScript = read_script h (hj_Post j)\<rparr>"

definition script_ok :: "strings \<Rightarrow> hscript \<Rightarrow> bool" where
  "script_ok h s \<longleftrightarrow> slice_ok h (h_inline s) \<and> slice_ok h (h_scripts s)"

definition job_ok :: "strings \<Rightarrow> hjob \<Rightarrow> bool" where
  "job_ok h j \<longleftrightarrow> script_ok h (hj_Pre j) \<and> script_ok h (hj_Post j)"

definition script_full :: "hscript \<Rightarrow> bool" where
  "script_full s \<longleftrightarrow> full_slice (h_inline s) \<and> full_slice (h_scripts s)"

definition job_full :: "hjob \<Rightarrow> bool" where
  "job_full j \<longleftrightarrow> script_full (hj_Pre j) \<and> script_full (hj_Post j)"

lemma heap_le_script:
  "heap_le h h' \<Longrightarrow> script_ok h s \<Longrightarrow> script_ok h' s \<and> read_script h' s = read_script h s"
  by (auto simp: script_ok_def read_script_def heap_le_contents heap_le_slice_ok)

lemma heap_le_job:
  "heap_le h h' \<Longrightarrow> job_ok h j \<Longrightarrow> job_ok h' j \<and> read_job h' j = read_job h j"
  by (auto simp: job_ok_def read_job_def dest: heap_le_script)

section \<open>Global scripts without spare capacity\<close>

lemma merge_script_heap_full:
  assumes "grow_ok grow" and "script_ok h j" and "script_ok h g" and "script_full g"
    and "merge_script_heap grow h j g = (h', s')"
  shows "heap_le h h' \<and> script_ok h' s' \<and> read_script h' s' = merge_script (read_script h j) (read_script h g)"
proof -
  obtain h1 i where a1: "append_slice grow [] h (h_inline g) (contents h (h_inline j)) = (h1, i)"
    by fastforce
  obtain h2 s where a2: "append_slice grow [] h1 (h_scripts g) (contents h1 (h_scripts j)) = (h2, s)"
    by fastforce
  from a1 a2 assms(5) have out: "h' = h2" "s' = \<lparr>h_inline = i, h_scripts = s\<rparr>"
    by (auto simp: merge_script_heap_def)
  note ok = assms(2,3) [unfolded script_ok_def] and full = assms(4) [unfolded script_full_def]
  have le1: "heap_le h h1" using heap_le_append_full [OF _ _ a1] ok full by simp
  have g1: "slice_ok h1 (h_scripts g)" using heap_le_slice_ok [OF le1] ok by simp
  have le2: "heap_le h1 h2" using heap_le_append_full [OF g1 _ a2] full by simp
  have i1: "slice_ok h1 i" using slice_ok_append_slice [OF _ assms(1) a1] ok by simp
  have "contents h2 i = contents h (h_inline g) @ contents h (h_inline j)"
    using heap_le_contents [OF le2 i1] contents_append_slice [OF _ a1] ok by simp
  moreover have "contents h2 s = contents h (h_scripts g) @ contents h (h_scripts j)"
    using contents_append_slice [OF g1 a2] heap_le_contents [OF le1] ok by simp
  ultimately show ?thesis
    using heap_le_trans [OF le1 le2] heap_le_slice_ok [OF le2 i1] slice_ok_append_slice [OF g1 assms(1) a2]
    by (simp add: out read_script_def merge_script_def script_ok_def)
qed

lemma mergeGlobals_heap_full:
  assumes "grow_ok grow" and "job_ok h j" and "job_ok h g" and "job_full g"
    and "mergeGlobals_heap grow h j g = (h', j')"
  shows "heap_le h h' \<and> job_ok h' j' \<and> read_job h' j' = mergeGlobals (read_job h j) (read_job h g)"
proof -
  obtain h1 pre where m1: "merge_script_heap grow h (hj_Pre j) (hj_Pre g) = (h1, pre)" by fastforce
  obtain h2 post where m2: "merge_script_heap grow h1 (hj_Post j) (hj_Post g) = (h2, post)" by fastforce
  note ok = assms(2,3) [unfolded job_ok_def] and full = assms(4) [unfolded job_full_def]
  have p1: "heap_le h h1" "script_ok h1 pre"
      "read_script h1 pre = merge_script (read_script h (hj_Pre j)) (read_script h (hj_Pre g))"
    using merge_script_heap_full [OF assms(1) _ _ _ m1] ok full by simp_all
  have p2: "heap_le h1 h2" "script_ok h2 post"
      "read_script h2 post = merge_script (read_script h (hj_Post j)) (read_script h (hj_Post g))"
    using merge_script_heap_full [OF assms(1) _ _ _ m2] heap_le_script [OF p1(1)] ok full by simp_all
  from m1 m2 assms(5) have "h' = h2"
    and "j' = j\<lparr>hj_SSH := merge_ssh (hj_SSH j) (hj_SSH g),
              hj_RSync := merge_rsync (hj_RSync j) (hj_RSync g), hj_Pre := pre, hj_Post := post\<rparr>"
    by (auto simp: mergeGlobals_heap_def)
  then show ?thesis
    using p1 p2 heap_le_trans [OF p1(1) p2(1)] heap_le_script [OF p2(1) p1(2)]
    by (simp add: read_job_def mergeGlobals_def job_ok_def)
qed

lemma merge_all_heap_full:
  assumes "grow_ok grow" and "list_all (job_ok h) js" and "job_ok h g" and "job_full g"
    and "merge_all_heap grow h js g = (h', js')"
  shows "heap_le h h' \<and> list_all (job_ok h') js'
    \<and> map (read_job h') js' = map (\<lambda>j. mergeGlobals (read_job h j) (read_job h g)) js"
  using assms(2,3,5)
proof (induction js arbitrary: h js')
  case Nil
  then show ?case by (simp add: heap_le_refl)
next
  case (Cons j js)
  obtain h1 j1 where m: "mergeGlobals_heap grow h j g = (h1, j1)" by fastforce
  obtain js1 where r: "merge_all_heap grow h1 js g = (h', js1)" and js': "js' = j1 # js1"
    using Cons.prems(3) m by (auto split: prod.splits)
  have p: "heap_le h h1" "job_ok h1 j1" "read_job h1 j1 = mergeGlobals (read_job h j) (read_job h g)"
    using mergeGlobals_heap_full [OF assms(1) _ Cons.prems(2) assms(4) m] Cons.prems(1) by simp_all
  have "list_all (job_ok h1) js" and g1: "job_ok h1 g" "read_job h1 g = read_job h g"
    using heap_le_job [OF p(1)] Cons.prems(1,2) by (auto simp: list_all_iff)
  with Cons.IH [OF _ _ r] have q: "heap_le h1 h'" "list_all (job_ok h') js1"
      "map (read_job h') js1 = map (\<lambda>j. mergeGlobals (read_job h1 j) (read_job h1 g)) js"
    by simp_all
  have "map (read_job h') js1 = map (\<lambda>j. mergeGlobals (read_job h j) (read_job h g)) js"
    using q(3) g1 heap_le_job [OF p(1)] Cons.prems(1) by (simp add: list_all_iff)
  then show ?case
    using heap_le_trans [OF p(1) q(1)] heap_le_job [OF q(1) p(2)] p(3) q(2) js' by simp
qed

section \<open>Global scripts with spare capacity\<close>

text \<open>
  The pre-script lines of the first of two hosts after both were merged: where the global
  slice has room for both, the second host's lines replace the first host's.
\<close>

lemma merge_two_overwrites:
  assumes ok: "job_ok h g" and room:
      "s_len (h_inline (hj_Pre g)) + length (contents h (h_inline (hj_Pre j1))) \<le> s_cap (h_inline (hj_Pre g))"
      "s_len (h_inline (hj_Pre g)) + length (contents h (h_inline (hj_Pre j2))) \<le> s_cap (h_inline (hj_Pre g))"
    and others: "hj_Pre j1 = \<lparr>h_inline = x1, h_scripts = nil_slice\<rparr>" "hj_Pre j2 = \<lparr>h_inline = x2, h_scripts = nil_slice\<rparr>"
      "hj_Post j1 = \<lparr>h_inline = nil_slice, h_scripts = nil_slice\<rparr>" "hj_Post j2 = \<lparr>h_inline = nil_slice, h_scripts = nil_slice\<rparr>"
    and own: "slice_ok h x2" "unharmed (h_inline (hj_Pre g)) x2"
    and run: "merge_all_heap grow h [j1, j2] g = (h', [j1', j2'])"
  shows "contents h' (h_inline (hj_Pre j1')) =
    contents h (h_inline (hj_Pre g))
      @ take (length (contents h x1)) (contents h x2 @ drop (length (contents h x2)) (contents h x1))"
proof -
  let ?G = "h_inline (hj_Pre g)"
  have gok: "slice_ok h ?G" "slice_ok h (h_scripts (hj_Pre g))" "slice_ok h (h_inline (hj_Post g))"
      "slice_ok h (h_scripts (hj_Post g))"
    using ok by (simp_all add: job_ok_def script_ok_def)
  have nil: "contents k nil_slice = []" for k :: strings by (simp add: contents_def nil_slice_def)
  obtain h1 s1 where a1: "append_slice grow [] h ?G (contents h x1) = (h1, s1)" by fastforce
  have gok1: "slice_ok h1 ?G" "slice_ok h1 (h_scripts (hj_Pre g))" "slice_ok h1 (h_inline (hj_Post g))"
      "slice_ok h1 (h_scripts (hj_Post g))"
    using slice_ok_frame [OF _ gok(1) a1] gok by simp_all
  have x2: "contents h1 x2 = contents h x2" using contents_frame [OF own(1) gok(1) own(2) a1] .
  obtain h2 s2 where a2: "append_slice grow [] h1 ?G (contents h x2) = (h2, s2)" by fastforce
  have gok2: "slice_ok h2 (h_scripts (hj_Pre g))" "slice_ok h2 (h_inline (hj_Post g))"
      "slice_ok h2 (h_scripts (hj_Post g))"
    using slice_ok_frame [OF _ gok1(1) a2] gok1 by simp_all
  have "h' = h2" and "h_inline (hj_Pre j1') = s1"
    using run a1 a2 gok1 gok2
    by (auto simp: mergeGlobals_heap_def merge_script_heap_def others nil append_slice_Nil x2 split: prod.splits)
  then show ?thesis
    using append_twice_overwrites [OF gok(1) _ _ a1 a2] room by (simp add: others)
qed

section \<open>From decoded configurations to slices and back\<close>

text \<open>
  Decoding builds every script slice line by line from \<open>nil\<close>. \<open>merge_hosts\<close> is the whole
  loop on values: lay out the global job and the hosts, merge them in the given order, and
  read the hosts when all are merged, which is when the rest of the program sees them.
\<close>

definition load_slice :: "(nat \<Rightarrow> nat \<Rightarrow> nat) \<Rightarrow> strings \<Rightarrow> string list \<Rightarrow> strings \<times> slice" where
  "load_slice grow h ls = append_each grow h nil_slice ls"

definition load_script :: "(nat \<Rightarrow> nat \<Rightarrow> nat) \<Rightarrow> strings \<Rightarrow> script \<Rightarrow> strings \<times> hscript" where
  "load_script grow h s =
     (let (h, i) = load_slice grow h (inline s); (h, f) = load_slice grow h (scripts s)
      in (h, \<lparr>h_inline = i, h_scripts = f\<rparr>))"

definition load_job :: "(nat \<Rightarrow> nat \<Rightarrow> nat) \<Rightarrow> strings \<Rightarrow> job_config \<Rightarrow> strings \<times> hjob" where
  "load_job grow h j =
     (let (h, pre) = load_script grow h (PreScript j); (h, post) = load_script grow h (PostScript j)
      in (h, \<lparr>hj_host = job_host j, hj_SSH = SSH j, hj_RSync = RSync j, hj_Pre = pre, hj_Post = post\<rparr>))"

fun load_jobs :: "(nat \<Rightarrow> nat \<Rightarrow> nat) \<Rightarrow> strings \<Rightarrow> job_config list \<Rightarrow> strings \<times> hjob list" where
  "load_jobs grow h [] = (h, [])"
| "load_jobs grow h (j # js) =
     (let (h, hj) = load_job grow h j; (h, hjs) = load_jobs grow h js in (h, hj # hjs))"

definition empty_heap :: strings where
  "empty_heap = \<lparr>arrays = (\<lambda>_. []), next_arr = 0\<rparr>"

definition merge_hosts ::
  "(nat \<Rightarrow> nat \<Rightarrow> nat) \<Rightarrow> (string \<times> job_config) list \<Rightarrow> job_config \<Rightarrow> (string \<times> job_config) list" where
  "merge_hosts grow hosts g =
     (let (h, hg) = load_job grow empty_heap g;
          (h, hjs) = load_jobs grow h (map snd hosts);
          (h, merged) = merge_all_heap grow h hjs hg
      in zip (map fst hosts) (map (read_job h) merged))"

lemma slice_ok_nil: "slice_ok h nil_slice"
  by (simp add: slice_ok_def nil_slice_def)

text \<open>Appending line by line to a slice of one's own leaves all older arrays alone.\<close>

lemma append_each_spec:
  assumes "grow_ok grow" and "slice_ok h s" and "heap_le h0 h" and "s_cap s = 0 \<or> next_arr h0 \<le> s_arr s"
    and "append_each grow h s ls = (h', s')"
  shows "heap_le h0 h' \<and> slice_ok h' s' \<and> contents h' s' = contents h s @ ls"
  using assms(2-5)
proof (induction ls arbitrary: h s)
  case Nil
  then show ?case by simp
next
  case (Cons l ls)
  obtain h1 s1 where a: "append_slice grow [] h s [l] = (h1, s1)" by fastforce
  have ok: "slice_ok h1 s1" using slice_ok_append_slice [OF Cons.prems(1) assms(1) a] .
  have le: "heap_le h0 h1 \<and> (s_cap s1 = 0 \<or> next_arr h0 \<le> s_arr s1)"
  proof (cases "s_len s + length [l] \<le> s_cap s")
    case True
    then have "s_cap s \<noteq> 0" by simp
    then show ?thesis
      using a Cons.prems by (auto simp: append_slice_fits [OF Cons.prems(1) True] heap_le_def)
  next
    case False
    then show ?thesis
      using a Cons.prems(2) by (auto simp: append_slice_grows Let_def heap_le_def)
  qed
  have "append_each grow h1 s1 ls = (h', s')" using Cons.prems(4) a by simp
  then show ?case
    using Cons.IH [OF ok _ _] le contents_append_slice [OF Cons.prems(1) a] by simp
qed

lemma load_slice_spec:
  assumes "grow_ok grow" and "load_slice grow h ls = (h', s)"
  shows "heap_le h h' \<and> slice_ok h' s \<and> contents h' s = ls"
  using append_each_spec [OF assms(1) slice_ok_nil heap_le_refl _ assms(2) [unfolded load_slice_def]]
  by (simp add: nil_slice_def contents_nil)

lemma load_script_spec:
  assumes "grow_ok grow" and "load_script grow h s = (h', hs)"
  shows "heap_le h h' \<and> script_ok h' hs \<and> read_script h' hs = s"
proof -
  obtain h1 i where l1: "load_slice grow h (inline s) = (h1, i)" by fastforce
  obtain h2 f where l2: "load_slice grow h1 (scripts s) = (h2, f)" by fastforce
  note p1 = load_slice_spec [OF assms(1) l1] and p2 = load_slice_spec [OF assms(1) l2]
  have "h' = h2" "hs = \<lparr>h_inline = i, h_scripts = f\<rparr>"
    using l1 l2 assms(2) by (auto simp: load_script_def)
  then show ?thesis
    using p1 p2 heap_le_trans [of h h1 h2] heap_le_contents [of h1 h2 i] heap_le_slice_ok [of h1 h2 i]
    by (cases s) (simp add: script_ok_def read_script_def)
qed

lemma load_job_spec:
  assumes "grow_ok grow" and "load_job grow h j = (h', hj)"
  shows "heap_le h h' \<and> job_ok h' hj \<and> read_job h' hj = j"
proof -
  obtain h1 pre where l1: "load_script grow h (PreScript j) = (h1, pre)" by fastforce
  obtain h2 post where l2: "load_script grow h1 (PostScript j) = (h2, post)" by fastforce
  note p1 = load_script_spec [OF assms(1) l1] and p2 = load_script_spec [OF assms(1) l2]
  have "h' = h2" "hj = \<lparr>hj_host = job_host j, hj_SSH = SSH j, hj_RSync = RSync j, hj_Pre = pre, hj_Post = post\<rparr>"
    using l1 l2 assms(2) by (auto simp: load_job_def)
  then show ?thesis
    using p1 p2 heap_le_trans [of h h1 h2] heap_le_script [of h1 h2 pre]
    by (cases j) (simp add: job_ok_def read_job_def)
qed

lemma load_jobs_spec:
  assumes "grow_ok grow" and "load_jobs grow h js = (h', hjs)"
  shows "heap_le h h' \<and> list_all (job_ok h') hjs \<and> map (read_job h') hjs = js"
  using assms(2)
proof (induction js arbitrary: h hjs)
  case Nil
  then show ?case by (simp add: heap_le_refl)
next
  case (Cons j js)
  obtain h1 hj where l: "load_job grow h j = (h1, hj)" by fastforce
  obtain hjs1 where r: "load_jobs grow h1 js = (h', hjs1)" and hjs: "hjs = hj # hjs1"
    using Cons.prems l by (auto split: prod.splits)
  show ?case
    using load_job_spec [OF assms(1) l] Cons.IH [OF r] heap_le_trans [of h h1 h'] heap_le_job [of h1 h' hj]
    by (simp add: hjs)
qed

text \<open>What no aliasing touches: the hosts, their connection and their rsync settings.\<close>

lemma merge_all_heap_values:
  assumes "merge_all_heap grow h js g = (h', js')"
  shows "map (\<lambda>j. (hj_host j, hj_SSH j, hj_RSync j)) js' =
    map (\<lambda>j. (hj_host j, merge_ssh (hj_SSH j) (hj_SSH g), merge_rsync (hj_RSync j) (hj_RSync g))) js"
  using assms
proof (induction js arbitrary: h js')
  case (Cons j js)
  obtain h1 j1 where m: "mergeGlobals_heap grow h j g = (h1, j1)" by fastforce
  obtain js1 where r: "merge_all_heap grow h1 js g = (h', js1)" and js': "js' = j1 # js1"
    using Cons.prems m by (auto split: prod.splits)
  from m have "(hj_host j1, hj_SSH j1, hj_RSync j1) =
      (hj_host j, merge_ssh (hj_SSH j) (hj_SSH g), merge_rsync (hj_RSync j) (hj_RSync g))"
    by (auto simp: mergeGlobals_heap_def split: prod.splits)
  with Cons.IH [OF r] show ?case by (simp add: js')
qed simp

lemma merge_hosts_shape:
  assumes "grow_ok grow"
  obtains merged where "merge_hosts grow hosts g = zip (map fst hosts) merged"
    and "map (\<lambda>j. (job_host j, SSH j, RSync j)) merged =
      map (\<lambda>(_, j). (job_host j, merge_ssh (SSH j) (SSH g), merge_rsync (RSync j) (RSync g))) hosts"
proof -
  obtain h hg where l: "load_job grow empty_heap g = (h, hg)" by fastforce
  obtain h1 hjs where ls: "load_jobs grow h (map snd hosts) = (h1, hjs)" by fastforce
  obtain h2 ms where m: "merge_all_heap grow h1 hjs hg = (h2, ms)" by fastforce
  have g: "hj_SSH hg = SSH g" "hj_RSync hg = RSync g"
    using load_job_spec [OF assms l] by (auto simp: read_job_def)
  have js: "map (read_job h1) hjs = map snd hosts" using load_jobs_spec [OF assms ls] by simp
  have "map (\<lambda>j. (job_host j, SSH j, RSync j)) (map (read_job h2) ms)
      = map (\<lambda>j. (hj_host j, hj_SSH j, hj_RSync j)) ms"
    by (simp add: read_job_def)
  also have "\<dots> = map (\<lambda>j. (job_host j, merge_ssh (SSH j) (SSH g), merge_rsync (RSync j) (RSync g))) (map (read_job h1) hjs)"
    unfolding merge_all_heap_values [OF m] by (simp add: read_job_def g)
  also have "\<dots> = map (\<lambda>(_, j). (job_host j, merge_ssh (SSH j) (SSH g), merge_rsync (RSync j) (RSync g))) hosts"
    unfolding js by (simp add: case_prod_beta)
  finally show ?thesis
    using that [of "map (read_job h2) ms"] l ls m by (simp add: merge_hosts_def)
qed

lemma merge_hosts_keys: "grow_ok grow \<Longrightarrow> map fst (merge_hosts grow hosts g) = map fst hosts"
  by (rule merge_hosts_shape [of grow hosts g]) (auto dest: map_eq_imp_length_eq)

text \<open>With a layout of the globals that has no spare capacity, the loop is the list-level merge.\<close>

lemma merge_hosts_full:
  assumes "grow_ok grow" and "job_full (snd (load_job grow empty_heap g))"
  shows "merge_hosts grow hosts g = map (\<lambda>(k, j). (k, mergeGlobals j g)) hosts"
proof -
  obtain h hg where l: "load_job grow empty_heap g = (h, hg)" by fastforce
  obtain h1 hjs where ls: "load_jobs grow h (map snd hosts) = (h1, hjs)" by fastforce
  obtain h2 ms where m: "merge_all_heap grow h1 hjs hg = (h2, ms)" by fastforce
  note pl = load_job_spec [OF assms(1) l] and pls = load_jobs_spec [OF assms(1) ls]
  have hg: "job_ok h1 hg" "read_job h1 hg = g" using heap_le_job [of h h1 hg] pl pls by simp_all
  have full: "job_full hg" using assms(2) by (simp add: l)
  have "map (read_job h2) ms = map (\<lambda>j. mergeGlobals (read_job h1 j) g) hjs"
    using merge_all_heap_full [OF assms(1) _ hg(1) full m] pls hg(2) by simp
  also have "\<dots> = map (\<lambda>j. mergeGlobals j g) (map (read_job h1) hjs)" by simp
  also have "map (read_job h1) hjs = map snd hosts" using pls by simp
  finally have "map (read_job h2) ms = map (\<lambda>(_, j). mergeGlobals j g) hosts"
    by (simp add: case_prod_beta)
  then have "merge_hosts grow hosts g = zip (map fst hosts) (map (\<lambda>(_, j). mergeGlobals j g) hosts)"
    by (simp add: merge_hosts_def l ls m)
  then show ?thesis by (simp add: zip_map_map zip_same_conv_map case_prod_beta)
qed

text \<open>The capacity Go's runtime gives a slice built line by line: the next power of two.\<close>

lemma append_each_cap:
  assumes "slice_ok h s" and "s_cap s = 2 ^ k" and "s_len s + length ls = 2 ^ m" and "k \<le> m"
    and "s_len s \<noteq> 0" and "append_each go_grow h s ls = (h', s')"
  shows "s_len s' = 2 ^ m \<and> s_cap s' = 2 ^ m"
  using assms
proof (induction ls arbitrary: h s k)
  case Nil
  then have "(2 :: nat) ^ m \<le> 2 ^ k" by (simp add: slice_ok_def)
  then have "m = k" using Nil.prems(4) by simp
  then show ?case using Nil by simp
next
  case (Cons l ls)
  obtain h1 s1 where a: "append_slice go_grow [] h s [l] = (h1, s1)" by fastforce
  have ok: "slice_ok h1 s1" using slice_ok_append_slice [OF Cons.prems(1) go_grow_ok a] .
  have e: "append_each go_grow h1 s1 ls = (h', s')" using Cons.prems(6) a by simp
  have len: "s_len s1 = Suc (s_len s)" using a by (auto simp: append_slice_def Let_def split: if_splits)
  show ?case
  proof (cases "s_len s + length [l] \<le> s_cap s")
    case True
    then have "s_cap s1 = 2 ^ k" using a Cons.prems(2) by (auto simp: append_slice_fits [OF Cons.prems(1) True])
    then show ?thesis using Cons.IH [OF ok _ _ Cons.prems(4) _ e] len Cons.prems(3) by simp
  next
    case False
    then have l1: "s_len s = 2 ^ k" using Cons.prems(1,2) by (simp add: slice_ok_def)
    then have "s_cap s1 = 2 ^ Suc k"
      using a False Cons.prems(2) by (auto simp: append_slice_grows Let_def go_grow_def)
    moreover have "Suc k \<le> m"
    proof -
      have "2 ^ k + Suc (length ls) = 2 ^ m" using Cons.prems(3) l1 by simp
      then have "(2 :: nat) ^ k < 2 ^ m" by linarith
      then show ?thesis by simp
    qed
    ultimately show ?thesis using Cons.IH [OF ok, of "Suc k"] e len Cons.prems(3) by simp
  qed
qed

lemma load_slice_full:
  assumes "ls = [] \<or> (\<exists>m. length ls = 2 ^ m)"
  shows "full_slice (snd (load_slice go_grow h ls))"
proof (cases ls)
  case Nil
  then show ?thesis by (simp add: load_slice_def nil_slice_def full_slice_def)
next
  case (Cons l ls')
  obtain h1 s1 where a: "append_slice go_grow [] h nil_slice [l] = (h1, s1)" by fastforce
  obtain h' s' where e: "append_each go_grow h1 s1 ls' = (h', s')" by fastforce
  from assms Cons obtain m where m: "length ls = 2 ^ m" by auto
  have s1: "s_len s1 = 1" "s_cap s1 = 2 ^ 0"
    using a by (auto simp: append_slice_def Let_def nil_slice_def go_grow_def)
  have "slice_ok h1 s1" using slice_ok_append_slice [OF slice_ok_nil go_grow_ok a] .
  from append_each_cap [OF this s1(2) _ _ _ e, of m] m Cons s1
  show ?thesis using a e by (simp add: load_slice_def full_slice_def Cons)
qed

lemma load_job_full:
  assumes "\<And>ls. ls \<in> {inline (PreScript g), scripts (PreScript g), inline (PostScript g), scripts (PostScript g)} \<Longrightarrow>
      ls = [] \<or> (\<exists>m. length ls = 2 ^ m)"
  shows "job_full (snd (load_job go_grow h g))"
proof -
  have f: "full_slice s" if "load_slice go_grow h ls = (h', s)" "ls = [] \<or> (\<exists>m. length ls = 2 ^ m)" for h h' ls s
    using load_slice_full [OF that(2), of h] that(1) by simp
  show ?thesis
    using assms by (auto simp: load_job_def load_script_def job_full_def script_full_def split: prod.splits intro: f)
qed

section \<open>Properties\<close>

text \<open>C19: When the slices of the global scripts have no spare capacity, the loop over the hosts, with
  all the slices it shares and in whatever order it visits them, is the list-level merge of
  every host with the globals.\<close>

theorem merge_hosts_refines:
  assumes "grow_ok grow" and "job_full (snd (load_job grow empty_heap g))"
  shows "merge_hosts grow hosts g = map (\<lambda>(k, j). (k, mergeGlobals j g)) hosts"
  using assms by (rule merge_hosts_full)

abbreviation with_inline :: "string \<Rightarrow> string list \<Rightarrow> job_config" where
  "with_inline h ls \<equiv> (new_job h)\<lparr>PreScript := \<lparr>inline = ls, scripts = []\<rparr>\<rparr>"

lemma merge_hosts_refines_witness:
  "merge_hosts go_grow [(''a'', with_inline ''a'' [''x'']), (''b'', with_inline ''b'' [''y''])] (with_inline [] [''g'', ''h''])
    = [(''a'', with_inline ''a'' [''g'', ''h'', ''x'']), (''b'', with_inline ''b'' [''g'', ''h'', ''y''])]"
proof -
  have "job_full (snd (load_job go_grow empty_heap (with_inline [] [''g'', ''h''])))"
    by (rule load_job_full) (auto simp: new_job_def empty_script_def intro: exI [of _ 1])
  then show ?thesis
    using merge_hosts_refines [OF go_grow_ok, of "with_inline [] [''g'', ''h'']"]
    by (simp add: mergeGlobals_def merge_script_def new_job_def empty_script_def)
qed

text \<open>With three global inline lines, whose slice Go gives room for a fourth, two hosts with one
  line of their own end up with the line of the host that was merged last: the other host
  runs a command meant for a different machine.\<close>

theorem shared_globals_overwrite:
  "merge_hosts go_grow [(a, with_inline a [x]), (b, with_inline b [y])] (with_inline [] [g1, g2, g3])
    = [(a, with_inline a [g1, g2, g3, y]), (b, with_inline b [g1, g2, g3, y])]"
  by (simp add: merge_hosts_def load_job_def load_script_def load_slice_def append_slice_def new_job_def
      empty_script_def empty_heap_def nil_slice_def go_grow_def Let_def write_at_def contents_def
      mergeGlobals_heap_def merge_script_heap_def read_job_def read_script_def)

end
