(* ===== verification/Config_Service.thy ===== *)
theory Config_Service imports Config_Script Go_Time begin

text \<open>
  \<open>config/service.go\<close>: the service configuration, the daily schedule with its text format and
  the next time of a backup. \<open>time.ParseDuration\<close> and the random number generator are
  parameters; of the generator the code relies on the documented range of \<open>Int63n\<close>.
\<close>

record schedule =
  sc_h :: int
  sc_m :: int
  sc_s :: int

record service_config =
  Parallel :: "8 word"
  RootDataset :: string
  MountBase :: string
  LogLevel :: string
  RSyncPath :: string
  SSHPath :: string
  Schedule :: schedule
  Jitter :: duration

text \<open>\<open>ServiceConfig{}\<close>: the zero value decoding starts from.\<close>

definition zero_service :: service_config where
  "zero_service =
     \<lparr>Parallel = 0, RootDataset = [], MountBase = [], LogLevel = [], RSyncPath = [], SSHPath = [],
      Schedule = \<lparr>sc_h = 0, sc_m = 0, sc_s = 0\<rparr>, Jitter = 0\<rparr>"

section \<open>Decoding\<close>

definition duration_UnmarshalYAML ::
  "(string \<Rightarrow> (conf_error, duration) outcome) \<Rightarrow> (conf_error, string) outcome \<Rightarrow> duration
     \<Rightarrow> duration \<times> conf_error option" where
  "duration_UnmarshalYAML parse_duration u d =
     (case u of
        Inl e \<Rightarrow> (d, Some e)
      | Inr s \<Rightarrow> (case parse_duration s of Inl e \<Rightarrow> (d, Some e) | Inr dur \<Rightarrow> (dur, None)))"

text \<open>The loop over the three fields, with the position of the field.\<close>

fun schedule_fields :: "nat \<Rightarrow> string list \<Rightarrow> (conf_error, int list) outcome" where
  "schedule_fields pos [] = Ok []"
| "schedule_fields pos (f # fs) =
     (case atoi f of
        Inl e \<Rightarrow> Err ENum
      | Inr val \<Rightarrow>
          if val < 0 \<or> (pos = 0 \<and> 23 < val) \<or> (0 < pos \<and> 59 < val) then Err EScheduleOutOfRange
          else (case schedule_fields (Suc pos) fs of Inl e \<Rightarrow> Err e | Inr vs \<Rightarrow> Ok (val # vs)))"

definition parse_schedule :: "string \<Rightarrow> (conf_error, schedule) outcome" where
  "parse_schedule s =
     (let f = split_n 4 (CHR '':'') s
      in if length f \<noteq> 3 then Err EScheduleFormat
         else (case schedule_fields 0 f of
                 Inl e \<Rightarrow> Err e
               | Inr i \<Rightarrow> Ok \<lparr>sc_h = i ! 0, sc_m = i ! 1, sc_s = i ! 2\<rparr>))"

definition schedule_UnmarshalYAML ::
  "(conf_error, string) outcome \<Rightarrow> schedule \<Rightarrow> schedule \<times> conf_error option" where
  "schedule_UnmarshalYAML u sc =
     (case u of
        Inl e \<Rightarrow> (sc, Some e)
      | Inr s \<Rightarrow> (case parse_schedule s of Inl e \<Rightarrow> (sc, Some e) | Inr sc' \<Rightarrow> (sc', None)))"

definition schedule_String :: "schedule \<Rightarrow> string" where
  "schedule_String sc = pad2 (sc_h sc) @ '':'' @ pad2 (sc_m sc) @ '':'' @ pad2 (sc_s sc)"

text \<open>The schedules the format denotes.\<close>

definition valid_schedule :: "schedule \<Rightarrow> bool" where
  "valid_schedule sc \<longleftrightarrow> 0 \<le> sc_h sc \<and> sc_h sc \<le> 23 \<and> 0 \<le> sc_m sc \<and> sc_m sc \<le> 59 \<and> 0 \<le> sc_s sc \<and> sc_s sc \<le> 59"

lemma schedule_fields_Ok:
  "schedule_fields pos fs = Ok vs \<Longrightarrow>
     length vs = length fs \<and> (\<forall>k<length vs. 0 \<le> vs ! k \<and> vs ! k \<le> (if pos + k = 0 then 23 else 59))"
proof (induction pos fs arbitrary: vs rule: schedule_fields.induct)
  case (2 pos f fs)
  then obtain v ws where v: "atoi f = Ok v" "\<not> (v < 0 \<or> (pos = 0 \<and> 23 < v) \<or> (0 < pos \<and> 59 < v))"
    and ws: "schedule_fields (Suc pos) fs = Ok ws" "vs = v # ws"
    by (auto split: sum.splits if_splits)
  from 2(1) [OF v ws(1)] v(2) show ?case
    by (auto simp: ws(2) nth_Cons split: nat.splits)
qed simp

lemma parse_schedule_valid: "parse_schedule s = Ok sc \<Longrightarrow> valid_schedule sc"
proof -
  assume "parse_schedule s = Ok sc"
  then obtain i where i: "schedule_fields 0 (split_n 4 (CHR '':'') s) = Ok i"
    and len: "length (split_n 4 (CHR '':'') s) = 3" and sc: "sc = \<lparr>sc_h = i ! 0, sc_m = i ! 1, sc_s = i ! 2\<rparr>"
    by (auto simp: parse_schedule_def Let_def split: if_splits sum.splits)
  have l: "length i = 3" and b: "\<And>k. k < length i \<Longrightarrow> 0 \<le> i ! k \<and> i ! k \<le> (if k = 0 then 23 else 59)"
    using schedule_fields_Ok [OF i] len by simp_all
  from b [of 0] b [of 1] b [of 2] show ?thesis by (simp add: sc valid_schedule_def l)
qed

lemma pad2_no_colon: "0 \<le> i \<Longrightarrow> i < 100 \<Longrightarrow> CHR '':'' \<notin> set (pad2 i)"
  using pad2_digits [of i] is_digit_not_sep by (auto simp: list_all_iff)

lemma parse_schedule_String: "valid_schedule sc \<Longrightarrow> parse_schedule (schedule_String sc) = Ok sc"
proof -
  assume v: "valid_schedule sc"
  then have b: "0 \<le> sc_h sc" "sc_h sc < 100" "0 \<le> sc_m sc" "sc_m sc < 100" "0 \<le> sc_s sc" "sc_s sc < 100"
    by (simp_all add: valid_schedule_def)
  have four: "(4 :: nat) = Suc (Suc (Suc (Suc 0)))" by simp
  have "split_n 4 (CHR '':'') (schedule_String sc) = [pad2 (sc_h sc), pad2 (sc_m sc), pad2 (sc_s sc)]"
    using b by (simp add: four schedule_String_def split_n_append_sep split_n_one_piece pad2_no_colon
        del: split_n.simps(3))
  then show ?thesis
    using v b by (simp add: parse_schedule_def atoi_pad2 valid_schedule_def)
qed

text \<open>Schedules are a codec: the daemon's text format can be read back.\<close>

interpretation schedule_codec: text_codec schedule_String parse_schedule valid_schedule
  by unfold_locales (rule parse_schedule_String)

section \<open>The next scheduled time\<close>

definition Next :: "schedule \<Rightarrow> time \<Rightarrow> time" where
  "Next sc t =
     (let (y, mon, d) = date_of t; (h, m, s) = clock_of t;
          d = (if sc_h sc < h \<or> h = sc_h sc \<and> sc_m sc < m \<or> h = sc_h sc \<and> m = sc_m sc \<and> sc_s sc \<le> s
               then d + 1 else d)
      in time_date y mon d (sc_h sc) (sc_m sc) (sc_s sc) 0)"

text \<open>
  \<open>NextSchedule\<close> with the random generator as \<open>int63n\<close>. The jitter is an \<open>int64\<close>, \<open>Jitter / 2\<close>
  truncates, and the offset is cut to tenths of a second.
\<close>

definition NextSchedule :: "(int \<Rightarrow> int) \<Rightarrow> service_config \<Rightarrow> time \<Rightarrow> time" where
  "NextSchedule int63n s ref =
     (let half = Jitter s sdiv 2;
          utc = (if 0 < half then ref + half else ref);
          next = Next (Schedule s) utc;
          jit = Jitter s
      in if 0 < jit then next + trunc_dur (int63n jit - jit sdiv 2) (100 * millisecond) else next)"

definition int63n_contract :: "(int \<Rightarrow> int) \<Rightarrow> bool" where
  "int63n_contract int63n \<longleftrightarrow> (\<forall>n>0. 0 \<le> int63n n \<and> int63n n < n)"

text \<open>The day and the second of the day of an instant; the scheduled second of the day.\<close>

definition day_of :: "time \<Rightarrow> int" where
  "day_of t = t div (day_secs * second)"

definition sched_secs :: "schedule \<Rightarrow> int" where
  "sched_secs sc = sc_h sc * 3600 + sc_m sc * 60 + sc_s sc"

lemma sched_secs_bounds: "valid_schedule sc \<Longrightarrow> 0 \<le> sched_secs sc \<and> sched_secs sc < day_secs"
  by (simp add: valid_schedule_def sched_secs_def)

lemma day_of_unix: "day_of t = unix t div day_secs"
  by (simp add: day_of_def unix_def zdiv_zmult2_eq mult.commute [of day_secs])

lemma sched_passed_iff:
  assumes "valid_schedule sc" and c: "clock_of t = (h, m, s)"
  shows "(sc_h sc < h \<or> h = sc_h sc \<and> sc_m sc < m \<or> h = sc_h sc \<and> m = sc_m sc \<and> sc_s sc \<le> s)
    \<longleftrightarrow> sched_secs sc \<le> unix t mod day_secs"
  using clock_of_bounds [OF c] assms(1) unfolding valid_schedule_def sched_secs_def by linarith

text \<open>\<open>Next\<close> without the calendar: the scheduled second of today or of tomorrow.\<close>

lemma Next_eq:
  assumes "valid_schedule sc"
  shows "Next sc t =
    ((day_of t + (if sched_secs sc \<le> unix t mod day_secs then 1 else 0)) * day_secs + sched_secs sc) * second"
proof -
  obtain y mon d where dt: "date_of t = (y, mon, d)" by (cases "date_of t") auto
  obtain h m s where cl: "clock_of t = (h, m, s)" by (cases "clock_of t") auto
  have days: "days_of_date y mon (d + k) = time_day t + k" for k
    using days_of_date_of_days(1) dt by (simp add: date_of_def)
  have d0: "days_of_date y mon d = time_day t" using days [of 0] by simp
  show ?thesis
    using sched_passed_iff [OF assms cl] days [of 1] d0
    by (simp add: Next_def dt cl time_date_def time_day_def day_of_unix sched_secs_def algebra_simps)
qed

lemma Next_bounds:
  assumes "valid_schedule sc"
  shows "t < Next sc t" and "Next sc t \<le> t + day_secs * second"
proof -
  define q where "q = unix t div day_secs"
  define r where "r = unix t mod day_secs"
  define n where "n = t mod second"
  have t: "t = (q * day_secs + r) * second + n" by (simp add: q_def r_def n_def unix_def)
  have b: "0 \<le> r" "r < day_secs" "0 \<le> n" "n < second" by (simp_all add: r_def n_def)
  have s: "0 \<le> sched_secs sc" "sched_secs sc < day_secs" using sched_secs_bounds [OF assms] by simp_all
  have N: "Next sc t = ((q + (if sched_secs sc \<le> r then 1 else 0)) * day_secs + sched_secs sc) * second"
    by (simp add: Next_eq [OF assms] day_of_unix q_def r_def)
  have "t < Next sc t \<and> Next sc t \<le> t + day_secs * second"
  proof (cases "sched_secs sc \<le> r")
    case True
    with N have "Next sc t = ((q + 1) * day_secs + sched_secs sc) * second" by simp
    with t b s True show ?thesis by (simp add: algebra_simps)
  next
    case False
    with N have "Next sc t = (q * day_secs + sched_secs sc) * second" by simp
    with t b s False show ?thesis by (simp add: algebra_simps)
  qed
  then show "t < Next sc t" and "Next sc t \<le> t + day_secs * second" by simp_all
qed

lemma jitter_offset_bounds:
  assumes "int63n_contract int63n" and "0 < j"
  shows "- (j sdiv 2) \<le> trunc_dur (int63n j - j sdiv 2) (100 * millisecond)"
    and "trunc_dur (int63n j - j sdiv 2) (100 * millisecond) \<le> j - j sdiv 2 - 1"
    and "0 \<le> j sdiv 2" and "j sdiv 2 = j div 2"
proof -
  have r: "0 \<le> int63n j" "int63n j < j" using assms by (auto simp: int63n_contract_def)
  show h: "j sdiv 2 = j div 2" using assms(2) by (simp add: signed_divide_int_def)
  then show "0 \<le> j sdiv 2" using assms(2) by simp
  let ?d = "int63n j - j sdiv 2"
  show "- (j sdiv 2) \<le> trunc_dur ?d (100 * millisecond)"
    using trunc_dur_nonneg [of ?d "100 * millisecond"] trunc_dur_neg [of ?d "100 * millisecond"] r h assms(2)
    by (cases "0 \<le> ?d") auto
  show "trunc_dur ?d (100 * millisecond) \<le> j - j sdiv 2 - 1"
    using trunc_dur_nonneg [of ?d "100 * millisecond"] trunc_dur_neg [of ?d "100 * millisecond"] r h assms(2)
    by (cases "0 \<le> ?d") auto
qed

lemma clock_of_sched:
  assumes "valid_schedule sc"
  shows "clock_of u = (sc_h sc, sc_m sc, sc_s sc) \<longleftrightarrow> unix u mod day_secs = sched_secs sc"
proof
  assume "clock_of u = (sc_h sc, sc_m sc, sc_s sc)"
  then show "unix u mod day_secs = sched_secs sc" using clock_of_bounds(2) by (simp add: sched_secs_def)
next
  assume r: "unix u mod day_secs = sched_secs sc"
  have v: "0 \<le> sc_h sc" "0 \<le> sc_m sc" "sc_m sc < 60" "0 \<le> sc_s sc" "sc_s sc < 60"
    using assms by (simp_all add: valid_schedule_def)
  have h: "sched_secs sc div 3600 = sc_h sc" "sched_secs sc mod 3600 = sc_m sc * 60 + sc_s sc"
    using v by (simp_all add: sched_secs_def add.assoc)
  moreover have "(sc_m sc * 60 + sc_s sc) div 60 = sc_m sc" using v by simp
  moreover have "sched_secs sc mod 60 = sc_s sc"
    using v mod_mod_cancel [of 60 3600 "sched_secs sc"] h(2) by simp
  ultimately show "clock_of u = (sc_h sc, sc_m sc, sc_s sc)" by (simp add: clock_of_def Let_def r)
qed

lemma split_second: "t = unix t * second + t mod second" "0 \<le> t mod second"
  by (simp_all add: unix_def)

lemma split_day: "unix t = day_of t * day_secs + unix t mod day_secs"
  unfolding day_of_unix by (rule div_mult_mod_eq [symmetric])

lemma Next_day:
  assumes "valid_schedule sc"
  obtains d where "Next sc t = (d * day_secs + sched_secs sc) * second"
    and "d = (if sched_secs sc \<le> unix t mod day_secs then day_of t + 1 else day_of t)"
  using Next_eq [OF assms, of t] by (simp split: if_splits)

lemma Next_clock:
  assumes "valid_schedule sc"
  shows "clock_of (Next sc t) = (sc_h sc, sc_m sc, sc_s sc)" and "Next sc t mod second = 0"
proof -
  obtain d where N: "Next sc t = (d * day_secs + sched_secs sc) * second" by (rule Next_day [OF assms, of t])
  have "unix (Next sc t) = d * day_secs + sched_secs sc"
    unfolding unix_def N by (rule nonzero_mult_div_cancel_right) simp
  then have "unix (Next sc t) mod day_secs = sched_secs sc" using sched_secs_bounds [OF assms] by simp
  then show "clock_of (Next sc t) = (sc_h sc, sc_m sc, sc_s sc)" by (simp only: clock_of_sched [OF assms])
  show "Next sc t mod second = 0" unfolding N by (rule mod_mult_self2_is_0)
qed

lemma Next_least:
  assumes v: "valid_schedule sc" and u: "t < u" "clock_of u = (sc_h sc, sc_m sc, sc_s sc)" "u mod second = 0"
  shows "Next sc t \<le> u"
proof -
  have s: "unix u mod day_secs = sched_secs sc" using u(2) by (simp only: clock_of_sched [OF v])
  have uu: "u = unix u * second" using split_second(1) [of u] u(3) by linarith
  have ud: "unix u = day_of u * day_secs + sched_secs sc" using split_day [of u] s by simp
  have le: "day_of t \<le> day_of u" unfolding day_of_def using u(1) by (intro zdiv_mono1) simp_all
  have lt: "day_of t < day_of u" if p: "sched_secs sc \<le> unix t mod day_secs"
  proof (rule ccontr)
    assume "\<not> day_of t < day_of u"
    with le have "day_of u = day_of t" by simp
    then have "unix u \<le> unix t" using split_day [of t] ud p by linarith
    then have "u \<le> t" using uu split_second [of t] by linarith
    then show False using u(1) by simp
  qed
  obtain d where N: "Next sc t = (d * day_secs + sched_secs sc) * second"
    and d: "d = (if sched_secs sc \<le> unix t mod day_secs then day_of t + 1 else day_of t)"
    by (rule Next_day [OF v, of t])
  have "d \<le> day_of u" using le lt d by (simp split: if_splits)
  then have "d * day_secs + sched_secs sc \<le> unix u" using ud by linarith
  then have "(d * day_secs + sched_secs sc) * second \<le> unix u * second" by (rule mult_right_mono) simp
  then show ?thesis unfolding N [symmetric] uu [symmetric] .
qed

section \<open>Properties\<close>

text \<open>C25: A schedule can be read back from its text form exactly if it is a time of the day, and the
  parser accepts no text for any other schedule.\<close>

theorem schedule_roundtrip:
  "(parse_schedule (schedule_String sc) = Ok sc \<longleftrightarrow> valid_schedule sc)
   \<and> ((\<exists>s. parse_schedule s = Ok sc) \<longleftrightarrow> valid_schedule sc)"
  using parse_schedule_valid schedule_codec.dec_enc by blast

text \<open>C21: The next run of a schedule is the first whole second after the reference at which the clock
  shows the scheduled hour, minute and second: at most 24 hours later, never the reference itself.\<close>

theorem Next_first:
  assumes "valid_schedule sc"
  shows "t < Next sc t \<and> Next sc t \<le> t + day_secs * second
    \<and> clock_of (Next sc t) = (sc_h sc, sc_m sc, sc_s sc) \<and> Next sc t mod second = 0
    \<and> (\<forall>u. t < u \<and> clock_of u = (sc_h sc, sc_m sc, sc_s sc) \<and> u mod second = 0 \<longrightarrow> Next sc t \<le> u)"
  by (intro conjI allI impI Next_bounds Next_clock Next_least assms; elim conjE)

lemma Next_first_witness:
  "0 < Next \<lparr>sc_h = 4, sc_m = 0, sc_s = 0\<rparr> 0 \<and> Next \<lparr>sc_h = 4, sc_m = 0, sc_s = 0\<rparr> 0 \<le> day_secs * second"
  using Next_first [of "\<lparr>sc_h = 4, sc_m = 0, sc_s = 0\<rparr>" 0] by (simp add: valid_schedule_def)

text \<open>With a jitter the planned run lies strictly in the future of the reference, at most a day
  and the jitter after it, and at most half the jitter away from the scheduled time.\<close>

theorem NextSchedule_bounds:
  assumes "int63n_contract rnd" and "valid_schedule (Schedule s)" and "0 < Jitter s"
  shows "ref < NextSchedule rnd s ref
    \<and> NextSchedule rnd s ref \<le> ref + day_secs * second + Jitter s
    \<and> \<bar>NextSchedule rnd s ref - Next (Schedule s) (ref + Jitter s div 2)\<bar> \<le> Jitter s - Jitter s div 2"
proof -
  let ?half = "Jitter s div 2"
  have h: "Jitter s sdiv 2 = ?half" and o: "- ?half \<le> trunc_dur (rnd (Jitter s) - ?half) (100 * millisecond)"
      "trunc_dur (rnd (Jitter s) - ?half) (100 * millisecond) \<le> Jitter s - ?half - 1"
    using jitter_offset_bounds [OF assms(1,3)] by simp_all
  have half: "0 \<le> ?half" using assms(3) by simp
  have eq: "NextSchedule rnd s ref =
      Next (Schedule s) (ref + ?half) + trunc_dur (rnd (Jitter s) - ?half) (100 * millisecond)"
    using assms(3) half by (auto simp: NextSchedule_def Let_def h)
  show ?thesis using Next_bounds [OF assms(2), of "ref + ?half"] o half unfolding eq by linarith
qed

lemma NextSchedule_bounds_witness:
  "0 < NextSchedule (\<lambda>n. 0) (zero_service\<lparr>Jitter := 600 * second\<rparr>) 0"
  using NextSchedule_bounds [of "\<lambda>n. 0" "zero_service\<lparr>Jitter := 600 * second\<rparr>" 0]
  by (simp add: int63n_contract_def valid_schedule_def zero_service_def)

end
