(* ===== verification/Config_Tree.thy ===== *)
theory Config_Tree imports Config_Alias Config_Service begin

text \<open>
  \<open>config/hosts.go\<close> and \<open>config/tree.go\<close>: reading the configuration directory into memory and
  the queries of the \<open>Tree\<close> interface. Parameters (the record \<open>env\<close>): the file system, the
  YAML decoders (what they leave in the value, and an error), the iteration order of Go's
  maps, the growth of slices and the platform's default directory. A map of hosts is an
  association list.
\<close>

type_synonym host_configs = "(string \<times> job_config) list"

record env =
  sys :: fs
  yaml_service :: "string \<Rightarrow> service_config \<times> conf_error option"
  yaml_job :: "string \<Rightarrow> job_config \<times> conf_error option"
  iter :: "host_configs \<Rightarrow> host_configs"
  grow :: "nat \<Rightarrow> nat \<Rightarrow> nat"
  default_root :: string

text \<open>\<open>for k, v := range m\<close> visits every entry once, in an unspecified order.\<close>

definition env_ok :: "env \<Rightarrow> bool" where
  "env_ok e \<longleftrightarrow> (\<forall>xs. set (iter e xs) = set xs \<and> length (iter e xs) = length xs) \<and> grow_ok (grow e)"

definition DefaultRoot_linux :: string where
  "DefaultRoot_linux = ''/etc/zackup''"

definition DefaultRoot_freebsd :: string where
  "DefaultRoot_freebsd = ''/usr/local/etc/zackup''"

section \<open>Host configurations\<close>

definition pathToHostVariantA :: "string \<Rightarrow> string" where
  "pathToHostVariantA name = path_base (path_dir name)"

definition pathToHostVariantB :: "string \<Rightarrow> string" where
  "pathToHostVariantB name = trim_suffix (path_base name) ''.yml''"

definition readHostConfig ::
  "env \<Rightarrow> string \<Rightarrow> string \<Rightarrow> host_configs \<Rightarrow> host_configs \<times> conf_error option" where
  "readHostConfig e host file h =
     (if map_of h host \<noteq> None then (h, Some (EDuplicate host))
      else case open_file (sys e) file of
             Inl err \<Rightarrow> (h, Some err)
           | Inr txt \<Rightarrow>
               (case yaml_job e txt of
                  (_, Some err) \<Rightarrow> (h, Some (EWrap (''reading '' @ file) err))
                | (j, None) \<Rightarrow> (AList.update host (j\<lparr>job_host := host\<rparr>) h, None)))"

fun read_matches ::
  "env \<Rightarrow> (string \<Rightarrow> string) \<Rightarrow> string list \<Rightarrow> host_configs \<Rightarrow> host_configs \<times> conf_error option" where
  "read_matches e matchToHost [] h = (h, None)"
| "read_matches e matchToHost (m # ms) h =
     (case readHostConfig e (matchToHost m) m h of
        (h', Some err) \<Rightarrow> (h', Some err)
      | (h', None) \<Rightarrow> read_matches e matchToHost ms h')"

definition readGlob ::
  "env \<Rightarrow> string \<Rightarrow> (string \<Rightarrow> string) \<Rightarrow> host_configs \<Rightarrow> host_configs \<times> conf_error option" where
  "readGlob e pattern matchToHost h =
     (case glob (sys e) pattern of
        Inl err \<Rightarrow> (h, Some (EWrap (''expanding glob '' @ pattern @ '' failed'') err))
      | Inr ms \<Rightarrow> read_matches e matchToHost ms h)"

text \<open>The loop of \<open>readHooks\<close> over the map, which changes the jobs in place.\<close>

fun read_hooks_loop :: "fs \<Rightarrow> string \<Rightarrow> host_configs \<Rightarrow> host_configs \<times> conf_error option" where
  "read_hooks_loop f root [] = ([], None)"
| "read_hooks_loop f root ((host, job) # rest) =
     (case readFiles f root host ''pre.*.sh'' (PreScript job) of
        (pre, Some err) \<Rightarrow> ((host, job\<lparr>PreScript := pre\<rparr>) # rest, Some err)
      | (pre, None) \<Rightarrow>
          (case readFiles f root host ''post.*.sh'' (PostScript job) of
             (post, Some err) \<Rightarrow> ((host, job\<lparr>PreScript := pre, PostScript := post\<rparr>) # rest, Some err)
           | (post, None) \<Rightarrow>
               (case read_hooks_loop f root rest of
                  (rest', err) \<Rightarrow> ((host, job\<lparr>PreScript := pre, PostScript := post\<rparr>) # rest', err))))"

definition readHooks :: "env \<Rightarrow> string \<Rightarrow> host_configs \<Rightarrow> host_configs \<times> conf_error option" where
  "readHooks e root h = read_hooks_loop (sys e) root (iter e h)"

section \<open>The tree\<close>

record tree =
  t_root :: string
  t_service :: "service_config option"
  t_global :: "job_config option"
  t_hosts :: host_configs

definition NewTree :: "string \<Rightarrow> tree" where
  "NewTree root = \<lparr>t_root = root, t_service = None, t_global = None, t_hosts = []\<rparr>"

definition decodeYaml ::
  "fs \<Rightarrow> string \<Rightarrow> string \<Rightarrow> (string \<Rightarrow> 'v \<times> conf_error option) \<Rightarrow> 'v \<Rightarrow> 'v \<times> conf_error option" where
  "decodeYaml f root name dec v =
     (let name = (if is_abs name then name else path_join [root, name])
      in case open_file f name of
           Inl err \<Rightarrow> (v, Some err)
         | Inr txt \<Rightarrow> dec txt)"

text \<open>The part of \<open>reload\<close> after the two files of the root are read.\<close>

definition reload_hosts :: "env \<Rightarrow> job_config \<Rightarrow> tree \<Rightarrow> tree \<times> conf_error option" where
  "reload_hosts e global t =
     (case readGlob e (path_join [t_root t, ''hosts/*/config.yml'']) pathToHostVariantA [] of
        (h, Some err) \<Rightarrow> (t\<lparr>t_hosts := h\<rparr>, Some err)
      | (h, None) \<Rightarrow>
          (case readGlob e (path_join [t_root t, ''hosts/*.yml'']) pathToHostVariantB h of
             (h, Some err) \<Rightarrow> (t\<lparr>t_hosts := h\<rparr>, Some err)
           | (h, None) \<Rightarrow>
               (case readHooks e (t_root t) h of
                  (h, Some err) \<Rightarrow> (t\<lparr>t_hosts := h\<rparr>, Some err)
                | (h, None) \<Rightarrow> (t\<lparr>t_hosts := merge_hosts (grow e) (iter e h) global\<rparr>, None))))"

definition reload :: "env \<Rightarrow> tree \<Rightarrow> tree \<times> conf_error option" where
  "reload e t =
     (let t = (if t_root t = [] then t\<lparr>t_root := default_root e\<rparr> else t)
      in case decodeYaml (sys e) (t_root t) ''config.yml'' (yaml_service e) zero_service of
           (svc, Some err) \<Rightarrow> (t\<lparr>t_service := Some svc\<rparr>, Some (EWrap ''failed to load config.yml'' err))
         | (svc, None) \<Rightarrow>
             (case decodeYaml (sys e) (t_root t) ''globals.yml'' (yaml_job e) (new_job []) of
                (g, Some err) \<Rightarrow>
                  (t\<lparr>t_service := Some svc, t_global := Some g\<rparr>, Some (EWrap ''failed to load globals.yml'' err))
              | (g, None) \<Rightarrow> reload_hosts e g (t\<lparr>t_service := Some svc, t_global := Some g\<rparr>)))"

definition SetRoot :: "env \<Rightarrow> string \<Rightarrow> tree \<Rightarrow> tree \<times> conf_error option" where
  "SetRoot e newRoot t =
     (if t_root t \<noteq> newRoot then reload e (t\<lparr>t_root := newRoot\<rparr>) else (t, None))"

definition Root :: "tree \<Rightarrow> string" where
  "Root t = t_root t"

definition Service :: "tree \<Rightarrow> service_config option" where
  "Service t = t_service t"

definition Hosts :: "tree \<Rightarrow> string list" where
  "Hosts t = sort (map fst (t_hosts t))"

definition tree_Host :: "tree \<Rightarrow> string \<Rightarrow> job_config option" where
  "tree_Host t name =
     (case map_of (t_hosts t) name of
        Some job \<Rightarrow> Some (mergeGlobals (new_job (job_host job)) job)
      | None \<Rightarrow> None)"

section \<open>Well-formed maps of hosts\<close>

definition hosts_ok :: "host_configs \<Rightarrow> bool" where
  "hosts_ok h \<longleftrightarrow> distinct (map fst h) \<and> (\<forall>(k, j)\<in>set h. job_host j = k)"

definition tree_ok :: "tree \<Rightarrow> bool" where
  "tree_ok t \<longleftrightarrow> hosts_ok (t_hosts t)"

lemma hosts_ok_Nil [simp]: "hosts_ok []"
  by (simp add: hosts_ok_def)

lemma hosts_ok_Cons:
  "hosts_ok ((k, j) # h) \<longleftrightarrow> job_host j = k \<and> k \<notin> fst ` set h \<and> hosts_ok h"
  by (auto simp: hosts_ok_def)

lemma readHostConfig_ok:
  assumes "hosts_ok h" and "readHostConfig e host file h = (h', err)"
  shows "hosts_ok h'"
  using assms
  by (auto simp: readHostConfig_def hosts_ok_def distinct_update update_keys_notin map_of_eq_None_keys
      split: if_splits sum.splits prod.splits option.splits)

lemma read_matches_ok:
  "hosts_ok h \<Longrightarrow> read_matches e m2h ms h = (h', err) \<Longrightarrow> hosts_ok h'"
  by (induction ms arbitrary: h) (auto split: prod.splits option.splits dest: readHostConfig_ok)

lemma readGlob_ok: "hosts_ok h \<Longrightarrow> readGlob e pat m2h h = (h', err) \<Longrightarrow> hosts_ok h'"
  by (auto simp: readGlob_def split: sum.splits dest: read_matches_ok)

lemma iter_distinct:
  "env_ok e \<Longrightarrow> distinct (map fst h) \<Longrightarrow> distinct (map fst (iter e h))"
proof -
  assume e: "env_ok e" and d: "distinct (map fst h)"
  then have "card (set (map fst (iter e h))) = length (map fst (iter e h))"
    using distinct_card [OF d] by (simp add: env_ok_def image_set [symmetric])
  then show ?thesis by (rule card_distinct)
qed

lemma iter_hosts_ok: "env_ok e \<Longrightarrow> hosts_ok h \<Longrightarrow> hosts_ok (iter e h)"
  using iter_distinct [of e h] by (simp add: hosts_ok_def env_ok_def)

lemma read_hooks_loop_shape:
  "map (\<lambda>(k, j). (k, job_host j, SSH j, RSync j)) (fst (read_hooks_loop f root h))
     = map (\<lambda>(k, j). (k, job_host j, SSH j, RSync j)) h"
  by (induction f root h rule: read_hooks_loop.induct) (auto split: prod.splits option.splits)

lemma hosts_ok_shape:
  assumes "map (\<lambda>(k, j). (k, job_host j)) h = map (\<lambda>(k, j). (k, job_host j)) h'" and "hosts_ok h'"
  shows "hosts_ok h"
proof -
  have k: "map fst h = map fst h'"
    using arg_cong [OF assms(1), of "map fst"] by (simp add: case_prod_unfold comp_def)
  have "(k, job_host j) \<in> set (map (\<lambda>(k, j). (k, job_host j)) h')" if "(k, j) \<in> set h" for k j
    unfolding assms(1) [symmetric] using that by force
  then show ?thesis using assms(2) k by (fastforce simp: hosts_ok_def)
qed

lemma read_hooks_loop_ok: "hosts_ok h \<Longrightarrow> hosts_ok (fst (read_hooks_loop f root h))"
proof (rule hosts_ok_shape)
  show "map (\<lambda>(k, j). (k, job_host j)) (fst (read_hooks_loop f root h)) = map (\<lambda>(k, j). (k, job_host j)) h"
    using arg_cong [OF read_hooks_loop_shape [of f root h], of "map (\<lambda>(k, n, _). (k, n))"]
    by (simp add: case_prod_unfold comp_def)
qed

lemma readHooks_ok: "env_ok e \<Longrightarrow> hosts_ok h \<Longrightarrow> readHooks e root h = (h', err) \<Longrightarrow> hosts_ok h'"
  using read_hooks_loop_ok [OF iter_hosts_ok, of e h "sys e" root] by (simp add: readHooks_def)

lemma merge_hosts_ok:
  assumes "grow_ok gr" and "hosts_ok h"
  shows "hosts_ok (merge_hosts gr h g)"
proof (rule merge_hosts_shape [OF assms(1), of h g])
  fix merged
  assume eq: "merge_hosts gr h g = zip (map fst h) merged"
    and m: "map (\<lambda>j. (job_host j, SSH j, RSync j)) merged =
      map (\<lambda>(_, j). (job_host j, merge_ssh (SSH j) (SSH g), merge_rsync (RSync j) (RSync g))) h"
  have hm: "map job_host merged = map (\<lambda>(_, j). job_host j) h"
    using arg_cong [OF m, of "map fst"] by (simp add: case_prod_unfold comp_def)
  have "map (\<lambda>(k, j). (k, job_host j)) (zip (map fst h) merged) = zip (map fst h) (map job_host merged)"
    by (simp add: zip_map2 case_prod_beta)
  also have "\<dots> = map (\<lambda>(k, j). (k, job_host j)) h"
    unfolding hm by (simp add: zip_map_map zip_same_conv_map case_prod_beta)
  finally show ?thesis using hosts_ok_shape assms(2) eq by metis
qed

lemma reload_hosts_ok:
  assumes "env_ok e" and "reload_hosts e g t = (t', err)"
  shows "tree_ok t'"
proof -
  obtain h1 e1 where r1: "readGlob e (path_join [t_root t, ''hosts/*/config.yml'']) pathToHostVariantA [] = (h1, e1)"
    by fastforce
  have ok1: "hosts_ok h1" using readGlob_ok [OF _ r1] by simp
  obtain h2 e2 where r2: "readGlob e (path_join [t_root t, ''hosts/*.yml'']) pathToHostVariantB h1 = (h2, e2)"
    by fastforce
  have ok2: "hosts_ok h2" using readGlob_ok [OF ok1 r2] .
  obtain h3 e3 where r3: "readHooks e (t_root t) h2 = (h3, e3)" by fastforce
  have ok3: "hosts_ok h3" using readHooks_ok [OF assms(1) ok2 r3] .
  have "hosts_ok (merge_hosts (grow e) (iter e h3) g)"
    using merge_hosts_ok iter_hosts_ok [OF assms(1) ok3] assms(1) by (simp add: env_ok_def)
  then show ?thesis
    using assms(2) ok1 ok2 ok3 by (auto simp: reload_hosts_def r1 r2 r3 tree_ok_def split: option.splits)
qed

lemma reload_ok:
  assumes "env_ok e" and "tree_ok t" and "reload e t = (t', err)"
  shows "tree_ok t'"
proof -
  have *: "tree_ok (t\<lparr>t_root := r, t_service := s, t_global := g\<rparr>)" for r s g
    using assms(2) by (simp add: tree_ok_def)
  then show ?thesis
    using assms(1,2,3)
    by (auto simp: reload_def Let_def tree_ok_def split: prod.splits option.splits if_splits
        dest: reload_hosts_ok [unfolded tree_ok_def])
qed

lemma SetRoot_ok: "env_ok e \<Longrightarrow> tree_ok t \<Longrightarrow> SetRoot e r t = (t', err) \<Longrightarrow> tree_ok t'"
  using reload_ok [of e "t\<lparr>t_root := r\<rparr>" t' err] by (auto simp: SetRoot_def tree_ok_def split: if_splits)

lemma NewTree_ok: "tree_ok (NewTree r)"
  by (simp add: tree_ok_def NewTree_def)

section \<open>The interface\<close>

text \<open>
  What the clients of \<open>config.Tree\<close> rely on: the list of hosts is sorted and has no
  duplicates, exactly the listed hosts have a configuration, and it carries their name.
\<close>

locale config_tree =
  fixes ok :: "'t \<Rightarrow> bool"
    and hosts :: "'t \<Rightarrow> string list"
    and host :: "'t \<Rightarrow> string \<Rightarrow> job_config option"
  assumes hosts_sorted: "ok t \<Longrightarrow> sorted (hosts t)"
    and hosts_distinct: "ok t \<Longrightarrow> distinct (hosts t)"
    and hosts_known: "ok t \<Longrightarrow> h \<in> set (hosts t) \<longleftrightarrow> host t h \<noteq> None"
    and host_name: "ok t \<Longrightarrow> host t h = Some j \<Longrightarrow> job_host j = h"
begin

lemma host_of_listed: "ok t \<Longrightarrow> h \<in> set (hosts t) \<Longrightarrow> \<exists>j. host t h = Some j \<and> job_host j = h"
  using hosts_known [of t h] host_name [of t h] by auto

lemma names_of_all: "ok t \<Longrightarrow> map (\<lambda>h. job_host (the (host t h))) (hosts t) = hosts t"
  by (rule map_idI) (auto dest!: host_of_listed)

lemma hosts_unique: "ok t \<Longrightarrow> ok u \<Longrightarrow> set (hosts t) = set (hosts u) \<Longrightarrow> hosts t = hosts u"
  by (simp add: sorted_distinct_set_unique hosts_sorted hosts_distinct)

end

lemma tree_Host_eq: "tree_Host t name = map_of (t_hosts t) name"
  by (simp add: tree_Host_def mergeGlobals_new_job split: option.split)

lemma tree_Host_name: "tree_ok t \<Longrightarrow> tree_Host t h = Some j \<Longrightarrow> job_host j = h"
  by (auto simp: tree_Host_eq tree_ok_def hosts_ok_def dest!: map_of_SomeD)

lemma Hosts_known: "h \<in> set (Hosts t) \<longleftrightarrow> tree_Host t h \<noteq> None"
  by (auto simp: Hosts_def tree_Host_eq map_of_eq_None_iff)

interpretation zackup_tree: config_tree tree_ok Hosts tree_Host
proof
  fix t h
  assume "tree_ok t"
  then show "sorted (Hosts t)" and "distinct (Hosts t)"
    by (simp_all add: Hosts_def tree_ok_def hosts_ok_def)
  show "h \<in> set (Hosts t) \<longleftrightarrow> tree_Host t h \<noteq> None" by (rule Hosts_known)
qed (rule tree_Host_name)

section \<open>Which hosts a tree has\<close>

lemma readHostConfig_None:
  "readHostConfig e host file h = (h', None) \<Longrightarrow>
     host \<notin> fst ` set h \<and> map fst h' = map fst h @ [host]"
  by (auto simp: readHostConfig_def map_of_eq_None_keys update_keys_notin
      split: if_splits sum.splits prod.splits option.splits)

lemma read_matches_None:
  "read_matches e m2h ms h = (h', None) \<Longrightarrow>
     map fst h' = map fst h @ map m2h ms \<and> distinct (map m2h ms) \<and> fst ` set h \<inter> m2h ` set ms = {}"
proof (induction ms arbitrary: h)
  case (Cons m ms)
  obtain h1 where r: "readHostConfig e (m2h m) m h = (h1, None)" and rs: "read_matches e m2h ms h1 = (h', None)"
    using Cons.prems by (auto split: prod.splits option.splits)
  have k: "fst ` set h1 = insert (m2h m) (fst ` set h)"
    using arg_cong [of _ _ set, OF conjunct2 [OF readHostConfig_None [OF r]]] by auto
  show ?case
    using readHostConfig_None [OF r] Cons.IH [OF rs] k by auto
qed simp

lemma readGlob_None:
  assumes "readGlob e pat m2h h = (h', None)"
  obtains ms where "glob (sys e) pat = Ok ms" and "map fst h' = map fst h @ map m2h ms"
    and "distinct (map m2h ms)" and "fst ` set h \<inter> m2h ` set ms = {}"
  using assms read_matches_None by (auto simp: readGlob_def split: sum.splits)

lemma iter_keys: "env_ok e \<Longrightarrow> fst ` set (iter e h) = fst ` set h"
  by (simp add: env_ok_def)

lemma readHooks_keys: "env_ok e \<Longrightarrow> fst ` set (fst (readHooks e root h)) = fst ` set h"
proof -
  have "map fst (fst (read_hooks_loop f root h)) = map fst h" for f h
    using arg_cong [OF read_hooks_loop_shape [of f root h], of "map fst"] by (simp add: case_prod_unfold comp_def)
  then have "fst ` set (fst (read_hooks_loop (sys e) root (iter e h))) = fst ` set (iter e h)"
    by (metis image_set)
  moreover assume "env_ok e"
  ultimately show ?thesis by (simp add: readHooks_def iter_keys)
qed

text \<open>The directory of an environment, as the patterns of \<open>reload\<close> see it.\<close>

definition variantA :: "env \<Rightarrow> string \<Rightarrow> (conf_error, string list) outcome" where
  "variantA e root = glob (sys e) (path_join [root, ''hosts/*/config.yml''])"

definition variantB :: "env \<Rightarrow> string \<Rightarrow> (conf_error, string list) outcome" where
  "variantB e root = glob (sys e) (path_join [root, ''hosts/*.yml''])"

lemma reload_hosts_success:
  assumes "env_ok e" and "reload_hosts e g t = (t', None)"
  obtains as bs where "variantA e (t_root t) = Ok as" and "variantB e (t_root t) = Ok bs"
    and "distinct (map pathToHostVariantA as @ map pathToHostVariantB bs)"
    and "set (Hosts t') = pathToHostVariantA ` set as \<union> pathToHostVariantB ` set bs"
proof -
  obtain h1 e1 where r1: "readGlob e (path_join [t_root t, ''hosts/*/config.yml'']) pathToHostVariantA [] = (h1, e1)"
    by fastforce
  obtain h2 e2 where r2: "readGlob e (path_join [t_root t, ''hosts/*.yml'']) pathToHostVariantB h1 = (h2, e2)"
    by fastforce
  obtain h3 e3 where r3: "readHooks e (t_root t) h2 = (h3, e3)" by fastforce
  have none: "e1 = None" "e2 = None" "e3 = None"
    and t': "t' = t\<lparr>t_hosts := merge_hosts (grow e) (iter e h3) g\<rparr>"
    using assms(2) by (auto simp: reload_hosts_def r1 r2 r3 split: option.splits)
  obtain as where a: "glob (sys e) (path_join [t_root t, ''hosts/*/config.yml'']) = Ok as"
    "map fst h1 = map pathToHostVariantA as" "distinct (map pathToHostVariantA as)"
    using readGlob_None [OF r1 [unfolded none]] by auto
  obtain bs where b: "glob (sys e) (path_join [t_root t, ''hosts/*.yml'']) = Ok bs"
    "map fst h2 = map fst h1 @ map pathToHostVariantB bs" "distinct (map pathToHostVariantB bs)"
    "fst ` set h1 \<inter> pathToHostVariantB ` set bs = {}"
    using readGlob_None [OF r2 [unfolded none]] by auto
  have k1: "fst ` set h1 = pathToHostVariantA ` set as" using a(2) by (metis image_set)
  have k2: "fst ` set h2 = pathToHostVariantA ` set as \<union> pathToHostVariantB ` set bs"
    using arg_cong [OF b(2), of set] k1 by simp
  have "set (Hosts t') = set (map fst (merge_hosts (grow e) (iter e h3) g))"
    by (simp add: Hosts_def t')
  also have "\<dots> = set (map fst (iter e h3))"
    using merge_hosts_keys [of "grow e" "iter e h3" g] assms(1) by (simp only: env_ok_def simp_thms)
  also have "\<dots> = fst ` set (iter e h3)" by simp
  also have "\<dots> = fst ` set h2"
    using readHooks_keys [OF assms(1), of "t_root t" h2] iter_keys [OF assms(1)] by (simp add: r3)
  finally show ?thesis
    using that [of as bs] a(1,3) b(1,3,4) k1 k2 by (simp add: variantA_def variantB_def)
qed

lemma reload_success:
  assumes "reload e t = (t', None)"
  obtains svc g where "reload_hosts e g (t\<lparr>t_root := (if t_root t = [] then default_root e else t_root t),
        t_service := Some svc, t_global := Some g\<rparr>) = (t', None)"
    and "t_service t' = Some svc"
proof -
  let ?r = "if t_root t = [] then default_root e else t_root t"
  obtain svc g where r: "reload_hosts e g (t\<lparr>t_root := ?r, t_service := Some svc, t_global := Some g\<rparr>) = (t', None)"
    using assms by (cases t) (auto simp: reload_def Let_def split: prod.splits option.splits if_splits)
  moreover from r have "t_service t' = Some svc"
    by (auto simp: reload_hosts_def split: prod.splits option.splits)
  ultimately show ?thesis by (rule that)
qed

text \<open>The host names the two variants of file names stand for.\<close>

lemma plain_comp_yml: "plain_comp h \<Longrightarrow> plain_comp (h @ ''.yml'')"
  by (cases h; cases "tl h") (auto simp: plain_comp_def)

lemma variantA_name:
  assumes "list_all plain_comp cs" and "plain_comp h"
  shows "pathToHostVariantA (abs_path (cs @ [''hosts'', h, ''config.yml''])) = h"
proof -
  have "path_dir (abs_path ((cs @ [''hosts'', h]) @ [''config.yml''])) = abs_path (cs @ [''hosts'', h])"
    using assms by (intro path_dir_abs) (auto simp: plain_comp_def)
  moreover have "path_base (abs_path ((cs @ [''hosts'']) @ [h])) = h"
    using assms(2) by (rule path_base_abs)
  ultimately show ?thesis by (simp add: pathToHostVariantA_def)
qed

lemma variantB_name:
  assumes "plain_comp h"
  shows "pathToHostVariantB (abs_path (cs @ [''hosts'', h @ ''.yml''])) = h"
proof -
  have "path_base (abs_path ((cs @ [''hosts'']) @ [h @ ''.yml''])) = h @ ''.yml''"
    using plain_comp_yml [OF assms] by (rule path_base_abs)
  then show ?thesis by (simp add: pathToHostVariantB_def trim_suffix_append)
qed

section \<open>Where hooks are looked for\<close>

lemma abs_path_inj:
  "list_all plain_comp cs \<Longrightarrow> list_all plain_comp ds \<Longrightarrow> abs_path cs = abs_path ds \<longleftrightarrow> cs = ds"
  by (metis abs_path_def list.inject path_comps_join)

lemma path_join_hook:
  assumes "list_all plain_comp cs" and "plain_comp h" and "plain_comp x"
  shows "path_join [abs_path cs, h, x] = abs_path (cs @ [h, x])"
proof -
  have ne: "abs_path cs \<noteq> []" "h \<noteq> []" "x \<noteq> []" using assms by (auto simp: abs_path_def plain_comp_def)
  have "path_join [abs_path cs, h, x] = clean (slash # (join ''/'' cs @ ''/'' @ h @ ''/'' @ x))"
    using ne by (simp add: path_join_def abs_path_def)
  moreover have "path_comps (join ''/'' cs @ ''/'' @ h @ ''/'' @ x) = cs @ [h, x]"
  proof (cases "cs = []")
    case True
    have "path_comps (''/'' @ h @ ''/'' @ x) = clean_go True [] ([] # split_on slash (h @ slash # x))"
      by (simp add: path_comps_def)
    also have "split_on slash (h @ slash # x) = [h, x]"
      using assms by (simp add: split_on_append_sep split_on_no_sep plain_comp_def)
    finally have "path_comps (''/'' @ h @ ''/'' @ x) = clean_go True [] [h, x]" by simp
    also have "\<dots> = [h, x]" using assms clean_go_plain [of "[h, x]"] by simp
    finally show ?thesis using True by simp
  next
    case False
    then have "join ''/'' cs @ ''/'' @ h @ ''/'' @ x = join ''/'' ((cs @ [h]) @ [x])"
      using join_snoc [of "cs @ [h]" "''/''" x] join_snoc [of cs "''/''" h] by simp
    then show ?thesis using assms by (simp add: path_comps_join)
  qed
  ultimately show ?thesis by (simp add: clean_rooted abs_path_def)
qed

text \<open>Two file systems that differ only in the scripts below \<open>hosts/\<close>.\<close>

definition same_outside_hosts :: "string list \<Rightarrow> fs \<Rightarrow> fs \<Rightarrow> bool" where
  "same_outside_hosts cs f f' \<longleftrightarrow> open_file f = open_file f'
     \<and> (\<forall>p. (\<forall>h x. plain_comp h \<and> plain_comp x \<longrightarrow> p \<noteq> abs_path (cs @ [''hosts'', h, x])) \<longrightarrow> glob f p = glob f' p)"

lemma readFiles_outside_hosts:
  assumes "same_outside_hosts cs f f'" and "list_all plain_comp cs" and "plain_comp h" and "plain_comp x"
  shows "readFiles f (abs_path cs) h x s = readFiles f' (abs_path cs) h x s"
proof -
  have o: "open_file f = open_file f'" using assms(1) by (simp add: same_outside_hosts_def)
  have r: "readScriptFile f = readScriptFile f'" by (simp add: fun_eq_iff readScriptFile_def o)
  have loop: "read_files_loop f ns s = read_files_loop f' ns s" for ns s
    by (induction ns arbitrary: s) (simp_all add: r split: sum.split)
  have "abs_path (cs @ [h, x]) \<noteq> abs_path (cs @ [''hosts'', h', x'])" if "plain_comp h'" "plain_comp x'" for h' x'
    using assms(2-4) that abs_path_inj [of "cs @ [h, x]" "cs @ [''hosts'', h', x']"]
    by (simp add: plain_comp_def)
  then have "glob f (abs_path (cs @ [h, x])) = glob f' (abs_path (cs @ [h, x]))"
    using assms(1) by (simp add: same_outside_hosts_def)
  then show ?thesis
    using path_join_hook [OF assms(2-4)] by (simp add: readFiles_def loop [abs_def] split: sum.split)
qed

lemma read_hooks_outside_hosts:
  assumes "same_outside_hosts cs f f'" and "list_all plain_comp cs" and "list_all (plain_comp \<circ> fst) hs"
  shows "read_hooks_loop f (abs_path cs) hs = read_hooks_loop f' (abs_path cs) hs"
  using assms(3)
proof (induction hs)
  case (Cons hj hs)
  obtain h j where hj: "hj = (h, j)" by fastforce
  have "plain_comp h" using Cons.prems hj by simp
  then have "readFiles f (abs_path cs) h x s = readFiles f' (abs_path cs) h x s"
    if "x = ''pre.*.sh'' \<or> x = ''post.*.sh''" for x s
    using readFiles_outside_hosts [OF assms(1,2)] that by (auto simp: plain_comp_def)
  then show ?case using Cons hj by (simp split: prod.split option.split)
qed simp

section \<open>Properties\<close>

text \<open>A life of the tree: every operation sees its own file system.\<close>

definition tree_init :: "tree \<Rightarrow> bool" where
  "tree_init t \<longleftrightarrow> (\<exists>r. t = NewTree r)"

datatype tree_op = OpReload | OpSetRoot string

definition tree_step :: "tree \<Rightarrow> tree_op \<Rightarrow> tree \<Rightarrow> bool" where
  "tree_step t op t' \<longleftrightarrow>
     (\<exists>e. env_ok e \<and> t' = fst (case op of OpReload \<Rightarrow> reload e t | OpSetRoot r \<Rightarrow> SetRoot e r t))"

interpretation tree_life: invariant_of tree_init tree_step tree_ok
proof
  fix t t' :: tree and op
  show "tree_init t \<Longrightarrow> tree_ok t" by (auto simp: tree_init_def NewTree_ok)
  show "tree_ok t \<Longrightarrow> tree_step t op t' \<Longrightarrow> tree_ok t'"
    by (cases op) (auto simp: tree_step_def intro: reload_ok [OF _ _ prod.collapse [symmetric]]
        SetRoot_ok [OF _ _ prod.collapse [symmetric]])
qed

text \<open>After any sequence of reloads and changes of the root directory, failed ones included, the
  tree lists its hosts sorted and without duplicates, and exactly the listed hosts have a
  configuration, which carries their name.\<close>

theorem tree_queries_consistent:
  assumes "reachable tree_init tree_step t"
  shows "sorted (Hosts t) \<and> distinct (Hosts t)
    \<and> (h \<in> set (Hosts t) \<longleftrightarrow> (\<exists>j. tree_Host t h = Some j))
    \<and> map (\<lambda>h. Host (the (tree_Host t h))) (Hosts t) = Hosts t"
  using tree_life.inv_reachable [OF assms] zackup_tree.hosts_sorted zackup_tree.hosts_distinct
    zackup_tree.hosts_known [of t h] zackup_tree.names_of_all
  by (auto simp: Host_def)

lemma tree_queries_consistent_witness: "sorted (Hosts (NewTree ''/etc/zackup''))"
proof -
  have "reachable tree_init tree_step (NewTree ''/etc/zackup'')"
    by (rule reachable_init) (auto simp: tree_init_def)
  then show ?thesis using tree_queries_consistent [of "NewTree ''/etc/zackup''" "[]"] by simp
qed

lemma reload_found:
  assumes "env_ok e" and "reload e t = (t', None)" and "t_root t \<noteq> []"
  obtains as bs where "variantA e (t_root t) = Ok as" and "variantB e (t_root t) = Ok bs"
    and "distinct (map pathToHostVariantA as @ map pathToHostVariantB bs)"
    and "set (Hosts t') = pathToHostVariantA ` set as \<union> pathToHostVariantB ` set bs"
    and "Service t' \<noteq> None"
proof (rule reload_success [OF assms(2)])
  fix svc g
  assume r: "reload_hosts e g (t\<lparr>t_root := (if t_root t = [] then default_root e else t_root t),
      t_service := Some svc, t_global := Some g\<rparr>) = (t', None)" and s: "t_service t' = Some svc"
  show ?thesis
    by (rule reload_hosts_success [OF assms(1) r], rule that) (use assms(3) s in \<open>simp_all add: Service_def\<close>)
qed

text \<open>C16: A successful reload leaves exactly the hosts of the two variants of configuration files, each
  found once.\<close>

theorem reload_finds_hosts:
  assumes "env_ok e" and "reload e t = (t', None)" and "t_root t \<noteq> []"
  shows "\<exists>as bs. variantA e (t_root t) = Ok as \<and> variantB e (t_root t) = Ok bs
    \<and> distinct (map pathToHostVariantA as @ map pathToHostVariantB bs)
    \<and> set (Hosts t') = pathToHostVariantA ` set as \<union> pathToHostVariantB ` set bs
    \<and> Service t' \<noteq> None"
  by (rule reload_found [OF assms]) blast

text \<open>An environment with one host in each variant.\<close>

definition example_env :: "string list \<Rightarrow> string list \<Rightarrow> env" where
  "example_env as bs =
     \<lparr>sys = \<lparr>glob = (\<lambda>p. if p = ''/z/hosts/*/config.yml'' then Ok as else if p = ''/z/hosts/*.yml'' then Ok bs else Ok []),
            open_file = (\<lambda>_. Ok [])\<rparr>,
      yaml_service = (\<lambda>_. (zero_service, None)), yaml_job = (\<lambda>_. (new_job [], None)), iter = (\<lambda>xs. xs),
      grow = go_grow, default_root = DefaultRoot_linux\<rparr>"

lemma example_env_ok: "env_ok (example_env as bs)"
  by (simp add: env_ok_def example_env_def go_grow_ok)

lemma example_paths:
  "path_join [''/z'', ''hosts/*/config.yml''] = ''/z/hosts/*/config.yml''"
  "path_join [''/z'', ''hosts/*.yml''] = ''/z/hosts/*.yml''"
  "path_join [''/z'', ''a'', ''pre.*.sh''] = ''/z/a/pre.*.sh''"
  "path_join [''/z'', ''a'', ''post.*.sh''] = ''/z/a/post.*.sh''"
  "path_join [''/z'', ''b'', ''pre.*.sh''] = ''/z/b/pre.*.sh''"
  "path_join [''/z'', ''b'', ''post.*.sh''] = ''/z/b/post.*.sh''"
  "pathToHostVariantA ''/z/hosts/a/config.yml'' = ''a''"
  "pathToHostVariantB ''/z/hosts/a.yml'' = ''a''"
  "pathToHostVariantB ''/z/hosts/b.yml'' = ''b''"
  by code_simp+

lemma reload_finds_hosts_witness:
  "set (Hosts (fst (reload (example_env [''/z/hosts/a/config.yml''] [''/z/hosts/b.yml'']) (NewTree ''/z'')))) = {''a'', ''b''}"
proof -
  let ?e = "example_env [''/z/hosts/a/config.yml''] [''/z/hosts/b.yml'']"
  have A: "readGlob ?e ''/z/hosts/*/config.yml'' pathToHostVariantA [] = ([(''a'', new_job ''a'')], None)"
    by (simp add: readGlob_def readHostConfig_def example_env_def example_paths new_job_def)
  have B: "readGlob ?e ''/z/hosts/*.yml'' pathToHostVariantB [(''a'', new_job ''a'')]
      = ([(''a'', new_job ''a''), (''b'', new_job ''b'')], None)"
    by (simp add: readGlob_def readHostConfig_def example_env_def example_paths new_job_def)
  have H: "readHooks ?e ''/z'' [(''a'', new_job ''a''), (''b'', new_job ''b'')]
      = ([(''a'', new_job ''a''), (''b'', new_job ''b'')], None)"
    by (simp add: readHooks_def readFiles_def example_env_def example_paths new_job_def)
  have "snd (reload ?e (NewTree ''/z'')) = None"
    by (simp add: reload_def reload_hosts_def A B H decodeYaml_def NewTree_def example_paths)
      (simp add: example_env_def)
  then have r: "reload ?e (NewTree ''/z'') = (fst (reload ?e (NewTree ''/z'')), None)" by (metis prod.collapse)
  from reload_finds_hosts [OF example_env_ok r] show ?thesis
    by (auto simp: variantA_def variantB_def example_paths NewTree_def) (auto simp: example_env_def example_paths)
qed

text \<open>A host that has a configuration in both variants makes the reload fail.\<close>

theorem both_variants_fail:
  assumes "env_ok e" and "t_root t \<noteq> []"
    and "variantA e (t_root t) = Ok as" and "variantB e (t_root t) = Ok bs"
    and "a \<in> set as" and "b \<in> set bs" and "pathToHostVariantA a = pathToHostVariantB b"
  shows "\<exists>t' err. reload e t = (t', Some err)"
proof (rule ccontr)
  assume "\<not> (\<exists>t' err. reload e t = (t', Some err))"
  then obtain t' where "reload e t = (t', None)" by (cases "reload e t"; cases "snd (reload e t)") auto
  then have "pathToHostVariantA ` set as \<inter> pathToHostVariantB ` set bs = {}"
    by (rule reload_found [OF assms(1) _ assms(2)]) (use assms(3,4) in auto)
  then show False using assms(5-7) by auto
qed

lemma both_variants_fail_witness:
  "\<exists>t' err. reload (example_env [''/z/hosts/a/config.yml''] [''/z/hosts/a.yml'']) (NewTree ''/z'') = (t', Some err)"
proof (rule both_variants_fail [OF example_env_ok])
  let ?e = "example_env [''/z/hosts/a/config.yml''] [''/z/hosts/a.yml'']"
  show "t_root (NewTree ''/z'') \<noteq> []" by (simp add: NewTree_def)
  show "variantA ?e (t_root (NewTree ''/z'')) = Ok [''/z/hosts/a/config.yml'']"
    "variantB ?e (t_root (NewTree ''/z'')) = Ok [''/z/hosts/a.yml'']"
    by (simp_all add: variantA_def variantB_def NewTree_def example_paths) (simp_all add: example_env_def)
  show "pathToHostVariantA ''/z/hosts/a/config.yml'' = pathToHostVariantB ''/z/hosts/a.yml''"
    by (simp only: example_paths)
qed simp_all

text \<open>After \<open>SetRoot\<close>, whether it failed or not, a second call with the same directory reports
  success and does nothing: a failed load is not retried.\<close>

theorem SetRoot_not_retried:
  assumes "r \<noteq> []"
  shows "SetRoot e' r (fst (SetRoot e r t)) = (fst (SetRoot e r t), None)"
proof -
  have "t_root (fst (reload e t')) = t_root t'" if "t_root t' \<noteq> []" for t'
    using that by (simp add: reload_def reload_hosts_def Let_def split: prod.split option.split)
  then have "t_root (fst (SetRoot e r t)) = r" using assms by (simp add: SetRoot_def)
  then show ?thesis by (simp add: SetRoot_def)
qed

lemma SetRoot_not_retried_witness:
  "SetRoot (example_env [] []) ''/z'' (fst (SetRoot (example_env [] []) ''/z'' (NewTree [])))
    = (fst (SetRoot (example_env [] []) ''/z'' (NewTree [])), None)"
  using SetRoot_not_retried [of "''/z''" "example_env [] []" "example_env [] []" "NewTree []"] by simp

text \<open>The hook scripts are looked for in the host's directory directly below the root: two file
  systems that differ only in the files of the directories below \<open>hosts/\<close>, where the host's
  configuration lives, give every host the same scripts.\<close>

theorem hooks_ignore_host_directories:
  assumes "same_outside_hosts cs f f'" and "list_all plain_comp cs" and "list_all (plain_comp \<circ> fst) hs"
  shows "read_hooks_loop f (abs_path cs) hs = read_hooks_loop f' (abs_path cs) hs"
  using assms by (rule read_hooks_outside_hosts)

lemma hooks_ignore_host_directories_witness:
  "read_hooks_loop \<lparr>glob = (\<lambda>p. if p = ''/z/hosts/a/pre.*.sh'' then Ok [''/z/hosts/a/pre.1.sh''] else Ok []),
        open_file = (\<lambda>_. Ok ''echo'')\<rparr> ''/z'' [(''a'', new_job ''a'')]
    = read_hooks_loop \<lparr>glob = (\<lambda>_. Ok []), open_file = (\<lambda>_. Ok ''echo'')\<rparr> ''/z'' [(''a'', new_job ''a'')]"
proof -
  have h: "abs_path ([''z''] @ [''hosts'', ''a'', ''pre.*.sh'']) = ''/z/hosts/a/pre.*.sh''" "abs_path [''z''] = ''/z''"
    by (simp_all add: abs_path_def)
  have c: "list_all plain_comp [''z'']" "list_all (plain_comp \<circ> fst) [(''a'', new_job ''a'')]"
      "plain_comp ''a''" "plain_comp ''pre.*.sh''"
    by (simp_all add: plain_comp_def)
  have "same_outside_hosts [''z'']
     \<lparr>glob = (\<lambda>p. if p = ''/z/hosts/a/pre.*.sh'' then Ok [''/z/hosts/a/pre.1.sh''] else Ok []), open_file = (\<lambda>_. Ok ''echo'')\<rparr>
     \<lparr>glob = (\<lambda>_. Ok []), open_file = (\<lambda>_. Ok ''echo'')\<rparr>"
    using h(1) c(3,4) by (fastforce simp: same_outside_hosts_def)
  from hooks_ignore_host_directories [OF this c(1,2)] show ?thesis by (simp only: h(2))
qed

end
