(* ===== verification/App_State.thy ===== *)
theory App_State imports App_Metrics Config_Tree begin

text \<open>
  \<open>app/state.go\<close> and the variables of \<open>app/app.go\<close>: the metrics of all hosts, their life
  cycle during a backup, how they are stored as ZFS properties and restored from them. The
  mutex makes every operation one step. A call of the \<open>zfs\<close> command is its argument list; what
  a \<open>get\<close> answers (standard output, and whether it failed) is the parameter \<open>zfs\<close>.
\<close>

type_synonym argv = "string list"
type_synonym host_map = "(string \<times> metrics) list"

record app =
  a_hosts :: host_map
  a_tree :: tree
  v_RootDataset :: string
  v_MountBase :: string
  v_RSyncPath :: string
  v_SSHPath :: string

text \<open>The package variables before \<open>InitializeState\<close>.\<close>

definition initial_app :: "tree \<Rightarrow> app" where
  "initial_app t =
     \<lparr>a_hosts = [], a_tree = t, v_RootDataset = ''zroot'', v_MountBase = ''/zpool/zackup'',
      v_RSyncPath = ''rsync'', v_SSHPath = ''ssh''\<rparr>"

section \<open>Storing\<close>

definition storeStart :: "app \<Rightarrow> string \<Rightarrow> time \<Rightarrow> argv" where
  "storeStart st host t =
     [''set'', propZackupLastStart @ ''='' @ int_str (unix t), path_join [v_RootDataset st, host]]"

definition storeResult :: "app \<Rightarrow> string \<Rightarrow> bool \<Rightarrow> time \<Rightarrow> duration \<Rightarrow> argv" where
  "storeResult st host success t dur =
     (let (propTime, propDur) =
        (if success then (propZackupLastSuccessDate, propZackupLastSuccessDuration)
         else (propZackupLastFailureDate, propZackupLastFailureDuration))
      in [''set'', propTime @ ''='' @ int_str (unix t), propDur @ ''='' @ int_str (dur sdiv millisecond),
          path_join [v_RootDataset st, host]])"

section \<open>The life cycle of a backup\<close>

text \<open>Each returns the new state and the \<open>zfs\<close> calls made. \<open>t\<close> is \<open>time.Now().UTC()\<close>.\<close>

definition start :: "string \<Rightarrow> time \<Rightarrow> app \<Rightarrow> app \<times> argv list" where
  "start host t st =
     (let m = (case map_of (a_hosts st) host of
                 Some m \<Rightarrow> m\<lparr>StartedAt := t\<rparr>
               | None \<Rightarrow> zero_metrics\<lparr>StartedAt := t\<rparr>)
      in (st\<lparr>a_hosts := AList.update host m (a_hosts st)\<rparr>, [storeStart st host t]))"

definition run_time :: "time \<Rightarrow> metrics \<Rightarrow> duration" where
  "run_time t m = trunc_dur (time_sub t (StartedAt m)) millisecond"

definition success :: "string \<Rightarrow> time \<Rightarrow> app \<Rightarrow> app \<times> argv list" where
  "success host t st =
     (case map_of (a_hosts st) host of
        Some m \<Rightarrow>
          (let m' = m\<lparr>SucceededAt := Some t, SuccessDuration := run_time t m\<rparr>
           in (st\<lparr>a_hosts := AList.update host m' (a_hosts st)\<rparr>, [storeResult st host True t (SuccessDuration m')]))
      | None \<Rightarrow> (st, []))"

definition failure :: "string \<Rightarrow> time \<Rightarrow> app \<Rightarrow> app \<times> argv list" where
  "failure host t st =
     (case map_of (a_hosts st) host of
        Some m \<Rightarrow>
          (let m' = m\<lparr>FailedAt := Some t, FailureDuration := run_time t m\<rparr>
           in (st\<lparr>a_hosts := AList.update host m' (a_hosts st)\<rparr>, [storeResult st host False t (FailureDuration m')]))
      | None \<Rightarrow> (st, []))"

text \<open>\<open>None\<close> is the panic on a tree without a service configuration.\<close>

definition reschedule :: "(int \<Rightarrow> int) \<Rightarrow> string \<Rightarrow> time \<Rightarrow> app \<Rightarrow> app option" where
  "reschedule rnd host t st =
     (case map_of (a_hosts st) host of
        Some m \<Rightarrow>
          (case Service (a_tree st) of
             Some svc \<Rightarrow>
               Some (st\<lparr>a_hosts := AList.update host (m\<lparr>ScheduledAt := NextSchedule rnd svc t\<rparr>) (a_hosts st)\<rparr>)
           | None \<Rightarrow> None)
      | None \<Rightarrow> Some st)"

section \<open>Restoring\<close>

definition tab :: char where
  "tab = CHR 0x09"

definition load_args :: "string \<Rightarrow> argv" where
  "load_args dataset =
     [''get'', ''-H'', ''-p'', ''-t'', ''filesystem'', ''-s'', ''local,none'', ''-o'', ''name,property,value'',
      zackupProps, dataset]"

text \<open>One line of the output of \<open>zfs get\<close>. The decoder's error does not undo its update.\<close>

definition load_line ::
  "(string \<Rightarrow> (string, float64) outcome) \<Rightarrow> string \<Rightarrow> string \<Rightarrow> host_map \<Rightarrow> string \<Rightarrow> host_map" where
  "load_line pf dataset rds hosts line =
     (let cols = fields_by tab line
      in if length cols \<noteq> 3 then hosts
         else if cols ! 0 \<noteq> dataset then hosts
         else if cols ! 2 = ''-'' then hosts
         else case map_of (propDecoder pf) (cols ! 1) of
                None \<Rightarrow> hosts
              | Some dec \<Rightarrow>
                  (let host = trim_prefix (cols ! 0) rds;
                       met = (case map_of hosts host of Some m \<Rightarrow> m | None \<Rightarrow> zero_metrics)
                   in AList.update host (fst (dec met (cols ! 2))) hosts))"

definition loadHost ::
  "(string \<Rightarrow> (string, float64) outcome) \<Rightarrow> (argv \<Rightarrow> string \<times> bool) \<Rightarrow> string \<Rightarrow> app \<Rightarrow> app \<times> scan_error option" where
  "loadHost pf zfs host st =
     (let dataset = path_join [v_RootDataset st, host]
      in case zfs (load_args dataset) of
           (_, True) \<Rightarrow> (st, None)
         | (out, False) \<Rightarrow>
             (let rds = v_RootDataset st @ ''/'';
                  (lines, err) = scan_lines out
              in (st\<lparr>a_hosts := foldl (load_line pf dataset rds) (a_hosts st) lines\<rparr>, err)))"

text \<open>One round of the loop in \<open>load\<close>: \<open>next\<close> is the schedule of a host met for the first time.\<close>

definition load_host_entry :: "string \<Rightarrow> time \<Rightarrow> app \<Rightarrow> app" where
  "load_host_entry host next st =
     (let hosts = (case map_of (a_hosts st) host of
                     Some _ \<Rightarrow> a_hosts st
                   | None \<Rightarrow> AList.update host (zero_metrics\<lparr>ScheduledAt := next\<rparr>) (a_hosts st));
          m = (case map_of hosts host of Some m \<Rightarrow> m | None \<Rightarrow> zero_metrics);
          hosts = (case tree_Host (a_tree st) host of
                     Some job \<Rightarrow> AList.update host (m\<lparr>m_job := Some job\<rparr>) hosts
                   | None \<Rightarrow> hosts)
      in st\<lparr>a_hosts := hosts\<rparr>)"

fun load_loop ::
  "(string \<Rightarrow> (string, float64) outcome) \<Rightarrow> (argv \<Rightarrow> string \<times> bool) \<Rightarrow> (string \<Rightarrow> time) \<Rightarrow> string list
     \<Rightarrow> app \<Rightarrow> app \<times> scan_error option" where
  "load_loop pf zfs next [] st = (st, None)"
| "load_loop pf zfs next (host # hosts) st =
     (case loadHost pf zfs host (load_host_entry host (next host) st) of
        (st', Some err) \<Rightarrow> (st', Some err)
      | (st', None) \<Rightarrow> load_loop pf zfs next hosts st')"

text \<open>\<open>rnd h\<close> is the random generator at the call for host \<open>h\<close>.\<close>

definition load ::
  "(string \<Rightarrow> (string, float64) outcome) \<Rightarrow> (argv \<Rightarrow> string \<times> bool) \<Rightarrow> (string \<Rightarrow> int \<Rightarrow> int) \<Rightarrow> time
     \<Rightarrow> service_config \<Rightarrow> app \<Rightarrow> app \<times> scan_error option" where
  "load pf zfs rnd now svc st =
     load_loop pf zfs (\<lambda>h. NextSchedule (rnd h) svc now) (Hosts (a_tree st)) st"

definition InitializeState ::
  "(string \<Rightarrow> (string, float64) outcome) \<Rightarrow> (argv \<Rightarrow> string \<times> bool) \<Rightarrow> (string \<Rightarrow> int \<Rightarrow> int) \<Rightarrow> time
     \<Rightarrow> tree \<Rightarrow> app \<Rightarrow> (app \<times> scan_error option) option" where
  "InitializeState pf zfs rnd now t st =
     (case Service t of
        None \<Rightarrow> None
      | Some svc \<Rightarrow>
          Some (load pf zfs rnd now svc
            (st\<lparr>a_hosts := [], a_tree := t, v_RootDataset := RootDataset svc, v_MountBase := MountBase svc,
               v_RSyncPath := (if RSyncPath svc \<noteq> [] then RSyncPath svc else v_RSyncPath st),
               v_SSHPath := (if SSHPath svc \<noteq> [] then SSHPath svc else v_SSHPath st)\<rparr>)))"

section \<open>Exporting\<close>

text \<open>A snapshot: \<open>HostMetrics\<close> is a host with its metrics, copied field by field, all but the job.\<close>

type_synonym host_metrics = "string \<times> metrics"

definition export_metrics :: "metrics \<Rightarrow> metrics" where
  "export_metrics met =
     \<lparr>m_job = None, ScheduledAt = ScheduledAt met, StartedAt = StartedAt met, SucceededAt = SucceededAt met,
      SuccessDuration = SuccessDuration met, FailedAt = FailedAt met, FailureDuration = FailureDuration met,
      SpaceUsedBySnapshots = SpaceUsedBySnapshots met, SpaceUsedByDataset = SpaceUsedByDataset met,
      SpaceUsedByChildren = SpaceUsedByChildren met, SpaceUsedByRefReservation = SpaceUsedByRefReservation met,
      CompressionFactor = CompressionFactor met\<rparr>"

definition export :: "app \<Rightarrow> host_metrics list" where
  "export st = sort_key fst (map (\<lambda>(host, met). (host, export_metrics met)) (a_hosts st))"

lemma export_metrics_eq: "export_metrics m = m\<lparr>m_job := None\<rparr>"
  by (simp add: export_metrics_def)

lemma export_eq: "export st = sort_key fst (map (\<lambda>(h, m). (h, m\<lparr>m_job := None\<rparr>)) (a_hosts st))"
  by (simp add: export_def export_metrics_eq)

section \<open>The map of hosts\<close>

definition app_ok :: "app \<Rightarrow> bool" where
  "app_ok st \<longleftrightarrow> distinct (map fst (a_hosts st))"

lemma load_line_distinct: "distinct (map fst hs) \<Longrightarrow> distinct (map fst (load_line pf ds rds hs l))"
  by (auto simp: load_line_def Let_def distinct_update split: option.split)

lemma load_lines_distinct: "distinct (map fst hs) \<Longrightarrow> distinct (map fst (foldl (load_line pf ds rds) hs ls))"
  by (induction ls arbitrary: hs) (simp_all add: load_line_distinct)

lemma loadHost_app_ok: "app_ok st \<Longrightarrow> loadHost pf zfs h st = (st', err) \<Longrightarrow> app_ok st'"
  by (auto simp: loadHost_def app_ok_def Let_def load_lines_distinct split: prod.splits bool.splits)

lemma load_host_entry_app_ok: "app_ok st \<Longrightarrow> app_ok (load_host_entry h n st)"
  by (simp add: load_host_entry_def app_ok_def Let_def distinct_update split: option.split)

lemma load_loop_app_ok: "app_ok st \<Longrightarrow> load_loop pf zfs n hs st = (st', err) \<Longrightarrow> app_ok st'"
  by (induction hs arbitrary: st)
    (auto split: prod.splits option.splits dest: loadHost_app_ok [rotated] intro: load_host_entry_app_ok)

lemma lifecycle_app_ok:
  "app_ok st \<Longrightarrow> app_ok (fst (start h t st))"
  "app_ok st \<Longrightarrow> app_ok (fst (success h t st))"
  "app_ok st \<Longrightarrow> app_ok (fst (failure h t st))"
  "app_ok st \<Longrightarrow> reschedule rnd h t st = Some st' \<Longrightarrow> app_ok st'"
  by (auto simp: start_def success_def failure_def reschedule_def app_ok_def Let_def distinct_update split: option.splits)

text \<open>What a line may do to the map: it touches one host, keeps its job and drops none.\<close>

lemma propDecoder_job: "(p, d) \<in> set (propDecoder pf) \<Longrightarrow> m_job (fst (d m v)) = m_job m"
  by (auto simp: propDecoder_def decode_uint_def decode_int_def decode_float_def split: sum.split)

lemma propDecoder_sched: "(p, d) \<in> set (propDecoder pf) \<Longrightarrow> ScheduledAt (fst (d m v)) = ScheduledAt m"
  by (auto simp: propDecoder_def decode_uint_def decode_int_def decode_float_def split: sum.split)

lemma load_line_job:
  "map_of hs h = Some m \<Longrightarrow> \<exists>m'. map_of (load_line pf ds rds hs l) h = Some m' \<and> m_job m' = m_job m"
  by (auto simp: load_line_def Let_def propDecoder_job [OF map_of_SomeD] split: option.split)

lemma load_lines_job:
  "map_of hs h = Some m \<Longrightarrow> \<exists>m'. map_of (foldl (load_line pf ds rds) hs ls) h = Some m' \<and> m_job m' = m_job m"
proof (induction ls arbitrary: hs m)
  case (Cons l ls)
  obtain m1 where "map_of (load_line pf ds rds hs l) h = Some m1" "m_job m1 = m_job m"
    using load_line_job [OF Cons.prems] by blast
  then show ?case using Cons.IH [of "load_line pf ds rds hs l" m1] by simp
qed simp

lemma loadHost_job:
  "map_of (a_hosts st) h = Some m \<Longrightarrow> loadHost pf zfs h' st = (st', err) \<Longrightarrow>
     \<exists>m'. map_of (a_hosts st') h = Some m' \<and> m_job m' = m_job m"
  by (auto simp: loadHost_def Let_def load_lines_job split: prod.splits bool.splits)

lemma loadHost_frame: "loadHost pf zfs h st = (st', err) \<Longrightarrow> a_tree st' = a_tree st \<and> v_RootDataset st' = v_RootDataset st"
  by (auto simp: loadHost_def Let_def split: prod.splits bool.splits)

lemma load_host_entry_frame [simp]:
  "a_tree (load_host_entry h n st) = a_tree st"
  "v_RootDataset (load_host_entry h n st) = v_RootDataset st"
  by (simp_all add: load_host_entry_def Let_def)

lemma load_host_entry_other:
  "h' \<noteq> h \<Longrightarrow> map_of (a_hosts (load_host_entry h n st)) h' = map_of (a_hosts st) h'"
  by (simp add: load_host_entry_def Let_def split: option.split)

lemma load_host_entry_same:
  "tree_Host (a_tree st) h = Some j \<Longrightarrow>
     \<exists>m. map_of (a_hosts (load_host_entry h n st)) h = Some m \<and> m_job m = Some j"
  by (simp add: load_host_entry_def Let_def)

lemma load_loop_job_kept:
  "map_of (a_hosts st) h = Some m \<Longrightarrow> m_job m = Some j \<Longrightarrow> tree_Host (a_tree st) h = Some j \<Longrightarrow>
     load_loop pf zfs n hs st = (st', err) \<Longrightarrow>
     \<exists>m'. map_of (a_hosts st') h = Some m' \<and> m_job m' = Some j"
proof (induction hs arbitrary: st m)
  case (Cons x hs)
  let ?e = "load_host_entry x (n x) st"
  obtain st1 e1 where l: "loadHost pf zfs x ?e = (st1, e1)" by fastforce
  obtain m1 where "map_of (a_hosts ?e) h = Some m1" "m_job m1 = Some j"
    using Cons.prems load_host_entry_other [of h x "n x" st] load_host_entry_same [of st x j "n x"]
    by (cases "h = x") auto
  then obtain m2 where m2: "map_of (a_hosts st1) h = Some m2" "m_job m2 = Some j"
    using loadHost_job [OF _ l] by force
  have t: "tree_Host (a_tree st1) h = Some j" using Cons.prems(3) loadHost_frame [OF l] by simp
  show ?case
  proof (cases e1)
    case None
    then show ?thesis using Cons.IH [OF m2 t] Cons.prems(4) l by simp
  next
    case (Some e)
    then show ?thesis using Cons.prems(4) l m2 by auto
  qed
qed simp

lemma load_loop_covers:
  "load_loop pf zfs n hs st = (st', None) \<Longrightarrow> h \<in> set hs \<Longrightarrow> tree_Host (a_tree st) h = Some j \<Longrightarrow>
     \<exists>m. map_of (a_hosts st') h = Some m \<and> m_job m = Some j"
proof (induction hs arbitrary: st)
  case (Cons x hs)
  let ?e = "load_host_entry x (n x) st"
  obtain st1 where l: "loadHost pf zfs x ?e = (st1, None)" and r: "load_loop pf zfs n hs st1 = (st', None)"
    using Cons.prems(1) by (auto split: prod.splits option.splits)
  have t: "tree_Host (a_tree st1) h = Some j" using Cons.prems(3) loadHost_frame [OF l] by simp
  show ?case
  proof (cases "h = x")
    case True
    obtain m1 where "map_of (a_hosts ?e) h = Some m1" "m_job m1 = Some j"
      using load_host_entry_same [of st x j "n x"] Cons.prems(3) True by auto
    then obtain m2 where "map_of (a_hosts st1) h = Some m2" "m_job m2 = Some j"
      using loadHost_job [OF _ l] by force
    then show ?thesis using load_loop_job_kept [OF _ _ t r] by blast
  next
    case False
    then show ?thesis using Cons.IH [OF r _ t] Cons.prems(2) by simp
  qed
qed simp

lemma distinct_map_sort_fst: "distinct (map fst (sort_key fst xs)) \<longleftrightarrow> distinct (map fst xs)"
  by (simp add: distinct_map)

section \<open>Properties\<close>

text \<open>A load that reports no error has an entry with its job for every host of the tree, and keeps
  one entry per host, whatever ZFS answered.\<close>

theorem load_covers_tree:
  assumes "app_ok st" and "load pf zfs rnd now svc st = (st', None)"
    and "h \<in> set (Hosts (a_tree st))"
  shows "app_ok st' \<and> (\<exists>m j. map_of (a_hosts st') h = Some m \<and> tree_Host (a_tree st) h = Some j \<and> m_job m = Some j)"
proof -
  obtain j where j: "tree_Host (a_tree st) h = Some j" using assms(3) Hosts_known by auto
  show ?thesis
    using load_loop_app_ok [OF assms(1)] load_loop_covers [OF _ assms(3) j] assms(2) j
    by (auto simp: load_def)
qed

lemma load_covers_tree_witness:
  "\<exists>st' m. load (\<lambda>_. Err []) (\<lambda>_. ([], True)) (\<lambda>_ _. 0) 0 zero_service
        (initial_app ((NewTree ''/z'')\<lparr>t_hosts := [(''a'', new_job ''a'')]\<rparr>)) = (st', None)
    \<and> map_of (a_hosts st') ''a'' = Some m \<and> m_job m = Some (new_job ''a'')"
proof -
  let ?st = "initial_app ((NewTree ''/z'')\<lparr>t_hosts := [(''a'', new_job ''a'')]\<rparr>)"
  let ?load = "load (\<lambda>_. Err []) (\<lambda>_. ([], True)) (\<lambda>_ _. 0) 0 zero_service ?st"
  have "snd ?load = None"
    by (simp add: load_def initial_app_def Hosts_def loadHost_def Let_def split: prod.split)
  then have "?load = (fst ?load, None)" by (metis prod.collapse)
  moreover have "app_ok ?st" "''a'' \<in> set (Hosts (a_tree ?st))" "tree_Host (a_tree ?st) ''a'' = Some (new_job ''a'')"
    by (simp_all add: app_ok_def initial_app_def Hosts_def tree_Host_eq)
  ultimately have "\<exists>m. map_of (a_hosts (fst ?load)) ''a'' = Some m \<and> m_job m = Some (new_job ''a'')"
    using load_covers_tree [of ?st _ _ _ _ _ _ "''a''"] by fastforce
  then show ?thesis using \<open>?load = (fst ?load, None)\<close> by blast
qed

text \<open>What the export shows is a snapshot in the order of the hosts: one entry per host, without its
  job, and with the status the host has.\<close>

theorem export_snapshot:
  assumes "app_ok st"
  shows "sorted (map fst (export st)) \<and> distinct (map fst (export st))
    \<and> map_of (export st) h = map_option (\<lambda>m. m\<lparr>m_job := None\<rparr>) (map_of (a_hosts st) h)
    \<and> map_option Status (map_of (export st) h) = map_option Status (map_of (a_hosts st) h)"
proof -
  let ?xs = "map (\<lambda>(h, m). (h, m\<lparr>m_job := None\<rparr>)) (a_hosts st)"
  have k: "map fst ?xs = map fst (a_hosts st)" by (simp add: case_prod_unfold comp_def)
  have d: "distinct (map fst (export st))"
    using assms unfolding export_eq app_ok_def distinct_map_sort_fst k .
  moreover have "distinct (map fst ?xs)" using assms by (simp only: k app_ok_def)
  ultimately have "map_of (export st) = map_of ?xs" by (simp add: map_of_inject_set export_eq)
  moreover have "map_of ?xs h = map_option (\<lambda>m. m\<lparr>m_job := None\<rparr>) (map_of (a_hosts st) h)"
    by (simp add: map_of_map)
  ultimately have e: "map_of (export st) h = map_option (\<lambda>m. m\<lparr>m_job := None\<rparr>) (map_of (a_hosts st) h)" by simp
  have "Status (m\<lparr>m_job := None\<rparr>) = Status m" for m by (simp add: Status_def)
  with e d show ?thesis by (simp add: export_eq option.map_comp comp_def)
qed

lemma export_snapshot_witness:
  "map_of (export ((initial_app (NewTree []))\<lparr>a_hosts := [(''b'', zero_metrics), (''a'', zero_metrics)]\<rparr>)) ''a''
    = Some zero_metrics"
  using export_snapshot [of "(initial_app (NewTree []))\<lparr>a_hosts := [(''b'', zero_metrics), (''a'', zero_metrics)]\<rparr>" "''a''"]
  by (simp add: app_ok_def zero_metrics_def)

text \<open>A backup that starts after every earlier result shows as running from then on, and as
  success or failed once its result is in, provided the clock did not run backwards; the other
  hosts are not touched.\<close>

theorem lifecycle_status:
  assumes "map_of (a_hosts st) h = Some m" and "still_running t (SucceededAt m) (FailedAt m)"
    and "\<not> is_zero t" and "t \<le> u"
    and "h' \<noteq> h"
  shows "\<exists>m1 m2 m3. map_of (a_hosts (fst (start h t st))) h = Some m1 \<and> Status m1 = StatusRunning
    \<and> map_of (a_hosts (fst (success h u (fst (start h t st))))) h = Some m2 \<and> Status m2 = StatusSuccess
    \<and> map_of (a_hosts (fst (failure h u (fst (start h t st))))) h = Some m3 \<and> Status m3 = StatusFailed
    \<and> map_of (a_hosts (fst (success h u (fst (start h t st))))) h' = map_of (a_hosts st) h'
    \<and> map_of (a_hosts (fst (failure h u (fst (start h t st))))) h' = map_of (a_hosts st) h'"
proof -
  let ?m1 = "m\<lparr>StartedAt := t\<rparr>"
  let ?m2 = "?m1\<lparr>SucceededAt := Some u, SuccessDuration := run_time u ?m1\<rparr>"
  let ?m3 = "?m1\<lparr>FailedAt := Some u, FailureDuration := run_time u ?m1\<rparr>"
  have "map_of (a_hosts (fst (start h t st))) = (map_of (a_hosts st))(h \<mapsto> ?m1)"
    "map_of (a_hosts (fst (success h u (fst (start h t st))))) = (map_of (a_hosts st))(h \<mapsto> ?m2)"
    "map_of (a_hosts (fst (failure h u (fst (start h t st))))) = (map_of (a_hosts st))(h \<mapsto> ?m3)"
    using assms(1) by (simp_all add: start_def success_def failure_def Let_def update_conv fun_eq_iff)
  moreover have "Status ?m1 = StatusRunning" "Status ?m2 = StatusSuccess" "Status ?m3 = StatusFailed"
    using assms(2-4) by (auto simp: Status_Running Status_Success Status_Failed still_running_def finished_by_def)
  ultimately show ?thesis using assms(5) by auto
qed

lemma lifecycle_status_witness:
  "\<exists>m. map_of (a_hosts (fst (success ''a'' (5 * second) (fst (start ''a'' second
      ((initial_app (NewTree []))\<lparr>a_hosts := [(''a'', zero_metrics)]\<rparr>)))))) ''a'' = Some m \<and> Status m = StatusSuccess"
  using lifecycle_status [of "(initial_app (NewTree []))\<lparr>a_hosts := [(''a'', zero_metrics)]\<rparr>" "''a''" zero_metrics second
      "5 * second" "''b''"]
  by (auto simp: zero_metrics_def still_running_def is_zero_def zero_time_def)

end
