(* ===== verification/Config_Rsync.thy ===== *)
theory Config_Rsync imports Config_Job begin

text \<open>
  \<open>config/rsync.go\<close>: the filter list of an rsync call (\<open>filter\<close>) from the included paths and
  the excluded patterns. The loop keeps the patterns it has emitted in two \<open>done\<close> sets; the
  theory relates it to a reference definition without any set: the first occurrences of all
  the prefixes of the included paths.
\<close>

section \<open>The loop\<close>

text \<open>The two output lists and the two sets, all as the code has them.\<close>

record filter_state =
  f_inc :: "string list"
  f_exc :: "string list"
  incDone :: "string list"
  excDone :: "string list"

definition init_filter :: filter_state where
  "init_filter = \<lparr>f_inc = [], f_exc = [], incDone = [], excDone = []\<rparr>"

text \<open>One path element: exclude its siblings, include the path down to it.\<close>

definition filter_elem :: "string \<Rightarrow> string \<Rightarrow> filter_state \<Rightarrow> string \<times> filter_state" where
  "filter_elem f elem st =
     (let elem = (if elem = [] then ''/'' else elem);
          fs = f @ ''/*'';
          st = (if fs \<in> set (excDone st) then st
                else st\<lparr>f_exc := f_exc st @ [fs], excDone := fs # excDone st\<rparr>);
          f = f @ ''/'' @ elem;
          st = (if f \<in> set (incDone st) then st
                else st\<lparr>f_inc := f_inc st @ [f], incDone := f # incDone st\<rparr>)
      in (f, st))"

fun filter_elems :: "string \<Rightarrow> string list \<Rightarrow> filter_state \<Rightarrow> filter_state" where
  "filter_elems f [] st = st"
| "filter_elems f (e # es) st = (case filter_elem f e st of (f', st') \<Rightarrow> filter_elems f' es st')"

definition filter_path :: "filter_state \<Rightarrow> string \<Rightarrow> filter_state" where
  "filter_path st incl =
     (let file = clean (''/'' @ incl)
      in if file = ''/'' then
           (if file \<in> set (incDone st) then st else st\<lparr>f_inc := f_inc st @ [file]\<rparr>)
         else filter_elems [] (split_on slash (tl file)) st)"

definition rsync_filter :: "rsync_config \<Rightarrow> string list" where
  "rsync_filter r =
     (let st = foldl filter_path init_filter (Included r)
      in map (\<lambda>f. ''--include='' @ f) (f_inc st)
         @ map (\<lambda>f. ''--exclude='' @ f) (f_exc st)
         @ map (\<lambda>f. ''--exclude='' @ f) (Excluded r))"

section \<open>The reference definition\<close>

text \<open>
  The paths from the root down to a file given by its components, each with the pattern
  that excludes its siblings.
\<close>

fun levels :: "string \<Rightarrow> string list \<Rightarrow> string list" where
  "levels f [] = []"
| "levels f (c # cs) = (f @ ''/'' @ c) # levels (f @ ''/'' @ c) cs"

fun siblings :: "string \<Rightarrow> string list \<Rightarrow> string list" where
  "siblings f [] = []"
| "siblings f (c # cs) = (f @ ''/*'') # siblings (f @ ''/'' @ c) cs"

definition all_levels :: "string list \<Rightarrow> string list" where
  "all_levels incls = concat (map (\<lambda>i. levels [] (path_comps i)) incls)"

definition all_siblings :: "string list \<Rightarrow> string list" where
  "all_siblings incls = concat (map (\<lambda>i. siblings [] (path_comps i)) incls)"

lemma levels_eq: "levels f cs = map (\<lambda>k. f @ concat (map (\<lambda>c. ''/'' @ c) (take (Suc k) cs))) [0..<length cs]"
  by (induction cs arbitrary: f) (simp_all add: upt_conv_Cons map_Suc_upt [symmetric] del: upt_Suc)

section \<open>The loop computes the reference\<close>

text \<open>What holds of the state after the paths \<open>ls\<close> (levels) and \<open>ss\<close> (siblings) were met.\<close>

definition filter_inv :: "string list \<Rightarrow> string list \<Rightarrow> filter_state \<Rightarrow> bool" where
  "filter_inv ls ss st \<longleftrightarrow>
     set (incDone st) = set ls \<and> set (excDone st) = set ss
     \<and> filter (\<lambda>f. f \<noteq> ''/'') (f_inc st) = nub ls \<and> f_exc st = nub ss"

lemma filter_inv_init: "filter_inv [] [] init_filter"
  by (simp add: filter_inv_def init_filter_def)

lemma filter_elem_inv:
  assumes "filter_inv ls ss st" and "e \<noteq> []" and "filter_elem f e st = (f', st')"
  shows "f' = f @ ''/'' @ e" and "filter_inv (ls @ [f']) (ss @ [f @ ''/*'']) st'"
proof -
  show f': "f' = f @ ''/'' @ e"
    using assms(2,3) by (auto simp: filter_elem_def Let_def)
  have "f' \<noteq> ''/''" using assms(2) f' by (cases f; cases e) auto
  then show "filter_inv (ls @ [f']) (ss @ [f @ ''/*'']) st'"
    using assms by (auto simp: filter_inv_def filter_elem_def Let_def nub_snoc split: if_splits)
qed

lemma filter_elems_inv:
  assumes "filter_inv ls ss st" and "\<forall>e\<in>set es. e \<noteq> []"
  shows "filter_inv (ls @ levels f es) (ss @ siblings f es) (filter_elems f es st)"
  using assms
proof (induction es arbitrary: f ls ss st)
  case (Cons e es)
  obtain f' st' where fe: "filter_elem f e st = (f', st')" by fastforce
  have "e \<noteq> []" using Cons.prems(2) by simp
  note step = filter_elem_inv [OF Cons.prems(1) this fe]
  have "filter_inv ((ls @ [f']) @ levels f' es) ((ss @ [f @ ''/*'']) @ siblings f' es) (filter_elems f' es st')"
    using Cons.IH [OF step(2)] Cons.prems(2) by simp
  then show ?case using fe step(1) by simp
qed simp

text \<open>Cleaning leaves no empty element: the code's case for a trailing slash never applies.\<close>

lemma filter_path_elems:
  assumes "clean (''/'' @ incl) \<noteq> ''/''"
  shows "split_on slash (tl (clean (''/'' @ incl))) = path_comps incl"
    and "\<forall>e\<in>set (path_comps incl). e \<noteq> []"
  using assms split_clean_rooted [of incl] clean_rooted_root_iff [of incl] path_comps_plain [of incl]
  by (auto simp: list_all_iff plain_comp_def)

lemma filter_path_inv:
  assumes "filter_inv ls ss st"
  shows "filter_inv (ls @ levels [] (path_comps incl)) (ss @ siblings [] (path_comps incl)) (filter_path st incl)"
proof (cases "clean (''/'' @ incl) = ''/''")
  case True
  then have "path_comps incl = []" using clean_rooted_root_iff [of incl] by simp
  with True assms show ?thesis by (auto simp: filter_path_def filter_inv_def Let_def)
next
  case False
  note e = filter_path_elems [OF False]
  have "filter_path st incl = filter_elems [] (path_comps incl) st"
    using False e(1) by (simp add: filter_path_def Let_def)
  then show ?thesis using filter_elems_inv [OF assms e(2), of "[]"] by simp
qed

lemma filter_loop_inv:
  "filter_inv ls ss st \<Longrightarrow>
     filter_inv (ls @ all_levels incls) (ss @ all_siblings incls) (foldl filter_path st incls)"
proof (induction incls arbitrary: ls ss st)
  case (Cons i rest)
  from Cons.IH [OF filter_path_inv [OF Cons.prems, of i]] show ?case
    by (simp add: all_levels_def all_siblings_def)
qed (simp add: all_levels_def all_siblings_def)

lemma filter_loop_spec:
  "filter_inv (all_levels incls) (all_siblings incls) (foldl filter_path init_filter incls)"
  using filter_loop_inv [OF filter_inv_init, of incls] by simp

text \<open>The root pattern itself: once per included root, since it is never entered in the set.\<close>

lemma filter_elems_root:
  "filter (\<lambda>f. f = ''/'') (f_inc (filter_elems f es st)) = filter (\<lambda>f. f = ''/'') (f_inc st)"
  if "\<forall>e\<in>set es. e \<noteq> []"
  using that
proof (induction es arbitrary: f st)
  case (Cons e es)
  have ne: "f @ CHR ''/'' # e \<noteq> ''/''" using Cons.prems by (cases f; cases e) auto
  then show ?case using Cons by (simp add: filter_elem_def Let_def split: prod.split)
qed simp

lemma filter_elems_root_done:
  "\<forall>e\<in>set es. e \<noteq> [] \<Longrightarrow> ''/'' \<notin> set (incDone st) \<Longrightarrow> ''/'' \<notin> set (incDone (filter_elems f es st))"
proof (induction es arbitrary: f st)
  case (Cons e es)
  have ne: "f @ CHR ''/'' # e \<noteq> ''/''" using Cons.prems by (cases f; cases e) auto
  then show ?case using Cons by (simp add: filter_elem_def Let_def split: prod.split)
qed simp

lemma filter_loop_root:
  "''/'' \<notin> set (incDone st) \<Longrightarrow>
     length (filter (\<lambda>f. f = ''/'') (f_inc (foldl filter_path st incls)))
     = length (filter (\<lambda>f. f = ''/'') (f_inc st)) + length (filter (\<lambda>i. path_comps i = []) incls)"
proof (induction incls arbitrary: st)
  case (Cons i rest)
  show ?case
  proof (cases "path_comps i = []")
    case True
    then have "clean (''/'' @ i) = ''/''" using clean_rooted_root_iff [of i] by simp
    with True Cons show ?thesis by (simp add: filter_path_def Let_def)
  next
    case False
    then have c: "clean (''/'' @ i) \<noteq> ''/''" using clean_rooted_root_iff [of i] by simp
    note e = filter_path_elems [OF c]
    have "filter_path st i = filter_elems [] (path_comps i) st"
      using c e(1) by (simp add: filter_path_def Let_def)
    with False Cons filter_elems_root [OF e(2)] filter_elems_root_done [OF e(2)] show ?thesis by simp
  qed
qed simp

text \<open>Membership: an included pattern is a level of an included path, or the root.\<close>

lemma f_inc_mem:
  assumes "x \<noteq> ''/''"
  shows "x \<in> set (f_inc (foldl filter_path init_filter incls)) \<longleftrightarrow> x \<in> set (all_levels incls)"
proof -
  let ?l = "f_inc (foldl filter_path init_filter incls)"
  have "filter (\<lambda>f. f \<noteq> ''/'') ?l = nub (all_levels incls)"
    using filter_loop_spec [of incls] by (simp add: filter_inv_def)
  then have "set (filter (\<lambda>f. f \<noteq> ''/'') ?l) = set (all_levels incls)" by simp
  with assms show ?thesis by auto
qed

lemma f_exc_eq: "f_exc (foldl filter_path init_filter incls) = nub (all_siblings incls)"
  using filter_loop_spec [of incls] by (simp add: filter_inv_def)

text \<open>At every level of an included path, the level is included and its siblings are excluded.\<close>

lemma levels_snoc: "levels f (cs @ [c]) = levels f cs @ [f @ concat (map (\<lambda>c. ''/'' @ c) (cs @ [c]))]"
  by (induction cs arbitrary: f) simp_all

lemma last_level: "cs \<noteq> [] \<Longrightarrow> last (levels [] cs) = abs_path cs"
proof -
  have "concat (map (\<lambda>c. ''/'' @ c) cs) = ''/'' @ join ''/'' cs" if "cs \<noteq> []" for cs
    using that by (induction "''/''" cs rule: join.induct) auto
  moreover assume "cs \<noteq> []"
  then obtain ds d where "cs = ds @ [d]" by (cases cs rule: rev_cases) auto
  ultimately show ?thesis
    by (simp add: levels_snoc abs_path_def del: map_append concat_append)
qed

lemma levels_not_root: "\<forall>c\<in>set cs. c \<noteq> [] \<Longrightarrow> ''/'' \<notin> set (levels f cs)"
proof (induction cs arbitrary: f)
  case (Cons c cs)
  then have "f @ ''/'' @ c \<noteq> ''/''" by (cases f; cases c) auto
  then show ?case using Cons by simp
qed simp

section \<open>Properties\<close>

text \<open>C8: The filter list is three blocks: the includes, the generated excludes and the configured
  excludes. Apart from the root pattern, the includes are the first occurrences of all directories
  from the root down to each included path; the generated excludes are the first occurrences of the
  patterns for their siblings; the root pattern appears once for every included path that is
  the root.\<close>

theorem filter_reference:
  "\<exists>inc. rsync_filter r =
       map (\<lambda>f. ''--include='' @ f) inc
       @ map (\<lambda>f. ''--exclude='' @ f) (nub (all_siblings (Included r)))
       @ map (\<lambda>f. ''--exclude='' @ f) (Excluded r)
     \<and> filter (\<lambda>f. f \<noteq> ''/'') inc = nub (all_levels (Included r))
     \<and> length (filter (\<lambda>f. f = ''/'') inc) = length (filter (\<lambda>i. path_comps i = []) (Included r))"
proof (intro exI conjI)
  let ?st = "foldl filter_path init_filter (Included r)"
  show "rsync_filter r = map (\<lambda>f. ''--include='' @ f) (f_inc ?st)
       @ map (\<lambda>f. ''--exclude='' @ f) (nub (all_siblings (Included r)))
       @ map (\<lambda>f. ''--exclude='' @ f) (Excluded r)"
    by (simp add: rsync_filter_def f_exc_eq)
  show "filter (\<lambda>f. f \<noteq> ''/'') (f_inc ?st) = nub (all_levels (Included r))"
    using filter_loop_spec [of "Included r"] by (simp add: filter_inv_def)
  show "length (filter (\<lambda>f. f = ''/'') (f_inc ?st)) = length (filter (\<lambda>i. path_comps i = []) (Included r))"
    using filter_loop_root [of init_filter "Included r"] by (simp add: init_filter_def)
qed

text \<open>Every included path can be reached by rsync: the path itself, cleaned, and each directory
  above it are included, and at each of these levels everything else is excluded. The includes come
  before all excludes.\<close>

theorem filter_reaches:
  assumes "i \<in> set (Included r)" and "path_comps i \<noteq> []"
  shows "\<exists>inc exc. rsync_filter r = map (\<lambda>f. ''--include='' @ f) inc @ map (\<lambda>f. ''--exclude='' @ f) exc
    \<and> clean (''/'' @ i) \<in> set inc \<and> set (levels [] (path_comps i)) \<subseteq> set inc
    \<and> set (siblings [] (path_comps i)) \<subseteq> set exc"
proof (intro exI conjI)
  let ?inc = "f_inc (foldl filter_path init_filter (Included r))"
  let ?exc = "nub (all_siblings (Included r)) @ Excluded r"
  show "rsync_filter r = map (\<lambda>f. ''--include='' @ f) ?inc @ map (\<lambda>f. ''--exclude='' @ f) ?exc"
    by (simp add: rsync_filter_def f_exc_eq)
  have sub: "set (levels [] (path_comps i)) \<subseteq> set (all_levels (Included r))"
    using assms(1) by (auto simp: all_levels_def)
  have root: "''/'' \<notin> set (levels [] (path_comps i))"
    using path_comps_plain [of i] by (intro levels_not_root) (auto simp: list_all_iff plain_comp_def)
  show lv: "set (levels [] (path_comps i)) \<subseteq> set ?inc"
  proof
    fix x
    assume x: "x \<in> set (levels [] (path_comps i))"
    then have "x \<noteq> ''/''" using root by blast
    from f_inc_mem [OF this, of "Included r"] show "x \<in> set ?inc" using x sub by blast
  qed
  have "last (levels [] (path_comps i)) \<in> set (levels [] (path_comps i))"
    using assms(2) by (intro last_in_set) (cases "path_comps i", auto)
  then show "clean (''/'' @ i) \<in> set ?inc"
    using lv last_level [OF assms(2)] by (auto simp: clean_rooted abs_path_def)
  show "set (siblings [] (path_comps i)) \<subseteq> set ?exc"
    using assms(1) by (auto simp: all_siblings_def)
qed

lemma filter_reaches_witness:
  "\<exists>inc exc. rsync_filter \<lparr>Included = [''home/u''], Excluded = [], Arguments = [], OverrideGlobalInclude = False,
        OverrideGlobalExclude = False, OverrideGlobalArguments = False\<rparr>
      = map (\<lambda>f. ''--include='' @ f) inc @ map (\<lambda>f. ''--exclude='' @ f) exc
    \<and> clean (''/home/u'') \<in> set inc"
  using filter_reaches [of "''home/u''" "\<lparr>Included = [''home/u''], Excluded = [], Arguments = [],
      OverrideGlobalInclude = False, OverrideGlobalExclude = False, OverrideGlobalArguments = False\<rparr>"]
  by (auto simp: path_comps_def)

end
