(* ===== verification/Config_Blacklist.thy ===== *)
theory Config_Blacklist imports Config_Rsync begin

text \<open>
  \<open>config/rsync_blacklist.go\<close> and \<open>BuildArgVector\<close> of \<open>config/rsync.go\<close>: which of the
  configured arguments reach rsync. \<open>match.Match(str, pattern)\<close> of a third-party package is
  the parameter \<open>mtch\<close>; what the code relies on is \<open>match_contract\<close>: a pattern that is
  plain text followed by a star matches exactly the strings with that prefix.
\<close>

record blacklist_arg =
  long :: string
  short :: string
  opt :: bool

definition blacklistArgs :: "blacklist_arg list" where
  "blacklistArgs =
    [\<lparr>long = ''--debug'', short = '''', opt = True\<rparr>,
     \<lparr>long = ''--info'', short = '''', opt = True\<rparr>,
     \<lparr>long = ''--verbose'', short = ''-v'', opt = False\<rparr>,
     \<lparr>long = ''--delete*'', short = '''', opt = False\<rparr>,
     \<lparr>long = ''--del'', short = '''', opt = False\<rparr>,
     \<lparr>long = ''--rsh'', short = ''-e'', opt = True\<rparr>,
     \<lparr>long = ''--quiet'', short = ''-q'', opt = False\<rparr>,
     \<lparr>long = ''--force'', short = '''', opt = False\<rparr>,
     \<lparr>long = ''--include'', short = '''', opt = True\<rparr>,
     \<lparr>long = ''--exclude'', short = '''', opt = True\<rparr>,
     \<lparr>long = ''--filter'', short = ''-f'', opt = True\<rparr>,
     \<lparr>long = ''--itemize-changes'', short = ''-i'', opt = False\<rparr>,
     \<lparr>long = ''--out-format'', short = '''', opt = True\<rparr>,
     \<lparr>long = ''--partial'', short = '''', opt = False\<rparr>,
     \<lparr>long = ''--progress'', short = ''-P'', opt = False\<rparr>,
     \<lparr>long = ''--daemon'', short = '''', opt = False\<rparr>]"

definition bla_n :: "blacklist_arg \<Rightarrow> nat" where
  "bla_n b = (if opt b then 1 else 0)"

definition Matches :: "(string \<Rightarrow> string \<Rightarrow> bool) \<Rightarrow> blacklist_arg \<Rightarrow> string \<Rightarrow> bool \<times> nat" where
  "Matches mtch b arg =
     (if short b \<noteq> [] \<and> arg = short b then (True, bla_n b)
      else if short b \<noteq> [] \<and> opt b \<and> prefix (short b) arg then (True, 0)
      else if long b \<noteq> [] \<and> arg = long b then (True, bla_n b)
      else if long b \<noteq> [] \<and> CHR ''*'' \<in> set (long b) then (mtch arg (long b), bla_n b)
      else if long b \<noteq> [] \<and> opt b then (mtch arg (long b @ ''=*''), 0)
      else (False, 0))"

text \<open>The inner loop: the first flag that matches, and how many tokens it swallows.\<close>

fun first_match :: "(string \<Rightarrow> string \<Rightarrow> bool) \<Rightarrow> blacklist_arg list \<Rightarrow> string \<Rightarrow> nat option" where
  "first_match mtch [] arg = None"
| "first_match mtch (b # bs) arg =
     (case Matches mtch b arg of
        (True, n) \<Rightarrow> Some n
      | (False, _) \<Rightarrow> first_match mtch bs arg)"

text \<open>The outer loop over the index \<open>i\<close>, which a match moves past the swallowed tokens.\<close>

function args_loop :: "(string \<Rightarrow> string \<Rightarrow> bool) \<Rightarrow> string list \<Rightarrow> nat \<Rightarrow> string list \<Rightarrow> string list" where
  "args_loop mtch as i f =
     (if i < length as
      then (case first_match mtch blacklistArgs (as ! i) of
              Some n \<Rightarrow> args_loop mtch as (i + n + 1) f
            | None \<Rightarrow> args_loop mtch as (i + 1) (f @ [as ! i]))
      else f)"
  by pat_completeness auto
termination
  by (relation "measure (\<lambda>(mtch, as, i, f). length as - i)") auto

declare args_loop.simps [simp del]

definition rsync_args :: "(string \<Rightarrow> string \<Rightarrow> bool) \<Rightarrow> rsync_config \<Rightarrow> string list" where
  "rsync_args mtch r = args_loop mtch (Arguments r) 0 []"

definition BuildArgVector ::
  "(string \<Rightarrow> string \<Rightarrow> bool) \<Rightarrow> rsync_config \<Rightarrow> string \<Rightarrow> string \<Rightarrow> string \<Rightarrow> string list" where
  "BuildArgVector mtch r ssh src dst =
     (let src = (if suffix ''/'' src then src else src @ ''/'');
          dst = (if suffix ''/'' dst then dst else dst @ ''/'')
      in rsync_filter r @ [''-e'', ssh] @ rsync_args mtch r
         @ [''--delete'', ''--delete-excluded'', ''--delete-delay'', ''--itemize-changes''] @ [src, dst])"

section \<open>The contract of the pattern matcher\<close>

definition match_contract :: "(string \<Rightarrow> string \<Rightarrow> bool) \<Rightarrow> bool" where
  "match_contract mtch \<longleftrightarrow>
     (\<forall>s p. CHR ''*'' \<notin> set p \<and> CHR ''?'' \<notin> set p \<and> CHR 0x5C \<notin> set p \<longrightarrow>
        mtch s (p @ ''*'') = prefix p s)"

text \<open>A concrete matcher with that contract, for the examples: stars and question marks.\<close>

fun glob_match :: "string \<Rightarrow> string \<Rightarrow> bool" where
  "glob_match s [] = (s = [])"
| "glob_match [] (p # ps) = (p = CHR ''*'' \<and> glob_match [] ps)"
| "glob_match (c # s) (p # ps) =
     (if p = CHR ''*'' then glob_match (c # s) ps \<or> glob_match s (p # ps)
      else (p = CHR ''?'' \<or> p = c) \<and> glob_match s ps)"

lemma glob_match_star: "glob_match s ''*''"
  by (induction s) auto

lemma glob_match_contract: "match_contract glob_match"
proof -
  have "glob_match s (p @ ''*'') = prefix p s" if "CHR ''*'' \<notin> set p" "CHR ''?'' \<notin> set p" for s p
    using that
  proof (induction p arbitrary: s)
    case Nil
    then show ?case using glob_match_star by simp
  next
    case (Cons c p)
    then show ?case by (cases s) auto
  qed
  then show ?thesis by (simp add: match_contract_def)
qed

section \<open>The loop as a recursion on the list\<close>

function strip_flags :: "(string \<Rightarrow> string \<Rightarrow> bool) \<Rightarrow> string list \<Rightarrow> string list" where
  "strip_flags mtch [] = []"
| "strip_flags mtch (a # as) =
     (case first_match mtch blacklistArgs a of
        Some n \<Rightarrow> strip_flags mtch (drop n as)
      | None \<Rightarrow> a # strip_flags mtch as)"
  by pat_completeness auto
termination
  by (relation "measure (\<lambda>(mtch, as). length as)") auto

lemma args_loop_strip: "args_loop mtch as i f = f @ strip_flags mtch (drop i as)"
proof (induction mtch as i f rule: args_loop.induct)
  case (1 mtch as i f)
  show ?case
  proof (cases "i < length as")
    case True
    then have d: "drop i as = as ! i # drop (Suc i) as" by (simp add: Cons_nth_drop_Suc)
    show ?thesis
      using 1 True by (subst args_loop.simps) (simp add: d add.commute split: option.split)
  next
    case False
    then show ?thesis by (subst args_loop.simps) simp
  qed
qed


lemma strip_flags_kept: "a \<in> set (strip_flags mtch as) \<Longrightarrow> first_match mtch blacklistArgs a = None"
  by (induction mtch as rule: strip_flags.induct) (auto split: option.splits)

lemma first_match_None: "first_match mtch bs a = None \<longleftrightarrow> (\<forall>b\<in>set bs. \<not> fst (Matches mtch b a))"
  by (induction bs) (auto split: prod.splits bool.splits)

lemma strip_flags_id: "\<forall>a\<in>set as. first_match mtch blacklistArgs a = None \<Longrightarrow> strip_flags mtch as = as"
  by (induction as) auto

lemma strip_flags_idem: "strip_flags mtch (strip_flags mtch as) = strip_flags mtch as"
  by (rule strip_flags_id) (auto dest: strip_flags_kept)

lemma strip_flags_append_kept:
  "\<forall>a\<in>set as. first_match mtch blacklistArgs a = None \<Longrightarrow>
     strip_flags mtch (as @ bs) = as @ strip_flags mtch bs"
  by (induction as) auto

text \<open>What a flag matches, with the contract of the matcher: the facts the proofs below use.\<close>

lemma match_contractD:
  "match_contract mtch \<Longrightarrow> CHR ''*'' \<notin> set p \<Longrightarrow> CHR ''?'' \<notin> set p \<Longrightarrow> CHR 0x5C \<notin> set p \<Longrightarrow>
     mtch s (p @ ''*'') = prefix p s"
  by (simp add: match_contract_def)

lemma Matches_opt:
  assumes "match_contract mtch" and "opt b" and "long b \<noteq> []"
    and "CHR ''*'' \<notin> set (long b)" and "CHR ''?'' \<notin> set (long b)" and "CHR 0x5C \<notin> set (long b)"
  shows "fst (Matches mtch b a) \<longleftrightarrow>
    a = long b \<or> prefix (long b @ ''='') a \<or> short b \<noteq> [] \<and> prefix (short b) a"
  using match_contractD [OF assms(1), of "long b @ ''=''" a] assms(2-)
  by (auto simp: Matches_def)

lemma Matches_flag:
  assumes "\<not> opt b" and "long b \<noteq> []" and "CHR ''*'' \<notin> set (long b)"
  shows "fst (Matches mtch b a) \<longleftrightarrow> a = long b \<or> short b \<noteq> [] \<and> a = short b"
  using assms by (auto simp: Matches_def)

lemma Matches_star:
  assumes "match_contract mtch" and "long b = p @ ''*''" and "short b = []"
    and "CHR ''*'' \<notin> set p" and "CHR ''?'' \<notin> set p" and "CHR 0x5C \<notin> set p"
  shows "fst (Matches mtch b a) \<longleftrightarrow> prefix p a"
  using match_contractD [OF assms(1,4-6), of a] assms(2,3)
  by (auto simp: Matches_def)

text \<open>The forbidden arguments, spelled out.\<close>

definition forbidden :: "string \<Rightarrow> bool" where
  "forbidden a \<longleftrightarrow>
     (\<exists>x\<in>set [''--debug'', ''--info'', ''--rsh'', ''--include'', ''--exclude'', ''--filter'', ''--out-format''].
         a = x \<or> prefix (x @ ''='') a)
     \<or> prefix ''--delete'' a \<or> prefix ''-e'' a \<or> prefix ''-f'' a
     \<or> a \<in> set [''--verbose'', ''-v'', ''--del'', ''--quiet'', ''-q'', ''--force'', ''--itemize-changes'', ''-i'',
               ''--partial'', ''--progress'', ''-P'', ''--daemon'']"

lemma blacklist_forbidden:
  assumes "match_contract mtch"
  shows "first_match mtch blacklistArgs a = None \<longleftrightarrow> \<not> forbidden a"
proof -
  have del: "fst (Matches mtch \<lparr>long = ''--delete*'', short = [], opt = False\<rparr> a) \<longleftrightarrow> prefix ''--delete'' a"
    using Matches_star [OF assms, of _ "''--delete''"] by simp
  show ?thesis
    unfolding first_match_None blacklistArgs_def
    by (simp add: del Matches_opt [OF assms] Matches_flag del: prefix_code)
      (auto simp: forbidden_def simp del: prefix_code)
qed

section \<open>Properties\<close>


abbreviation example_rsync :: rsync_config where
  "example_rsync \<equiv> \<lparr>Included = [''/etc''], Excluded = [], Arguments = [''-a'', ''-e'', ''rsh'', ''--info=all'', ''-x''],
    OverrideGlobalInclude = False, OverrideGlobalExclude = False, OverrideGlobalArguments = False\<rparr>"


text \<open>
  The spellings the blacklist is after, of the options that choose the remote shell and of those
  that delete. There are others: a short option may stand in a cluster with others, as in \<open>-ae\<close>.
\<close>

definition rsh_token :: "string \<Rightarrow> bool" where
  "rsh_token a \<longleftrightarrow> prefix ''-e'' a \<or> a = ''--rsh'' \<or> prefix ''--rsh='' a"

definition delete_token :: "string \<Rightarrow> bool" where
  "delete_token a \<longleftrightarrow> prefix ''--del'' a \<and> (a = ''--del'' \<or> prefix ''--delete'' a)"

lemma filter_tokens:
  assumes "a \<in> set (rsync_filter r)"
  shows "\<not> rsh_token a" and "\<not> delete_token a"
  using assms by (auto simp: rsync_filter_def Let_def rsh_token_def delete_token_def)

lemma not_forbidden_tokens: "\<not> forbidden a \<Longrightarrow> \<not> rsh_token a \<and> \<not> delete_token a"
  unfolding forbidden_def rsh_token_def delete_token_def by auto

text \<open>A cluster of short options is forbidden only for its first letter.\<close>

lemma cluster_passes:
  "c \<notin> {CHR ''-'', CHR ''e'', CHR ''f''} \<Longrightarrow> cs \<noteq> [] \<Longrightarrow> \<not> forbidden (CHR ''-'' # c # cs)"
  by (auto simp: forbidden_def)

lemma value_passes: "v \<noteq> [] \<Longrightarrow> hd v \<noteq> CHR ''-'' \<Longrightarrow> \<not> forbidden v"
  by (cases v) (auto simp: forbidden_def)

text \<open>C24: What the blacklist guarantees of the vector, and what it does not, for an ssh command that does not
  begin with a dash. Before the two paths, both with a trailing slash, the only token of the form \<open>-e\<close>,
  \<open>-e...\<close>, \<open>--rsh\<close> or \<open>--rsh=...\<close> is the program's own \<open>-e\<close>, directly followed by the ssh command, and the
  only ones of the form \<open>--del\<close> or \<open>--delete...\<close> are the program's own three, whatever the configuration says.
  But the same option in a cluster passes: if the configured arguments are a dash with two letters or more, of
  which the first is neither a dash nor e nor f, and a value that does not begin with a dash, both are handed to
  rsync as they are, so that \<open>-ae prog\<close> still chooses a remote shell.\<close>

theorem BuildArgVector_own_options:
  assumes "match_contract mtch" and "hd ssh \<noteq> CHR ''-''" and "ssh \<noteq> []"
  shows "\<exists>opts s d. BuildArgVector mtch r ssh src dst = opts @ [s, d]
    \<and> suffix ''/'' s \<and> suffix ''/'' d \<and> prefix src s \<and> prefix dst d
    \<and> filter rsh_token opts = [''-e'']
    \<and> (\<exists>before after. opts = before @ [''-e'', ssh] @ after)
    \<and> filter delete_token opts = [''--delete'', ''--delete-excluded'', ''--delete-delay'']
    \<and> (\<forall>c cs v. c \<notin> {CHR ''-'', CHR ''e'', CHR ''f''} \<and> cs \<noteq> [] \<and> v \<noteq> [] \<and> hd v \<noteq> CHR ''-''
         \<and> Arguments r = [CHR ''-'' # c # cs, v] \<longrightarrow>
         opts = rsync_filter r @ [''-e'', ssh, CHR ''-'' # c # cs, v,
           ''--delete'', ''--delete-excluded'', ''--delete-delay'', ''--itemize-changes''])"
proof (intro exI conjI)
  let ?as = "rsync_args mtch r"
  let ?own = "[''--delete'', ''--delete-excluded'', ''--delete-delay'', ''--itemize-changes'']"
  let ?opts = "rsync_filter r @ [''-e'', ssh] @ ?as @ ?own"
  show "BuildArgVector mtch r ssh src dst =
      ?opts @ [if suffix ''/'' src then src else src @ ''/'', if suffix ''/'' dst then dst else dst @ ''/'']"
    by (simp add: BuildArgVector_def Let_def)
  show "?opts = rsync_filter r @ [''-e'', ssh] @ (?as @ ?own)" by simp
  have ssh: "\<not> rsh_token ssh" "\<not> delete_token ssh"
    using assms(2,3) by (cases ssh; auto simp: rsh_token_def delete_token_def)+
  have as: "\<not> rsh_token a \<and> \<not> delete_token a" if "a \<in> set ?as" for a
  proof -
    have "a \<in> set (strip_flags mtch (Arguments r))" using that by (simp add: rsync_args_def args_loop_strip)
    then have "\<not> forbidden a" using strip_flags_kept blacklist_forbidden [OF assms(1)] by blast
    then show ?thesis by (rule not_forbidden_tokens)
  qed
  have e: "rsh_token ''-e''" "\<not> delete_token ''-e''" by (simp_all add: rsh_token_def delete_token_def)
  have f: "filter rsh_token (rsync_filter r) = []" "filter delete_token (rsync_filter r) = []"
    "filter rsh_token ?as = []" "filter delete_token ?as = []"
    using filter_tokens as by (auto simp: filter_empty_conv)
  show "\<forall>c cs v. c \<notin> {CHR ''-'', CHR ''e'', CHR ''f''} \<and> cs \<noteq> [] \<and> v \<noteq> [] \<and> hd v \<noteq> CHR ''-''
      \<and> Arguments r = [CHR ''-'' # c # cs, v] \<longrightarrow>
      ?opts = rsync_filter r @ [''-e'', ssh, CHR ''-'' # c # cs, v,
        ''--delete'', ''--delete-excluded'', ''--delete-delay'', ''--itemize-changes'']"
  proof (intro allI impI, elim conjE)
    fix c cs and v :: string
    assume a: "c \<notin> {CHR ''-'', CHR ''e'', CHR ''f''}" "cs \<noteq> []" "v \<noteq> []" "hd v \<noteq> CHR ''-''"
      "Arguments r = [CHR ''-'' # c # cs, v]"
    then have "\<forall>a\<in>set (Arguments r). \<not> forbidden a" using cluster_passes [OF a(1,2)] value_passes [OF a(3,4)] by simp
    then have "?as = Arguments r"
      using strip_flags_id blacklist_forbidden [OF assms(1)] by (simp add: rsync_args_def args_loop_strip)
    then show "?opts = rsync_filter r @ [''-e'', ssh, CHR ''-'' # c # cs, v,
        ''--delete'', ''--delete-excluded'', ''--delete-delay'', ''--itemize-changes'']" using a(5) by simp
  qed
  show "filter rsh_token ?opts = [''-e'']"
    using ssh e f by simp (simp add: rsh_token_def)
  show "filter delete_token ?opts = [''--delete'', ''--delete-excluded'', ''--delete-delay'']"
    using ssh e f by simp (simp add: delete_token_def)
qed (auto simp: suffix_def)

lemma BuildArgVector_own_options_witness:
  "\<exists>opts s d. BuildArgVector glob_match (example_rsync\<lparr>Arguments := [''-ae'', ''prog'']\<rparr>) ''ssh'' ''h:/'' ''/zpool/h'' = opts @ [s, d]
    \<and> filter rsh_token opts = [''-e''] \<and> ''-ae'' \<in> set opts \<and> ''prog'' \<in> set opts"
proof -
  let ?r = "example_rsync\<lparr>Arguments := [''-ae'', ''prog'']\<rparr>"
  obtain opts s d where o: "BuildArgVector glob_match ?r ''ssh'' ''h:/'' ''/zpool/h'' = opts @ [s, d]" "filter rsh_token opts = [''-e'']"
      "\<forall>c cs v. c \<notin> {CHR ''-'', CHR ''e'', CHR ''f''} \<and> cs \<noteq> [] \<and> v \<noteq> [] \<and> hd v \<noteq> CHR ''-''
         \<and> Arguments ?r = [CHR ''-'' # c # cs, v] \<longrightarrow>
         opts = rsync_filter ?r @ [''-e'', ''ssh'', CHR ''-'' # c # cs, v,
           ''--delete'', ''--delete-excluded'', ''--delete-delay'', ''--itemize-changes'']"
    using BuildArgVector_own_options [OF glob_match_contract, of "''ssh''" ?r "''h:/''" "''/zpool/h''"] by auto
  from o(3) [rule_format, of "CHR ''a''" "''e''" "''prog''"] show ?thesis using o(1,2)
    by (intro exI [of _ opts] exI [of _ s] exI [of _ d]) simp
qed

end
