(* ===== verification/App_Ssh.thy ===== *)
theory App_Ssh imports App_State Config_Blacklist begin

text \<open>
  \<open>app/ssh.go\<close>: the master connection of a backup, remote scripts and rsync. What the program
  does to the outside is a trace of actions; an oracle (the record \<open>os\<close>) says for every action
  whether it succeeds, given all actions before it, and what time it is. Waiting is part of
  an action: it ends in success or failure. Log output is not modelled, and of the captured
  streams only which lines are read.
\<close>

section \<open>The outside\<close>

datatype action =
    AZfs argv
  | ATunnelStart argv
  | ATunnelTerm
  | ATunnelKill
  | ATunnelWait
  | APipe string
  | AExecStart argv
  | ASend string
  | AFlush
  | ACloseStdin
  | AExecWait
  | ARsyncStart argv
  | ARsyncWait

record os =
  os_ok :: "action list \<Rightarrow> action \<Rightarrow> bool"
  os_now :: "action list \<Rightarrow> time"
  os_match :: "string \<Rightarrow> string \<Rightarrow> bool"

record world =
  w_app :: app
  w_trace :: "action list"

definition act :: "os \<Rightarrow> action \<Rightarrow> world \<Rightarrow> bool \<times> world" where
  "act os a w = (os_ok os (w_trace w) a, w\<lparr>w_trace := w_trace w @ [a]\<rparr>)"

section \<open>The master\<close>

record ssh_master =
  m_host :: string
  m_user :: string
  m_port :: "16 word"
  m_connectTimeout :: "64 word"
  m_controlPath :: string
  m_mountPath :: string
  m_tunnel :: bool

datatype ssh_error =
    ErrAlreadyConnected
  | ErrTunnel
  | ErrPipe string
  | ErrStart
  | ErrSend string
  | ErrFlush string
  | ErrTermination

definition newSSHMaster :: "app \<Rightarrow> string \<Rightarrow> ssh_config \<Rightarrow> ssh_master" where
  "newSSHMaster st host cfg =
     \<lparr>m_host = host,
      m_user = (if User cfg = [] then ''root'' else User cfg),
      m_port = (if Port cfg = 0 then 22 else Port cfg),
      m_connectTimeout = (case Timeout cfg of Some t \<Rightarrow> t | None \<Rightarrow> 0),
      m_controlPath = path_join [v_MountBase st, ''.zackup_%C''],
      m_mountPath = path_join [v_MountBase st, host],
      m_tunnel = False\<rparr>"

text \<open>\<open>%d\<close> of an unsigned value.\<close>

definition word_str :: "'a::len word \<Rightarrow> string" where
  "word_str x = nat_str (unat x)"

definition connect_args :: "ssh_master \<Rightarrow> argv" where
  "connect_args c =
     [''-S'', m_controlPath c, ''-o'', ''ControlMaster=yes'', ''-o'', ''StrictHostKeyChecking=yes'']
     @ (if 0 < m_connectTimeout c then [''-o'', ''ConnectTimeout='' @ word_str (m_connectTimeout c)] else [])
     @ [''-n'', ''-N'', ''-T'', ''-x'', ''-p'', word_str (m_port c), ''-l'', m_user c, m_host c]"

definition connect :: "os \<Rightarrow> ssh_master \<Rightarrow> world \<Rightarrow> ssh_error option \<times> ssh_master \<times> world" where
  "connect os c w =
     (if m_tunnel c then (Some ErrAlreadyConnected, c, w)
      else case act os (ATunnelStart (v_SSHPath (w_app w) # connect_args c)) w of
             (False, w) \<Rightarrow> (Some ErrTunnel, c, w)
           | (True, w) \<Rightarrow> (None, c\<lparr>m_tunnel := True\<rparr>, w))"

text \<open>The commands of \<open>close\<close>; the error of the last one is only logged.\<close>

definition close :: "os \<Rightarrow> ssh_master \<Rightarrow> world \<Rightarrow> ssh_master \<times> world" where
  "close os c w =
     (if \<not> m_tunnel c then (c, w)
      else let (ok, w) = act os ATunnelTerm w;
               w = (if ok then w else snd (act os ATunnelKill w));
               (_, w) = act os ATunnelWait w
           in (c\<lparr>m_tunnel := False\<rparr>, w))"

section \<open>Commands through the master\<close>

text \<open>
  \<open>captureOutput\<close> opens the two pipes and starts a reader for each. A reader traces the lines
  of its stream, and stops at a line that is too long.
\<close>

definition captureOutput :: "os \<Rightarrow> world \<Rightarrow> ssh_error option \<times> world" where
  "captureOutput os w =
     (case act os (APipe ''stdout'') w of
        (False, w) \<Rightarrow> (Some (ErrPipe ''stdout''), w)
      | (True, w) \<Rightarrow>
          (case act os (APipe ''stderr'') w of
             (False, w) \<Rightarrow> (Some (ErrPipe ''stderr''), w)
           | (True, w) \<Rightarrow> (None, w)))"

definition captured :: "string \<Rightarrow> string list \<times> scan_error option" where
  "captured stream = scan_lines stream"

definition execute_args :: "ssh_master \<Rightarrow> argv" where
  "execute_args c =
     [''-S'', m_controlPath c, ''-o'', ''ControlMaster=yes'', ''-o'', ''StrictHostKeyChecking=yes'']
     @ (if 0 < m_connectTimeout c then [''-o'', ''ConnectTimeout='' @ word_str (m_connectTimeout c)] else [])
     @ [''-p'', word_str (m_port c), ''-x'', ''-l'', m_user c, m_host c, ''/bin/sh'', ''-esx'']"

text \<open>The loop that writes the script, a line and a flush at a time.\<close>

fun send_lines :: "os \<Rightarrow> string list \<Rightarrow> world \<Rightarrow> ssh_error option \<times> world" where
  "send_lines os [] w = (None, w)"
| "send_lines os (line # ls) w =
     (case act os (ASend (line @ [newline])) w of
        (False, w) \<Rightarrow> (Some (ErrSend line), w)
      | (True, w) \<Rightarrow>
          (case act os AFlush w of
             (False, w) \<Rightarrow> (Some (ErrFlush line), w)
           | (True, w) \<Rightarrow> send_lines os ls w))"

definition execute :: "os \<Rightarrow> ssh_master \<Rightarrow> string list \<Rightarrow> world \<Rightarrow> ssh_error option \<times> world" where
  "execute os c script w =
     (case captureOutput os w of
        (Some e, w) \<Rightarrow> (Some e, w)
      | (None, w) \<Rightarrow>
          (case act os (APipe ''stdin'') w of
             (False, w) \<Rightarrow> (Some (ErrPipe ''stdin''), w)
           | (True, w) \<Rightarrow>
               (case act os (AExecStart (v_SSHPath (w_app w) # execute_args c)) w of
                  (False, w) \<Rightarrow> (Some ErrStart, snd (act os ACloseStdin w))
                | (True, w) \<Rightarrow>
                    (case send_lines os script w of
                       (Some e, w) \<Rightarrow> (Some e, snd (act os ACloseStdin w))
                     | (None, w) \<Rightarrow>
                         (case act os AExecWait (snd (act os ACloseStdin w)) of
                            (False, w) \<Rightarrow> (Some ErrTermination, w)
                          | (True, w) \<Rightarrow> (None, w))))))"

definition ssh_arg :: "ssh_master \<Rightarrow> string" where
  "ssh_arg c =
     ''ssh -S '' @ m_controlPath c @ '' -p '' @ word_str (m_port c) @ '' -x -oStrictHostKeyChecking=yes''
     @ (if 0 < m_connectTimeout c then '' -oConnectTimeout='' @ word_str (m_connectTimeout c) else [])"

definition rsync_argv :: "os \<Rightarrow> ssh_master \<Rightarrow> rsync_config \<Rightarrow> app \<Rightarrow> argv" where
  "rsync_argv os c r st =
     v_RSyncPath st # BuildArgVector (os_match os) r (ssh_arg c) (m_user c @ ''@'' @ m_host c @ '':'') (m_mountPath c)"

definition master_rsync :: "os \<Rightarrow> ssh_master \<Rightarrow> rsync_config \<Rightarrow> world \<Rightarrow> ssh_error option \<times> world" where
  "master_rsync os c r w =
     (case captureOutput os w of
        (Some e, w) \<Rightarrow> (Some e, w)
      | (None, w) \<Rightarrow>
          (case act os (ARsyncStart (rsync_argv os c r (w_app w))) w of
             (False, w) \<Rightarrow> (Some ErrStart, w)
           | (True, w) \<Rightarrow>
               (case act os ARsyncWait w of
                  (False, w) \<Rightarrow> (Some ErrTermination, w)
                | (True, w) \<Rightarrow> (None, w))))"

section \<open>What the commands leave\<close>

text \<open>The actions between two worlds.\<close>

definition extends :: "world \<Rightarrow> action list \<Rightarrow> world \<Rightarrow> bool" where
  "extends w as w' \<longleftrightarrow> w_app w' = w_app w \<and> w_trace w' = w_trace w @ as"

lemma extends_refl [simp]: "extends w [] w"
  by (simp add: extends_def)

lemma extends_trans: "extends w as w1 \<Longrightarrow> extends w1 bs w2 \<Longrightarrow> extends w (as @ bs) w2"
  by (simp add: extends_def)

lemma act_extends: "act os a w = (b, w') \<Longrightarrow> extends w [a] w' \<and> b = os_ok os (w_trace w) a"
  by (auto simp: act_def extends_def)

end
