(* ===== verification/App_Persist.thy ===== *)
theory App_Persist imports App_State begin

text \<open>
  Storing and restoring the metrics of \<open>app/state.go\<close> together: what the program sets as ZFS
  properties and what it reads back after a restart.
\<close>

section \<open>Property values\<close>

text \<open>
  The values of the five user properties, a dash for a property never set. A zero \<open>StartedAt\<close> is
  that of a host no backup of which was ever started.
\<close>

definition user_values :: "metrics \<Rightarrow> (string \<times> string) list" where
  "user_values m =
     [(propZackupLastStart, if is_zero (StartedAt m) then ''-'' else int_str (unix (StartedAt m))),
      (propZackupLastSuccessDate, case SucceededAt m of None \<Rightarrow> ''-'' | Some t \<Rightarrow> int_str (unix t)),
      (propZackupLastSuccessDuration,
        case SucceededAt m of None \<Rightarrow> ''-'' | Some _ \<Rightarrow> int_str (SuccessDuration m sdiv millisecond)),
      (propZackupLastFailureDate, case FailedAt m of None \<Rightarrow> ''-'' | Some t \<Rightarrow> int_str (unix t)),
      (propZackupLastFailureDuration,
        case FailedAt m of None \<Rightarrow> ''-'' | Some _ \<Rightarrow> int_str (FailureDuration m sdiv millisecond))]"

definition zfs_line :: "string \<Rightarrow> string \<times> string \<Rightarrow> string" where
  "zfs_line ds pv = ds @ [tab] @ fst pv @ [tab] @ snd pv"

text \<open>
  What \<open>zfs get -H -p -s local,none\<close> answers to the request of \<open>loadHost\<close>: a line for each of the ten
  properties, in the order asked for. The native ones are those of the dataset and always there: the
  sizes in bytes, and the compression ratio as some text that stands for the factor.
\<close>

definition native_values :: "string \<Rightarrow> metrics \<Rightarrow> (string \<times> string) list" where
  "native_values ratio m =
     [(propUsedBySnapshots, nat_str (unat (SpaceUsedBySnapshots m))),
      (propUsedByDataset, nat_str (unat (SpaceUsedByDataset m))),
      (propUsedByChildren, nat_str (unat (SpaceUsedByChildren m))),
      (propUsedByRefReservation, nat_str (unat (SpaceUsedByRefReservation m))),
      (propCompressRatio, ratio)]"

definition zfs_values :: "string \<Rightarrow> metrics \<Rightarrow> (string \<times> string) list" where
  "zfs_values ratio m = native_values ratio m @ user_values m"

definition zfs_output :: "string \<Rightarrow> string \<Rightarrow> metrics \<Rightarrow> string" where
  "zfs_output ratio ds m = concat (map (\<lambda>pv. zfs_line ds pv @ [newline]) (zfs_values ratio m))"

text \<open>Restoring loses the fractions of the seconds, and only them.\<close>

definition at_seconds :: "time \<Rightarrow> time" where
  "at_seconds t = unix t * second"

definition restored :: "metrics \<Rightarrow> metrics \<Rightarrow> metrics" where
  "restored m m0 =
     m0\<lparr>StartedAt := (if is_zero (StartedAt m) then StartedAt m0 else at_seconds (StartedAt m)),
        SucceededAt := (case SucceededAt m of None \<Rightarrow> SucceededAt m0 | Some t \<Rightarrow> Some (at_seconds t)),
        SuccessDuration := (case SucceededAt m of None \<Rightarrow> SuccessDuration m0 | Some _ \<Rightarrow> SuccessDuration m),
        FailedAt := (case FailedAt m of None \<Rightarrow> FailedAt m0 | Some t \<Rightarrow> Some (at_seconds t)),
        FailureDuration := (case FailedAt m of None \<Rightarrow> FailureDuration m0 | Some _ \<Rightarrow> FailureDuration m),
        SpaceUsedBySnapshots := SpaceUsedBySnapshots m,
        SpaceUsedByDataset := SpaceUsedByDataset m,
        SpaceUsedByChildren := SpaceUsedByChildren m,
        SpaceUsedByRefReservation := SpaceUsedByRefReservation m,
        CompressionFactor := CompressionFactor m\<rparr>"

text \<open>Metrics as the life cycle leaves them: instants \<open>time.Unix\<close> can name, whole milliseconds.\<close>

definition storable :: "metrics \<Rightarrow> bool" where
  "storable m \<longleftrightarrow>
     (\<forall>t. t = StartedAt m \<or> SucceededAt m = Some t \<or> FailedAt m = Some t \<longrightarrow> unix_range (unix t))
     \<and> (\<forall>d. d = SuccessDuration m \<or> d = FailureDuration m \<longrightarrow> int64_range d \<and> millisecond dvd d)"

definition plain_text :: "string \<Rightarrow> bool" where
  "plain_text s \<longleftrightarrow> s \<noteq> [] \<and> tab \<notin> set s \<and> newline \<notin> set s \<and> CHR 0x0D \<notin> set s"

text \<open>A text of the compression ratio: \<open>ParseFloat\<close> reads the factor from it, less a trailing x.\<close>

definition ratio_text :: "(string \<Rightarrow> (string, float64) outcome) \<Rightarrow> string \<Rightarrow> metrics \<Rightarrow> bool" where
  "ratio_text pf ratio m \<longleftrightarrow> plain_text ratio \<and> length ratio \<le> 20 \<and> ratio \<noteq> ''-''
     \<and> pf (trim_suffix ratio ''x'') = Ok (CompressionFactor m)"

text \<open>ZFS has the metrics of a host as the properties of its dataset.\<close>

definition zfs_has :: "(string \<Rightarrow> (string, float64) outcome) \<Rightarrow> (argv \<Rightarrow> string \<times> bool) \<Rightarrow> string \<Rightarrow> metrics \<Rightarrow> bool" where
  "zfs_has pf zfs ds m \<longleftrightarrow> (\<exists>ratio. ratio_text pf ratio m \<and> zfs (load_args ds) = (zfs_output ratio ds m, False))"

lemma unix_range_int64: "unix_range i \<Longrightarrow> int64_range i"
  by (simp add: unix_range_def int64_range_def)

lemma storable_simps:
  assumes "storable m"
  shows "unix_range (unix (StartedAt m))"
    and "SucceededAt m = Some t \<Longrightarrow> unix_range (unix t)"
    and "FailedAt m = Some t \<Longrightarrow> unix_range (unix t)"
    and "int64_range (SuccessDuration m)" and "millisecond dvd SuccessDuration m"
    and "int64_range (FailureDuration m)" and "millisecond dvd FailureDuration m"
  using assms by (auto simp: storable_def)

lemma int_str_nonempty [simp]: "int_str i \<noteq> []"
  by (simp add: int_str_def)

lemma int_str_not_dash: "int_str i \<noteq> ''-''"
  by (simp add: int_str_def) (metis nat_str_hd(1) list.sel(1))

lemma plain_int_str: "plain_text (int_str i)"
proof -
  have "c \<noteq> tab \<and> c \<noteq> newline \<and> c \<noteq> CHR 0x0D" if "c \<in> set (int_str i)" for c
    using int_str_chars [OF that] is_digit_not_sep [of c] by (auto simp: tab_def newline_def)
  then show ?thesis by (auto simp: plain_text_def)
qed

lemma length_int_str: "int64_range i \<Longrightarrow> length (int_str i) \<le> 20"
proof -
  assume r: "int64_range i"
  then have "nat (- i) < 10 ^ 19" and "nat i < 10 ^ 19" by (auto simp: int64_range_def nat_less_iff)
  then show ?thesis
    using nat_str_length_le [of "nat (- i)" 19] nat_str_length_le [of "nat i" 19] by (simp add: int_str_def)
qed

lemma plain_nat_str: "plain_text (nat_str n)"
  using plain_int_str [of "int n"] by (simp add: int_str_def)

lemma nat_str_not_dash: "nat_str n \<noteq> ''-''"
  using int_str_not_dash [of "int n"] by (simp add: int_str_def)

lemma length_nat_str: "length (nat_str (unat (w :: 64 word))) \<le> 20"
proof -
  have "unat w < 2 ^ 64" using unsigned_less [where 'a = nat, of w] by simp
  then have "unat w < 10 ^ 20" by simp
  then show ?thesis by (rule nat_str_length_le) simp
qed

lemma user_values_plain:
  assumes "storable m" and "pv \<in> set (user_values m)"
  shows "plain_text (fst pv) \<and> plain_text (snd pv) \<and> fst pv \<in> set prop_names \<and> length (fst pv) \<le> 40 \<and> length (snd pv) \<le> 20"
proof -
  note s = storable_simps [OF assms(1)]
  have dash: "plain_text ''-''" by (simp add: plain_text_def tab_def newline_def)
  have p: "plain_text x" if "x \<in> set prop_names" for x
    using prop_names_chars [OF that] by (simp add: plain_text_def tab_def newline_def)
  have names: "fst pv \<in> set prop_names" using assms(2) by (auto simp: user_values_def prop_names_def)
  have len: "length (fst pv) \<le> 40" using assms(2) by (auto simp: user_values_def prop_defs)
  have "plain_text (snd pv) \<and> length (snd pv) \<le> 20"
    using assms(2) s unix_range_int64 millis_range
    by (auto simp: user_values_def plain_int_str dash intro!: length_int_str split: option.splits)
  then show ?thesis using names len p by simp
qed

lemma zfs_values_plain:
  assumes "storable m" and "ratio_text pf ratio m" and "pv \<in> set (zfs_values ratio m)"
  shows "plain_text (fst pv) \<and> plain_text (snd pv) \<and> length (fst pv) \<le> 40 \<and> length (snd pv) \<le> 20"
proof (cases "pv \<in> set (user_values m)")
  case False
  then have n: "pv \<in> set (native_values ratio m)" using assms(3) by (simp add: zfs_values_def)
  then have "fst pv \<in> set prop_names" by (auto simp: native_values_def prop_names_def)
  then have "plain_text (fst pv)" using prop_names_chars by (simp add: plain_text_def tab_def newline_def)
  moreover have "length (fst pv) \<le> 40" using n by (auto simp: native_values_def prop_defs)
  ultimately show ?thesis
    using n assms(2) by (auto simp: native_values_def plain_nat_str length_nat_str ratio_text_def simp del: nat_str.simps)
qed (use user_values_plain [OF assms(1)] in blast)

section \<open>Reading the lines back\<close>

lemma fields_zfs_line:
  assumes "plain_text ds" and "plain_text p" and "plain_text v"
  shows "fields_by tab (zfs_line ds (p, v)) = [ds, p, v]"
proof -
  have "zfs_line ds (p, v) = join [tab] [ds, p, v]" by (simp add: zfs_line_def)
  then show ?thesis using assms fields_by_join [of "[ds, p, v]" tab] by (simp add: plain_text_def)
qed

lemma load_line_zfs:
  assumes "plain_text ds" and "plain_text p" and "plain_text v"
    and "(case map_of hs h of None \<Rightarrow> zero_metrics | Some m \<Rightarrow> m) = m"
    and "trim_prefix ds rds = h" and "map_of (propDecoder pf) p = Some d"
  shows "load_line pf ds rds hs (zfs_line ds (p, v))
    = (if v = ''-'' then hs else AList.update h (fst (d m v)) hs)"
  using assms by (simp add: load_line_def fields_zfs_line Let_def numeral_2_eq_2)

lemma scan_zfs_output:
  assumes "storable m" and "ratio_text pf ratio m" and "plain_text ds" and "length ds \<le> 1000"
  shows "scan_lines (zfs_output ratio ds m) = (map (zfs_line ds) (zfs_values ratio m), None)"
proof -
  have "\<forall>l\<in>set (map (zfs_line ds) (zfs_values ratio m)). newline \<notin> set l \<and> CHR 0x0D \<notin> set l \<and> length l < max_token"
    using zfs_values_plain [OF assms(1,2)] assms(3,4)
    by (fastforce simp: zfs_line_def plain_text_def tab_def newline_def max_token_def)
  from scan_lines_unlines [OF this] show ?thesis by (simp add: zfs_output_def comp_def)
qed

lemma decode_second:
  assumes "unix_range (unix t)"
  shows "fst (decode_int p (\<lambda>i m. upd (time_unix i) m) m (int_str (unix t))) = upd (at_seconds t) m"
  using assms by (simp add: decode_int_int_str unix_range_int64 time_unix_exact at_seconds_def)

lemma decode_millis:
  assumes "int64_range d" and "millisecond dvd d"
  shows "fst (decode_int p (\<lambda>i m. upd (from_millis i) m) m (int_str (d sdiv millisecond))) = upd d m"
  using assms by (simp add: decode_int_int_str millis_range from_millis_exact)

text \<open>The decoder of each property of ZFS itself.\<close>

lemma propDecoder_native:
  "map_of (propDecoder pf) propUsedBySnapshots =
     Some (decode_uint propUsedBySnapshots (\<lambda>u m. m\<lparr>SpaceUsedBySnapshots := u\<rparr>))"
  "map_of (propDecoder pf) propUsedByDataset =
     Some (decode_uint propUsedByDataset (\<lambda>u m. m\<lparr>SpaceUsedByDataset := u\<rparr>))"
  "map_of (propDecoder pf) propUsedByChildren =
     Some (decode_uint propUsedByChildren (\<lambda>u m. m\<lparr>SpaceUsedByChildren := u\<rparr>))"
  "map_of (propDecoder pf) propUsedByRefReservation =
     Some (decode_uint propUsedByRefReservation (\<lambda>u m. m\<lparr>SpaceUsedByRefReservation := u\<rparr>))"
  "map_of (propDecoder pf) propCompressRatio =
     Some (decode_float pf propCompressRatio (\<lambda>f m. m\<lparr>CompressionFactor := f\<rparr>))"
  by (simp_all add: propDecoder_def prop_defs)

text \<open>What a list of properties with values makes of the metrics of a host.\<close>

definition prop_step :: "(string \<Rightarrow> (string, float64) outcome) \<Rightarrow> metrics \<Rightarrow> string \<times> string \<Rightarrow> metrics" where
  "prop_step pf m pv = (if snd pv = ''-'' then m else fst (the (map_of (propDecoder pf) (fst pv)) m (snd pv)))"

abbreviation entry_of :: "host_map \<Rightarrow> string \<Rightarrow> metrics" where
  "entry_of hs h \<equiv> (case map_of hs h of None \<Rightarrow> zero_metrics | Some m \<Rightarrow> m)"

lemma load_lines_entry:
  assumes "plain_text ds" and "trim_prefix ds rds = h"
  shows "\<forall>pv\<in>set pvs. plain_text (fst pv) \<and> plain_text (snd pv) \<and> fst pv \<in> set prop_names \<Longrightarrow>
     entry_of (foldl (load_line pf ds rds) hs (map (zfs_line ds) pvs)) h = foldl (prop_step pf) (entry_of hs h) pvs
     \<and> (map_of (foldl (load_line pf ds rds) hs (map (zfs_line ds) pvs)) h = None \<longleftrightarrow>
          map_of hs h = None \<and> (\<forall>pv\<in>set pvs. snd pv = ''-''))"
proof (induction pvs arbitrary: hs)
  case (Cons pv pvs)
  obtain p v where pv: "pv = (p, v)" by fastforce
  have "p \<in> fst ` set (propDecoder pf)" using Cons.prems pv propDecoder_keys [of pf] by (simp flip: set_map)
  then obtain d where "map_of (propDecoder pf) p = Some d" by (metis map_of_eq_None_keys option.exhaust)
  then have "load_line pf ds rds hs (zfs_line ds pv)
      = (if v = ''-'' then hs else AList.update h (prop_step pf (entry_of hs h) pv) hs)"
    using load_line_zfs [OF assms(1) _ _ refl assms(2), of p v pf d hs] Cons.prems pv by (simp add: prop_step_def)
  then show ?case using Cons.IH [of "load_line pf ds rds hs (zfs_line ds pv)"] Cons.prems pv by (simp add: prop_step_def)
qed simp

lemma prop_steps_native:
  assumes "ratio_text pf ratio m"
  shows "foldl (prop_step pf) m0 (native_values ratio m) = m0\<lparr>SpaceUsedBySnapshots := SpaceUsedBySnapshots m,
     SpaceUsedByDataset := SpaceUsedByDataset m, SpaceUsedByChildren := SpaceUsedByChildren m,
     SpaceUsedByRefReservation := SpaceUsedByRefReservation m, CompressionFactor := CompressionFactor m\<rparr>"
proof -
  have dec: "fst (decode_uint p upd m' (nat_str (unat w))) = upd w m'" for p upd m' and w :: "64 word"
    by (simp add: decode_uint_def parse_uint64_nat_str)
  have f: "fst (decode_float pf p upd m' ratio) = upd (CompressionFactor m) m'" for p upd m'
    using assms by (simp add: decode_float_def ratio_text_def)
  have "ratio \<noteq> ''-''" using assms by (simp add: ratio_text_def)
  then show ?thesis
    by (simp add: native_values_def prop_step_def propDecoder_native nat_str_not_dash dec f del: nat_str.simps)
qed

lemma prop_steps_user:
  assumes "storable m"
  shows "foldl (prop_step pf) m0 (user_values m) =
     m0\<lparr>StartedAt := (if is_zero (StartedAt m) then StartedAt m0 else at_seconds (StartedAt m)),
        SucceededAt := (case SucceededAt m of None \<Rightarrow> SucceededAt m0 | Some t \<Rightarrow> Some (at_seconds t)),
        SuccessDuration := (case SucceededAt m of None \<Rightarrow> SuccessDuration m0 | Some _ \<Rightarrow> SuccessDuration m),
        FailedAt := (case FailedAt m of None \<Rightarrow> FailedAt m0 | Some t \<Rightarrow> Some (at_seconds t)),
        FailureDuration := (case FailedAt m of None \<Rightarrow> FailureDuration m0 | Some _ \<Rightarrow> FailureDuration m)\<rparr>"
proof -
  note s = storable_simps [OF assms]
  have start: "prop_step pf m' (propZackupLastStart, if is_zero (StartedAt m) then ''-'' else int_str (unix (StartedAt m)))
      = m'\<lparr>StartedAt := (if is_zero (StartedAt m) then StartedAt m' else at_seconds (StartedAt m))\<rparr>" for m'
    using decode_second [OF s(1), where upd = "\<lambda>t m. m\<lparr>StartedAt := t\<rparr>"]
    by (simp add: prop_step_def propDecoder_user int_str_not_dash)
  have date: "prop_step pf m' (propZackupLastSuccessDate, int_str (unix t)) = m'\<lparr>SucceededAt := Some (at_seconds t)\<rparr>"
    if "SucceededAt m = Some t" for m' t
    using decode_second [OF s(2) [OF that], where upd = "\<lambda>t m. m\<lparr>SucceededAt := Some t\<rparr>"]
    by (simp add: prop_step_def propDecoder_user int_str_not_dash)
  have fdate: "prop_step pf m' (propZackupLastFailureDate, int_str (unix t)) = m'\<lparr>FailedAt := Some (at_seconds t)\<rparr>"
    if "FailedAt m = Some t" for m' t
    using decode_second [OF s(3) [OF that], where upd = "\<lambda>t m. m\<lparr>FailedAt := Some t\<rparr>"]
    by (simp add: prop_step_def propDecoder_user int_str_not_dash)
  have dur: "prop_step pf m' (propZackupLastSuccessDuration, int_str (SuccessDuration m sdiv millisecond))
      = m'\<lparr>SuccessDuration := SuccessDuration m\<rparr>" for m'
    using decode_millis [OF s(4,5), where upd = "\<lambda>d m. m\<lparr>SuccessDuration := d\<rparr>"]
    by (simp add: prop_step_def propDecoder_user int_str_not_dash)
  have fdur: "prop_step pf m' (propZackupLastFailureDuration, int_str (FailureDuration m sdiv millisecond))
      = m'\<lparr>FailureDuration := FailureDuration m\<rparr>" for m'
    using decode_millis [OF s(6,7), where upd = "\<lambda>d m. m\<lparr>FailureDuration := d\<rparr>"]
    by (simp add: prop_step_def propDecoder_user int_str_not_dash)
  have dash: "prop_step pf m' (p, ''-'') = m'" for p m' by (simp add: prop_step_def)
  show ?thesis
    by (cases "SucceededAt m"; cases "FailedAt m") (simp_all add: user_values_def start date fdate dur fdur dash)
qed

lemma prop_steps_restored:
  assumes "storable m" and "ratio_text pf ratio m"
  shows "foldl (prop_step pf) m0 (zfs_values ratio m) = restored m m0"
  unfolding zfs_values_def foldl_append prop_steps_native [OF assms(2)] prop_steps_user [OF assms(1)]
  by (rule metrics.equality) (simp_all add: restored_def split: option.split)

lemma load_zfs_values:
  assumes "storable m" and "ratio_text pf ratio m" and "plain_text ds" and "trim_prefix ds rds = h"
    and "entry_of hs h = m0"
  shows "map_of (foldl (load_line pf ds rds) hs (map (zfs_line ds) (zfs_values ratio m))) h = Some (restored m m0)"
proof -
  have "fst pv \<in> set prop_names" if "pv \<in> set (zfs_values ratio m)" for pv
    using that user_values_plain [OF assms(1), of pv]
    by (cases "pv \<in> set (user_values m)") (auto simp: zfs_values_def native_values_def prop_names_def)
  then have pl: "\<forall>pv\<in>set (zfs_values ratio m). plain_text (fst pv) \<and> plain_text (snd pv) \<and> fst pv \<in> set prop_names"
    using zfs_values_plain [OF assms(1,2)] by blast
  have "\<exists>pv\<in>set (zfs_values ratio m). snd pv \<noteq> ''-''"
    using assms(2) by (simp add: zfs_values_def native_values_def ratio_text_def)
  then show ?thesis
    using load_lines_entry [OF assms(3,4) pl, of pf hs] assms(5) prop_steps_restored [OF assms(1,2)]
    by (auto split: option.splits)
qed

lemma load_lines_other:
  assumes "trim_prefix ds rds \<noteq> h"
  shows "map_of (foldl (load_line pf ds rds) hs ls) h = map_of hs h"
proof (induction ls arbitrary: hs)
  case (Cons l ls)
  have "map_of (load_line pf ds rds hs l) h = map_of hs h"
    using assms by (auto simp: load_line_def Let_def split: option.split)
  then show ?case by (simp add: Cons.IH)
qed simp

section \<open>The name of a dataset\<close>

text \<open>With a clean relative root dataset the host's dataset is below it and names the host.\<close>

lemma dataset_host:
  assumes "cs \<noteq> []" and "list_all plain_comp cs" and "plain_comp h"
  shows "path_join [rel_path cs, h] = rel_path cs @ ''/'' @ h"
    and "trim_prefix (path_join [rel_path cs, h]) (rel_path cs @ ''/'') = h"
proof -
  show j: "path_join [rel_path cs, h] = rel_path cs @ ''/'' @ h"
    using path_join_rel [OF assms] assms(1) by (simp add: rel_path_def join_snoc)
  show "trim_prefix (path_join [rel_path cs, h]) (rel_path cs @ ''/'') = h"
    unfolding j using trim_prefix_append [of "rel_path cs @ ''/''" h] by simp
qed

text \<open>With a trailing slash, cleaning and the prefix disagree: the whole name is the key.\<close>

lemma dataset_host_slash:
  assumes "cs \<noteq> []" and "list_all plain_comp cs" and "plain_comp h"
  shows "path_join [rel_path cs @ ''/'', h] = rel_path cs @ ''/'' @ h"
    and "trim_prefix (path_join [rel_path cs @ ''/'', h]) ((rel_path cs @ ''/'') @ ''/'') = rel_path cs @ ''/'' @ h"
proof -
  have h: "h \<noteq> []" using assms(3) by (simp add: plain_comp_def)
  then have h2: "hd h \<noteq> slash" using assms(3) by (cases h) (auto simp: plain_comp_def)
  have "split_on slash (rel_path cs @ slash # slash # h) = cs @ [[], h]"
    using split_on_append [of slash "rel_path cs" "slash # h"] assms
    by (simp add: rel_path_def split_on_join_plain split_on_no_sep plain_comp_def)
  moreover have "clean_go False [] (cs @ [[], h]) = cs @ [h]"
  proof -
    have "clean_go r st (xs @ [[], h]) = clean_go r st (xs @ [h])" for r st xs
      by (induction xs arbitrary: st) (auto split: list.splits)
    then show ?thesis using assms clean_go_plain [of "cs @ [h]"] by simp
  qed
  moreover have "rel_path cs \<noteq> []" "\<not> is_abs (rel_path cs @ slash # slash # h)"
    using rel_path_hd [OF assms(1,2)] by (auto simp: is_abs_def)
  ultimately have "clean (rel_path cs @ slash # slash # h) = join ''/'' (cs @ [h])"
    by (simp add: clean_def)
  then show j: "path_join [rel_path cs @ ''/'', h] = rel_path cs @ ''/'' @ h"
    using h(1) assms(1) by (simp add: path_join_def rel_path_def join_snoc)
  have "\<not> prefix (rel_path cs @ ''//'') (rel_path cs @ ''/'' @ h)"
    using h h2 by (cases h) auto
  then show "trim_prefix (path_join [rel_path cs @ ''/'', h]) ((rel_path cs @ ''/'') @ ''/'') = rel_path cs @ ''/'' @ h"
    unfolding j by (simp add: trim_prefix_def)
qed

lemma unix_at_seconds [simp]: "unix (at_seconds t) = unix t"
  by (simp add: unix_def at_seconds_def)

lemma at_seconds_less: "at_seconds t < at_seconds u \<longleftrightarrow> unix t < unix u"
  by (simp add: at_seconds_def)

lemma at_seconds_le: "at_seconds t \<le> at_seconds u \<longleftrightarrow> unix t \<le> unix u"
  by (simp add: at_seconds_def)

lemma at_seconds_not_zero: "is_zero (at_seconds t) \<longleftrightarrow> unix t = - 62135596800"
  by (simp add: at_seconds_def is_zero_def zero_time_def)


section \<open>A restart\<close>

lemma loadHost_output:
  assumes "zfs (load_args (path_join [v_RootDataset st, h])) = (out, False)" and "scan_lines out = (ls, None)"
  shows "loadHost pf zfs h st =
    (st\<lparr>a_hosts := foldl (load_line pf (path_join [v_RootDataset st, h]) (v_RootDataset st @ ''/'')) (a_hosts st) ls\<rparr>, None)"
  using assms by (simp add: loadHost_def Let_def)

lemma loadHost_stored:
  assumes m: "storable m"
    and root: "v_RootDataset st = rel_path cs" "cs \<noteq> []" "list_all plain_comp cs" "plain_comp h"
    and ds: "plain_text (rel_path cs @ ''/'' @ h)" "length (rel_path cs @ ''/'' @ h) \<le> 1000"
    and known: "map_of (a_hosts st) h = Some m0"
    and zfs: "zfs_has pf zfs (rel_path cs @ ''/'' @ h) m"
  shows "\<exists>st'. loadHost pf zfs h st = (st', None) \<and> map_of (a_hosts st') h = Some (restored m m0)"
proof -
  note d = dataset_host [OF root(2,3,4)]
  obtain ratio where r: "ratio_text pf ratio m"
      and zfs: "zfs (load_args (rel_path cs @ ''/'' @ h)) = (zfs_output ratio (rel_path cs @ ''/'' @ h) m, False)"
    using zfs by (auto simp: zfs_has_def)
  have "loadHost pf zfs h st = (st\<lparr>a_hosts := foldl (load_line pf (rel_path cs @ ''/'' @ h) (rel_path cs @ ''/''))
      (a_hosts st) (map (zfs_line (rel_path cs @ ''/'' @ h)) (zfs_values ratio m))\<rparr>, None)"
    using loadHost_output [of zfs st h, OF _ scan_zfs_output [OF m r ds]] zfs root(1) d(1) by simp
  moreover have "trim_prefix (rel_path cs @ ''/'' @ h) (rel_path cs @ ''/'') = h" using d by simp
  ultimately show ?thesis using load_zfs_values [OF m r ds(1), of "rel_path cs @ ''/''" h "a_hosts st" m0] known by simp
qed

text \<open>With a trailing slash in the root dataset the prefix does not match.\<close>

lemma loadHost_trailing:
  assumes m: "storable m"
    and root: "v_RootDataset st = rel_path cs @ ''/''" "cs \<noteq> []" "list_all plain_comp cs" "plain_comp h"
    and ds: "plain_text (rel_path cs @ ''/'' @ h)" "length (rel_path cs @ ''/'' @ h) \<le> 1000"
    and new: "map_of (a_hosts st) (rel_path cs @ ''/'' @ h) = None"
    and zfs: "zfs_has pf zfs (rel_path cs @ ''/'' @ h) m"
  shows "\<exists>st'. loadHost pf zfs h st = (st', None)
    \<and> map_of (a_hosts st') (rel_path cs @ ''/'' @ h) = Some (restored m zero_metrics)
    \<and> map_of (a_hosts st') h = map_of (a_hosts st) h"
proof -
  let ?ds = "rel_path cs @ ''/'' @ h"
  let ?ll = "load_line pf ?ds (v_RootDataset st @ ''/'')"
  obtain ratio where r: "ratio_text pf ratio m" and zfs: "zfs (load_args ?ds) = (zfs_output ratio ?ds m, False)"
    using zfs by (auto simp: zfs_has_def)
  note d = dataset_host_slash [OF root(2,3,4)]
  have tp: "trim_prefix ?ds (v_RootDataset st @ ''/'') = ?ds" using d root(1) by simp
  have l: "loadHost pf zfs h st = (st\<lparr>a_hosts := foldl ?ll (a_hosts st) (map (zfs_line ?ds) (zfs_values ratio m))\<rparr>, None)"
    using loadHost_output [of zfs st h, OF _ scan_zfs_output [OF m r ds]] zfs root(1) d(1) by simp
  have "map_of (foldl ?ll (a_hosts st) (map (zfs_line ?ds) (zfs_values ratio m))) ?ds = Some (restored m zero_metrics)"
    using new by (intro load_zfs_values [OF m r ds(1) tp]) simp
  moreover have "h \<noteq> ?ds" by simp
  moreover have "map_of (foldl ?ll hs (map (zfs_line ?ds) pvs)) h = map_of hs h" for hs pvs
    using tp \<open>h \<noteq> ?ds\<close> by (intro load_lines_other) simp
  ultimately show ?thesis using l by simp
qed

text \<open>Instants whose order survives cutting them to seconds.\<close>

definition seconds_apart :: "metrics \<Rightarrow> bool" where
  "seconds_apart m \<longleftrightarrow>
     is_zero (at_seconds (StartedAt m)) = is_zero (StartedAt m)
     \<and> (case SucceededAt m of None \<Rightarrow> True | Some ok \<Rightarrow> ok < StartedAt m \<longrightarrow> unix ok < unix (StartedAt m))
     \<and> (case FailedAt m of None \<Rightarrow> True | Some er \<Rightarrow> er < StartedAt m \<longrightarrow> unix er < unix (StartedAt m))
     \<and> (case (SucceededAt m, FailedAt m) of (Some ok, Some er) \<Rightarrow> ok = er \<or> unix ok \<noteq> unix er | _ \<Rightarrow> True)"

lemma at_seconds_results:
  assumes "x < y \<longrightarrow> unix x < unix y"
  shows "at_seconds x < at_seconds y \<longleftrightarrow> x < y" and "at_seconds y \<le> at_seconds x \<longleftrightarrow> y \<le> x"
  using assms unix_mono [of y x] by (auto simp: at_seconds_less at_seconds_le not_less [symmetric])

lemma at_seconds_order:
  assumes "x = y \<or> unix x \<noteq> unix y"
  shows "at_seconds x < at_seconds y \<longleftrightarrow> x < y"
  using assms unix_mono [of y x] unix_mono [of x y] by (auto simp: at_seconds_less not_less [symmetric])

lemma restored_status:
  assumes "seconds_apart m" and "SucceededAt m0 = None" and "FailedAt m0 = None"
    and z: "is_zero (StartedAt m) \<longrightarrow> is_zero (StartedAt m0)"
  shows "Status (restored m m0) = Status m"
proof (cases "is_zero (StartedAt m)")
  case True
  then show ?thesis using z by (simp add: Status_def Let_def restored_def)
next
  case started: False
  show ?thesis
  proof (cases "SucceededAt m")
    case None
    then show ?thesis using started assms at_seconds_results [of "the (FailedAt m)" "StartedAt m"]
      by (cases "FailedAt m") (simp_all add: Status_def Let_def restored_def seconds_apart_def)
  next
    case (Some ok)
    then show ?thesis
      using started assms at_seconds_results [of "the (FailedAt m)" "StartedAt m"] at_seconds_results [of ok "StartedAt m"]
        at_seconds_order [of "the (FailedAt m)" ok] at_seconds_order [of ok "the (FailedAt m)"]
      by (cases "FailedAt m") (auto simp: Status_def Let_def restored_def seconds_apart_def)
  qed
qed

section \<open>What the life cycle stores\<close>

definition set_argv :: "string \<Rightarrow> (string \<times> string) list \<Rightarrow> argv" where
  "set_argv ds pvs = ''set'' # map (\<lambda>pv. fst pv @ ''='' @ snd pv) pvs @ [ds]"

text \<open>Every call sets values of the new metrics, and all that changed are among them.\<close>

lemma start_stores:
  assumes "start h t st = (st', calls)" and "\<not> is_zero t"
  shows "\<exists>m pvs. map_of (a_hosts st') h = Some m \<and> StartedAt m = t
    \<and> calls = [set_argv (path_join [v_RootDataset st, h]) pvs] \<and> set pvs \<subseteq> set (user_values m)"
proof -
  let ?pvs = "[(propZackupLastStart, int_str (unix t))]"
  have "calls = [set_argv (path_join [v_RootDataset st, h]) ?pvs]"
    using assms by (auto simp: start_def Let_def storeStart_def set_argv_def)
  moreover obtain m where "map_of (a_hosts st') h = Some m" "StartedAt m = t"
    using assms by (auto simp: start_def Let_def map_of_update split: option.splits)
  ultimately show ?thesis using assms(2) by (intro exI [of _ m] exI [of _ ?pvs]) (simp add: user_values_def)
qed

lemma success_stores:
  assumes "success h t st = (st', calls)" and "map_of (a_hosts st) h = Some m"
  shows "\<exists>m' pvs. map_of (a_hosts st') h = Some m' \<and> SucceededAt m' = Some t \<and> StartedAt m' = StartedAt m
    \<and> FailedAt m' = FailedAt m \<and> calls = [set_argv (path_join [v_RootDataset st, h]) pvs] \<and> set pvs \<subseteq> set (user_values m')"
proof -
  let ?m = "m\<lparr>SucceededAt := Some t, SuccessDuration := run_time t m\<rparr>"
  let ?pvs = "[(propZackupLastSuccessDate, int_str (unix t)),
    (propZackupLastSuccessDuration, int_str (run_time t m sdiv millisecond))]"
  have "calls = [set_argv (path_join [v_RootDataset st, h]) ?pvs]" "map_of (a_hosts st') h = Some ?m"
    using assms by (auto simp: success_def Let_def storeResult_def set_argv_def map_of_update)
  then show ?thesis by (intro exI [of _ ?m] exI [of _ ?pvs]) (simp add: user_values_def)
qed

lemma failure_stores:
  assumes "failure h t st = (st', calls)" and "map_of (a_hosts st) h = Some m"
  shows "\<exists>m' pvs. map_of (a_hosts st') h = Some m' \<and> FailedAt m' = Some t \<and> StartedAt m' = StartedAt m
    \<and> SucceededAt m' = SucceededAt m \<and> calls = [set_argv (path_join [v_RootDataset st, h]) pvs] \<and> set pvs \<subseteq> set (user_values m')"
proof -
  let ?m = "m\<lparr>FailedAt := Some t, FailureDuration := run_time t m\<rparr>"
  let ?pvs = "[(propZackupLastFailureDate, int_str (unix t)),
    (propZackupLastFailureDuration, int_str (run_time t m sdiv millisecond))]"
  have "calls = [set_argv (path_join [v_RootDataset st, h]) ?pvs]" "map_of (a_hosts st') h = Some ?m"
    using assms by (auto simp: failure_def Let_def storeResult_def set_argv_def map_of_update)
  then show ?thesis by (intro exI [of _ ?m] exI [of _ ?pvs]) (simp add: user_values_def)
qed

section \<open>Properties\<close>

text \<open>What a start or a result asks ZFS to set on the host's dataset are values of the metrics just
  updated, in the form in which \<open>user_values\<close> lists them.\<close>

theorem lifecycle_stores:
  assumes "map_of (a_hosts st) h = Some m" and "\<not> is_zero t"
  shows "\<exists>m1 m2 m3 p1 p2 p3 ds. ds = path_join [v_RootDataset st, h]
    \<and> map_of (a_hosts (fst (start h t st))) h = Some m1 \<and> StartedAt m1 = t
    \<and> snd (start h t st) = [set_argv ds p1] \<and> set p1 \<subseteq> set (user_values m1)
    \<and> map_of (a_hosts (fst (success h t st))) h = Some m2 \<and> SucceededAt m2 = Some t
    \<and> snd (success h t st) = [set_argv ds p2] \<and> set p2 \<subseteq> set (user_values m2)
    \<and> map_of (a_hosts (fst (failure h t st))) h = Some m3 \<and> FailedAt m3 = Some t
    \<and> snd (failure h t st) = [set_argv ds p3] \<and> set p3 \<subseteq> set (user_values m3)"
  using start_stores [OF prod.collapse [symmetric] assms(2), of h st]
    success_stores [OF prod.collapse [symmetric] assms(1), of t]
    failure_stores [OF prod.collapse [symmetric] assms(1), of t] by blast

lemma lifecycle_stores_witness:
  "\<exists>m p. map_of (a_hosts (fst (success ''a'' 0 ((initial_app (NewTree []))\<lparr>a_hosts := [(''a'', zero_metrics)]\<rparr>)))) ''a'' = Some m
    \<and> snd (success ''a'' 0 ((initial_app (NewTree []))\<lparr>a_hosts := [(''a'', zero_metrics)]\<rparr>))
      = [set_argv (path_join [''zroot'', ''a'']) p] \<and> set p \<subseteq> set (user_values m)"
  using lifecycle_stores [of "(initial_app (NewTree []))\<lparr>a_hosts := [(''a'', zero_metrics)]\<rparr>" "''a''" zero_metrics 0]
  by (auto simp: initial_app_def is_zero_def zero_time_def)

text \<open>C6: When ZFS has the metrics of a host as the properties of its dataset, it answers the request of \<open>loadHost\<close>
  with a line for each of the ten properties, a dash for what was never set; loading the host then puts
  these metrics into its entry: start and results, with the instants cut to seconds and their durations
  in full, the four sizes and the compression factor. What was never set, the plan and the job stay those of
  the entry. The root dataset is a clean relative name, the host has an entry and a plain name, the dataset's name
  fits into a line, and what the program stored are instants \<open>time.Unix\<close> can name and durations in whole
  milliseconds.\<close>

theorem persist_roundtrip:
  assumes "storable m"
    and "v_RootDataset st = rel_path cs" and "cs \<noteq> []" and "list_all plain_comp cs" and "plain_comp h"
    and "plain_text (rel_path cs @ ''/'' @ h)" and "length (rel_path cs @ ''/'' @ h) \<le> 1000"
    and "map_of (a_hosts st) h = Some m0"
    and "zfs_has pf zfs (rel_path cs @ ''/'' @ h) m"
  shows "\<exists>st'. loadHost pf zfs h st = (st', None) \<and> map_of (a_hosts st') h = Some (restored m m0)"
  using assms by (rule loadHost_stored)

abbreviation example_metrics :: metrics where
  "example_metrics \<equiv> zero_metrics\<lparr>StartedAt := 1600000000 * second, SucceededAt := Some (1600000060 * second + 7),
    SuccessDuration := 60 * second, SpaceUsedByDataset := 4096, CompressionFactor := 9\<rparr>"

lemma example_storable: "storable example_metrics"
  by (auto simp: storable_def zero_metrics_def unix_range_def int64_range_def unix_def)

lemma example_has: "zfs_has (\<lambda>_. Ok (CompressionFactor m)) (\<lambda>_. (zfs_output ''1.50x'' ds m, False)) ds m"
  unfolding zfs_has_def
  by (intro exI [of _ "''1.50x''"]) (simp add: ratio_text_def plain_text_def tab_def newline_def)

lemma persist_roundtrip_witness:
  "\<exists>st'. loadHost (\<lambda>_. Ok 9) (\<lambda>_. (zfs_output ''1.50x'' ''zroot/a'' example_metrics, False)) ''a''
      ((initial_app (NewTree []))\<lparr>a_hosts := [(''a'', zero_metrics)]\<rparr>) = (st', None)
    \<and> map_of (a_hosts st') ''a'' = Some (restored example_metrics zero_metrics)"
proof -
  have z: "rel_path [''zroot''] @ ''/'' @ ''a'' = ''zroot/a''" by (simp add: rel_path_def)
  show ?thesis
    using persist_roundtrip [OF example_storable, of "(initial_app (NewTree []))\<lparr>a_hosts := [(''a'', zero_metrics)]\<rparr>"
        "[''zroot'']" "''a''" zero_metrics "\<lambda>_. Ok 9" "\<lambda>_. (zfs_output ''1.50x'' ''zroot/a'' example_metrics, False)"]
      example_has [of example_metrics "''zroot/a''"]
    unfolding z by (simp add: initial_app_def rel_path_def plain_comp_def plain_text_def tab_def newline_def)
qed

text \<open>A restart keeps the status of a host when its instants are seconds apart; in particular a
  backup the restart interrupted is shown as running ever after.\<close>

theorem restart_keeps_status:
  assumes "seconds_apart m" and "SucceededAt m0 = None" and "FailedAt m0 = None" and "is_zero (StartedAt m0)"
  shows "Status (restored m m0) = Status m"
  using assms by (intro restored_status) simp_all

lemma restart_keeps_status_witness:
  "Status (restored example_metrics zero_metrics) = StatusSuccess
    \<and> Status (restored (example_metrics\<lparr>StartedAt := 1700000000 * second\<rparr>) zero_metrics) = StatusRunning"
  using restart_keeps_status [of example_metrics zero_metrics]
    restart_keeps_status [of "example_metrics\<lparr>StartedAt := 1700000000 * second\<rparr>" zero_metrics]
  by (simp add: seconds_apart_def zero_metrics_def is_zero_def zero_time_def at_seconds_def unix_def Status_def)

text \<open>With a trailing slash in the configured root dataset, what ZFS stored for a host is not
  restored to that host: it ends up under the name of the dataset, in an entry without a job.\<close>

theorem trailing_slash_wrong_host:
  assumes "storable m"
    and "v_RootDataset st = rel_path cs @ ''/''" and "cs \<noteq> []" and "list_all plain_comp cs" and "plain_comp h"
    and "plain_text (rel_path cs @ ''/'' @ h)" and "length (rel_path cs @ ''/'' @ h) \<le> 1000"
    and "map_of (a_hosts st) (rel_path cs @ ''/'' @ h) = None"
    and "zfs_has pf zfs (rel_path cs @ ''/'' @ h) m"
  shows "\<exists>st' m'. loadHost pf zfs h st = (st', None) \<and> map_of (a_hosts st') (rel_path cs @ ''/'' @ h) = Some m'
    \<and> m_job m' = None \<and> map_of (a_hosts st') h = map_of (a_hosts st) h"
  using loadHost_trailing [where zfs = zfs and pf = pf, OF assms] by (auto simp: restored_def zero_metrics_def)

lemma trailing_slash_wrong_host_witness:
  "\<exists>st' m'. loadHost (\<lambda>_. Ok 9) (\<lambda>_. (zfs_output ''1.50x'' ''zroot/a'' example_metrics, False)) ''a''
      ((initial_app (NewTree []))\<lparr>v_RootDataset := ''zroot/'', a_hosts := [(''a'', zero_metrics)]\<rparr>) = (st', None)
    \<and> map_of (a_hosts st') ''zroot/a'' = Some m' \<and> m_job m' = None"
proof -
  have z: "rel_path [''zroot''] @ ''/'' @ ''a'' = ''zroot/a''" "rel_path [''zroot''] @ ''/'' = ''zroot/''"
    by (simp_all add: rel_path_def)
  show ?thesis
    using trailing_slash_wrong_host [OF example_storable,
        of "(initial_app (NewTree []))\<lparr>v_RootDataset := ''zroot/'', a_hosts := [(''a'', zero_metrics)]\<rparr>"
        "[''zroot'']" "''a''" "\<lambda>_. Ok 9" "\<lambda>_. (zfs_output ''1.50x'' ''zroot/a'' example_metrics, False)"]
      example_has [of example_metrics "''zroot/a''"]
    unfolding z by (auto simp: plain_comp_def plain_text_def tab_def newline_def)
qed

end
