(* ===== verification/App_Runner.thy ===== *)
theory App_Runner imports App_Ssh App_Persist begin

text \<open>
  \<open>app/runner.go\<close>: one backup, from the dataset to the snapshot. The deferred calls run in
  reverse order on every way out, a panic included: first the tunnel is closed, then the
  result is recorded. An automaton over the actions says which order of commands is allowed;
  the theory shows that every backup follows it.
\<close>

section \<open>Datasets\<close>

record dataset =
  ds_Host :: string
  ds_Mount :: string
  ds_Name :: string

definition newDataset :: "app \<Rightarrow> string \<Rightarrow> dataset" where
  "newDataset st host =
     \<lparr>ds_Host = host, ds_Mount = path_join [v_MountBase st, host], ds_Name = path_join [v_RootDataset st, host]\<rparr>"

datatype backup_error = ErrCreate string | ErrSnapshot string | ErrSsh ssh_error

text \<open>\<open>appendStdlogs\<close>: the fields of a log entry with what the two streams captured; a buffer that was
  taken is reset. \<open>None\<close> is a nil buffer.\<close>

definition take_buffer :: "string \<Rightarrow> string option \<Rightarrow> (string \<times> string) list \<Rightarrow> (string \<times> string) list \<times> string option" where
  "take_buffer key buf f =
     (case buf of
        Some s \<Rightarrow> if 0 < length s then (AList.update key s f, Some []) else (f, buf)
      | None \<Rightarrow> (f, buf))"

definition appendStdlogs ::
  "(string \<times> string) list \<Rightarrow> string option \<Rightarrow> string option \<Rightarrow> (string \<times> string) list \<times> string option \<times> string option" where
  "appendStdlogs f out err =
     (let (f, out) = take_buffer ''stdout'' out f; (f, err) = take_buffer ''stderr'' err f in (f, out, err))"

lemma appendStdlogs_fields:
  assumes "appendStdlogs f out err = (f', out', err')"
  shows "map_of f' k =
      (if k = ''stdout'' \<and> out \<noteq> None \<and> out \<noteq> Some [] then out
       else if k = ''stderr'' \<and> err \<noteq> None \<and> err \<noteq> Some [] then err else map_of f k)"
    and "appendStdlogs f' out' err' = (f', out', err')"
  using assms by (auto simp: appendStdlogs_def take_buffer_def split: option.splits if_splits)

text \<open>\<open>zfs\<close> and \<open>execZFS\<close>: one command, its output only goes to the log.\<close>

definition zfs_cmd :: "os \<Rightarrow> argv \<Rightarrow> world \<Rightarrow> bool \<times> world" where
  "zfs_cmd os args w = act os (AZfs args) w"

definition ds_create :: "os \<Rightarrow> dataset \<Rightarrow> world \<Rightarrow> backup_error option \<times> world" where
  "ds_create os ds w =
     (case zfs_cmd os [''create'', ''-p'', ds_Name ds] w of
        (True, w) \<Rightarrow> (None, w)
      | (False, w) \<Rightarrow> (Some (ErrCreate (ds_Name ds)), w))"

definition snapshot_name :: "dataset \<Rightarrow> time \<Rightarrow> string" where
  "snapshot_name ds now = ds_Name ds @ ''@'' @ rfc3339 now"

definition ds_snapshot :: "os \<Rightarrow> dataset \<Rightarrow> world \<Rightarrow> backup_error option \<times> world" where
  "ds_snapshot os ds w =
     (let name = snapshot_name ds (os_now os (w_trace w))
      in case zfs_cmd os [''snapshot'', name] w of
           (True, w) \<Rightarrow> (None, w)
         | (False, w) \<Rightarrow> (Some (ErrSnapshot name), w))"

section \<open>The life cycle with its commands\<close>

text \<open>The calls of \<open>state.start\<close> and so on: what they store, whether ZFS accepts it or not.\<close>

definition lifecycle :: "os \<Rightarrow> (time \<Rightarrow> app \<Rightarrow> app \<times> argv list) \<Rightarrow> world \<Rightarrow> world" where
  "lifecycle os f w =
     (let (st, calls) = f (os_now os (w_trace w)) (w_app w)
      in w\<lparr>w_app := st, w_trace := w_trace w @ map AZfs calls\<rparr>)"

section \<open>The backup\<close>

text \<open>How the body of the function ends: with its error variable, or with a panic.\<close>

datatype ending = Returned "backup_error option" | Panicked

text \<open>A step is skipped once the function is on its way out.\<close>

definition and_then :: "ending \<times> world \<Rightarrow> (world \<Rightarrow> ending \<times> world) \<Rightarrow> ending \<times> world" where
  "and_then r f = (case r of (Returned None, w) \<Rightarrow> f w | (e, w) \<Rightarrow> (e, w))"

definition run_script :: "os \<Rightarrow> ssh_master \<Rightarrow> script \<Rightarrow> world \<Rightarrow> ending \<times> world" where
  "run_script os c s w =
     (if Lines s = [] then (Returned None, w)
      else case execute os c (Lines s) w of (e, w) \<Rightarrow> (Returned (map_option ErrSsh e), w))"

text \<open>A job without an rsync section makes \<open>BuildArgVector\<close> read through a nil pointer.\<close>

definition run_rsync :: "os \<Rightarrow> ssh_master \<Rightarrow> rsync_config option \<Rightarrow> world \<Rightarrow> ending \<times> world" where
  "run_rsync os c r w =
     (case r of
        None \<Rightarrow> (Panicked, w)
      | Some r \<Rightarrow> (case master_rsync os c r w of (e, w) \<Rightarrow> (Returned (map_option ErrSsh e), w)))"

definition run_snapshot :: "os \<Rightarrow> dataset \<Rightarrow> world \<Rightarrow> ending \<times> world" where
  "run_snapshot os ds w = (case ds_snapshot os ds w of (e, w) \<Rightarrow> (Returned e, w))"

text \<open>What runs while the tunnel is up.\<close>

definition run_connected :: "os \<Rightarrow> job_config \<Rightarrow> dataset \<Rightarrow> ssh_master \<Rightarrow> world \<Rightarrow> ending \<times> world" where
  "run_connected os job ds c w =
     and_then (and_then (and_then (run_script os c (PreScript job) w)
       (run_rsync os c (RSync job))) (run_script os c (PostScript job))) (run_snapshot os ds)"

text \<open>From \<open>newSSHMaster\<close>, which reads through the job's SSH section, to the deferred \<open>close\<close>.\<close>

definition run_tunnel :: "os \<Rightarrow> job_config \<Rightarrow> dataset \<Rightarrow> world \<Rightarrow> ending \<times> world" where
  "run_tunnel os job ds w =
     (case SSH job of
        None \<Rightarrow> (Panicked, w)
      | Some cfg \<Rightarrow>
          (case connect os (newSSHMaster (w_app w) (job_host job) cfg) w of
             (Some e, _, w) \<Rightarrow> (Returned (Some (ErrSsh e)), w)
           | (None, c, w) \<Rightarrow>
               (case run_connected os job ds c w of (r, w) \<Rightarrow> (r, snd (close os c w)))))"

text \<open>The deferred function: a panic leaves the error variable \<open>nil\<close>.\<close>

definition record_result :: "os \<Rightarrow> string \<Rightarrow> ending \<Rightarrow> world \<Rightarrow> world" where
  "record_result os host r w =
     (case r of
        Returned (Some e) \<Rightarrow> lifecycle os (failure host) w
      | _ \<Rightarrow> lifecycle os (success host) w)"

definition PerformBackup :: "os \<Rightarrow> job_config option \<Rightarrow> world \<Rightarrow> ending \<times> world" where
  "PerformBackup os job w =
     (case job of
        None \<Rightarrow> (Panicked, w)
      | Some job \<Rightarrow>
          (let host = Host job; ds = newDataset (w_app w) host
           in case ds_create os ds w of
                (Some e, w) \<Rightarrow> (Returned (Some e), w)
              | (None, w) \<Rightarrow>
                  (case run_tunnel os job ds (lifecycle os (start host) w) of
                     (r, w) \<Rightarrow> (r, record_result os host r w))))"

section \<open>The order of the commands\<close>

text \<open>
  The phases of a backup. The flag of the last ones says whether the snapshot was taken.
\<close>

datatype phase =
    Fresh
  | Created
  | Started
  | Connected
  | Synced
  | Snapped
  | Killing bool
  | Terminating bool
  | Closed bool
  | Recorded bool

definition script_action :: "action \<Rightarrow> bool" where
  "script_action a = (case a of
     APipe _ \<Rightarrow> True | AExecStart _ \<Rightarrow> True | ASend _ \<Rightarrow> True | AFlush \<Rightarrow> True | ACloseStdin \<Rightarrow> True
   | AExecWait \<Rightarrow> True | _ \<Rightarrow> False)"

definition zfs_verb :: "string \<Rightarrow> action \<Rightarrow> bool" where
  "zfs_verb v a = (case a of AZfs (x # _) \<Rightarrow> x = v | _ \<Rightarrow> False)"

text \<open>One action, given whether it succeeds; \<open>None\<close> is an action out of order.\<close>

definition phase_step :: "bool \<Rightarrow> phase \<Rightarrow> action \<Rightarrow> phase option" where
  "phase_step ok p a =
     (case p of
        Fresh \<Rightarrow> if zfs_verb ''create'' a then Some (if ok then Created else Fresh) else None
      | Created \<Rightarrow> if zfs_verb ''set'' a then Some Started else None
      | Started \<Rightarrow>
          (case a of
             ATunnelStart _ \<Rightarrow> Some (if ok then Connected else Started)
           | _ \<Rightarrow> if zfs_verb ''set'' a then Some (Recorded False) else None)
      | Connected \<Rightarrow>
          (case a of
             ARsyncStart _ \<Rightarrow> Some Connected
           | ARsyncWait \<Rightarrow> Some (if ok then Synced else Connected)
           | ATunnelTerm \<Rightarrow> Some (if ok then Terminating False else Killing False)
           | _ \<Rightarrow> if script_action a then Some Connected else None)
      | Synced \<Rightarrow>
          (case a of
             ATunnelTerm \<Rightarrow> Some (if ok then Terminating False else Killing False)
           | _ \<Rightarrow> if script_action a then Some Synced
                  else if zfs_verb ''snapshot'' a then Some (if ok then Snapped else Synced) else None)
      | Snapped \<Rightarrow> if a = ATunnelTerm then Some (if ok then Terminating True else Killing True) else None
      | Killing b \<Rightarrow> if a = ATunnelKill then Some (Terminating b) else None
      | Terminating b \<Rightarrow> if a = ATunnelWait then Some (Closed b) else None
      | Closed b \<Rightarrow> if zfs_verb ''set'' a then Some (Recorded b) else None
      | Recorded b \<Rightarrow> None)"

fun phases :: "os \<Rightarrow> action list \<Rightarrow> phase \<Rightarrow> action list \<Rightarrow> phase option" where
  "phases os h p [] = Some p"
| "phases os h p (a # as) =
     (case phase_step (os_ok os h a) p a of
        None \<Rightarrow> None
      | Some q \<Rightarrow> phases os (h @ [a]) q as)"

lemma phases_append:
  "phases os h p (as @ bs) = (case phases os h p as of None \<Rightarrow> None | Some q \<Rightarrow> phases os (h @ as) q bs)"
  by (induction as arbitrary: h p) (simp_all split: option.split)

text \<open>A piece of a backup takes the world from one phase to another and leaves the state alone.\<close>

definition moves :: "os \<Rightarrow> phase \<Rightarrow> world \<Rightarrow> phase \<Rightarrow> world \<Rightarrow> bool" where
  "moves os p w q w' \<longleftrightarrow> w_app w' = w_app w
     \<and> (\<exists>as. w_trace w' = w_trace w @ as \<and> phases os (w_trace w) p as = Some q)"

named_theorems moves_intros

lemma moves_refl [simp, moves_intros]: "moves os p w p w"
  by (simp add: moves_def)

lemma moves_trans: "moves os p w q w' \<Longrightarrow> moves os q w' r w'' \<Longrightarrow> moves os p w r w''"
  unfolding moves_def by (fastforce simp: phases_append)

lemma moves_act:
  "act os a w = (b, w') \<Longrightarrow> phase_step b p a = Some q \<Longrightarrow> moves os p w q w'"
  by (auto simp: moves_def act_def intro!: exI [of _ "[a]"])

definition script_phase :: "phase \<Rightarrow> bool" where
  "script_phase p \<longleftrightarrow> p = Connected \<or> p = Synced"

lemma moves_script_act:
  "act os a w = (b, w') \<Longrightarrow> script_action a \<Longrightarrow> script_phase p \<Longrightarrow> moves os p w p w'"
  by (erule moves_act) (cases a; simp add: script_phase_def phase_step_def script_action_def; elim disjE; simp)

lemma moves_script_snd: "script_action a \<Longrightarrow> script_phase p \<Longrightarrow> moves os p w p (snd (act os a w))"
  by (rule moves_script_act [of os a w "fst (act os a w)"]) simp_all

lemma script_actions [simp]:
  "script_action (APipe x)" "script_action (AExecStart v)" "script_action (ASend l)" "script_action AFlush"
  "script_action ACloseStdin" "script_action AExecWait"
  by (simp_all add: script_action_def)

lemma captureOutput_moves:
  assumes "captureOutput os w = (e, w')" and "script_phase p"
  shows "moves os p w p w'"
  using assms by (auto simp: captureOutput_def split: prod.splits bool.splits
      intro: moves_script_act moves_trans [OF moves_script_act moves_script_act])

lemma send_lines_moves:
  "send_lines os ls w = (e, w') \<Longrightarrow> script_phase p \<Longrightarrow> moves os p w p w'"
proof (induction ls arbitrary: w)
  case (Cons l ls)
  obtain b w1 where a1: "act os (ASend (l @ [newline])) w = (b, w1)" by fastforce
  obtain b' w2 where a2: "act os AFlush w1 = (b', w2)" by fastforce
  have m1: "moves os p w p w1" using moves_script_act [OF a1] Cons.prems(2) by simp
  have m2: "moves os p w1 p w2" using moves_script_act [OF a2] Cons.prems(2) by simp
  show ?case
    using Cons.prems(1) a1 a2 m1 moves_trans [OF m1 m2] Cons.IH [OF _ Cons.prems(2), of w2]
      moves_trans [OF moves_trans [OF m1 m2]]
    by (auto split: bool.splits)
qed simp

lemma execute_moves:
  assumes "execute os c ls w = (e, w')" and p: "script_phase p"
  shows "moves os p w p w'"
proof -
  obtain e0 w0 where c: "captureOutput os w = (e0, w0)" by fastforce
  note m0 = captureOutput_moves [OF c p]
  obtain b1 w1 where a1: "act os (APipe ''stdin'') w0 = (b1, w1)" by fastforce
  note m1 = moves_trans [OF m0 moves_script_act [OF a1 _ p]]
  obtain b2 w2 where a2: "act os (AExecStart (v_SSHPath (w_app w1) # execute_args c)) w1 = (b2, w2)" by fastforce
  note m2 = moves_trans [OF m1 moves_script_act [OF a2 _ p]]
  obtain e3 w3 where s: "send_lines os ls w2 = (e3, w3)" by fastforce
  note m3 = moves_trans [OF m2 send_lines_moves [OF s p]]
  note stop = moves_script_snd [of ACloseStdin p os, OF _ p]
  obtain b5 w5 where a5: "act os AExecWait (snd (act os ACloseStdin w3)) = (b5, w5)" by fastforce
  note m5 = moves_trans [OF moves_trans [OF m3 stop] moves_script_act [OF a5 _ p]]
  show ?thesis
    using assms(1) c a1 a2 s a5 m0 m1 moves_trans [OF m2 stop] moves_trans [OF m3 stop] m5
    by (auto simp: execute_def split: option.splits bool.splits)
qed

lemma run_script_moves: "run_script os c s w = (r, w') \<Longrightarrow> script_phase p \<Longrightarrow> moves os p w p w'"
  by (auto simp: run_script_def split: if_splits prod.splits intro: execute_moves)

lemma run_script_not_panicked: "run_script os c s w = (r, w') \<Longrightarrow> r \<noteq> Panicked"
  by (auto simp: run_script_def split: if_splits prod.splits)

lemma run_rsync_moves:
  assumes "run_rsync os c r w = (e, w')"
  shows "moves os Connected w (if e = Returned None then Synced else Connected) w'"
proof (cases r)
  case None
  then show ?thesis using assms by (auto simp: run_rsync_def)
next
  case (Some r)
  have p: "script_phase Connected" by (simp add: script_phase_def)
  obtain e0 w0 where c: "captureOutput os w = (e0, w0)" by fastforce
  note m0 = captureOutput_moves [OF c p]
  obtain b1 w1 where a1: "act os (ARsyncStart (rsync_argv os c r (w_app w0))) w0 = (b1, w1)" by fastforce
  have m1: "moves os Connected w Connected w1"
    using moves_trans [OF m0 moves_act [OF a1]] by (simp add: phase_step_def)
  obtain b2 w2 where a2: "act os ARsyncWait w1 = (b2, w2)" by fastforce
  have m2: "moves os Connected w (if b2 then Synced else Connected) w2"
    using moves_trans [OF m1 moves_act [OF a2]] by (simp add: phase_step_def)
  show ?thesis
    using assms Some c a1 a2 m0 m1 m2
    by (auto simp: run_rsync_def master_rsync_def split: option.splits bool.splits prod.splits)
qed

lemma run_snapshot_moves:
  assumes "run_snapshot os ds w = (e, w')"
  shows "moves os Synced w (if e = Returned None then Snapped else Synced) w' \<and> e \<noteq> Panicked"
proof -
  let ?a = "AZfs [''snapshot'', snapshot_name ds (os_now os (w_trace w))]"
  obtain b w1 where a: "act os ?a w = (b, w1)" by fastforce
  have "moves os Synced w (if b then Snapped else Synced) w1"
    using moves_act [OF a, of Synced] by (simp add: phase_step_def zfs_verb_def script_action_def)
  then show ?thesis
    using assms a by (auto simp: run_snapshot_def ds_snapshot_def zfs_cmd_def Let_def split: bool.splits)
qed

text \<open>How the part with the tunnel can end.\<close>

definition ended_in :: "ending \<Rightarrow> phase \<Rightarrow> bool" where
  "ended_in r p \<longleftrightarrow> (if r = Returned None then p = Snapped else p = Connected \<or> p = Synced)"

lemma and_thenE:
  assumes "and_then r f = (e, w')"
  obtains (stop) "r = (e, w')" "e \<noteq> Returned None" | (go) w where "r = (Returned None, w)" "f w = (e, w')"
  using assms by (cases r) (auto simp: and_then_def split: ending.splits option.splits)

lemma run_connected_moves:
  assumes "run_connected os job ds c w = (r, w')"
  shows "\<exists>p. moves os Connected w p w' \<and> ended_in r p"
  using assms unfolding run_connected_def
proof (elim and_thenE)
  have sc: "script_phase Connected" "script_phase Synced" by (simp_all add: script_phase_def)
  {
    assume r: "run_script os c (PreScript job) w = (r, w')" "r \<noteq> Returned None"
    show ?thesis using run_script_moves [OF r(1) sc(1)] r(2) by (auto simp: ended_in_def)
  next
    fix w1
    assume "run_script os c (PreScript job) w = (Returned None, w1)" "run_rsync os c (RSync job) w1 = (r, w')"
      "r \<noteq> Returned None"
    then show ?thesis
      using moves_trans [OF run_script_moves [OF _ sc(1)] run_rsync_moves] by (fastforce simp: ended_in_def)
  next
    fix w1 w2
    assume "run_script os c (PreScript job) w = (Returned None, w1)" "run_rsync os c (RSync job) w1 = (Returned None, w2)"
      and r: "run_script os c (PostScript job) w2 = (r, w')" "r \<noteq> Returned None"
    then have "moves os Connected w Synced w2"
      using moves_trans [OF run_script_moves [OF _ sc(1)] run_rsync_moves] by fastforce
    then show ?thesis using moves_trans [OF _ run_script_moves [OF r(1) sc(2)]] r(2) by (auto simp: ended_in_def)
  next
    fix w1 w2 w3
    assume "run_script os c (PreScript job) w = (Returned None, w1)" "run_rsync os c (RSync job) w1 = (Returned None, w2)"
      and r: "run_script os c (PostScript job) w2 = (Returned None, w3)" "run_snapshot os ds w3 = (r, w')"
    then have "moves os Connected w Synced w2"
      using moves_trans [OF run_script_moves [OF _ sc(1)] run_rsync_moves] by fastforce
    then have "moves os Connected w Synced w3" by (rule moves_trans) (rule run_script_moves [OF r(1) sc(2)])
    then have "moves os Connected w (if r = Returned None then Snapped else Synced) w'"
      by (rule moves_trans) (rule conjunct1 [OF run_snapshot_moves [OF r(2)]])
    then show ?thesis by (intro exI conjI) (auto simp: ended_in_def)
  }
qed simp_all

lemma close_moves:
  assumes "m_tunnel c" and "p = Connected \<or> p = Synced \<or> p = Snapped"
  shows "moves os p w (Closed (p = Snapped)) (snd (close os c w))"
proof -
  obtain b1 w1 where a1: "act os ATunnelTerm w = (b1, w1)" by fastforce
  define w2 where "w2 = (if b1 then w1 else snd (act os ATunnelKill w1))"
  have "moves os p w (if b1 then Terminating (p = Snapped) else Killing (p = Snapped)) w1"
    using assms(2) by (intro moves_act [OF a1]) (auto simp: phase_step_def script_action_def)
  moreover have "moves os (if b1 then Terminating (p = Snapped) else Killing (p = Snapped)) w1 (Terminating (p = Snapped)) w2"
    using moves_act [OF prod.collapse [symmetric], of os ATunnelKill w1 "Killing (p = Snapped)"]
    by (simp add: w2_def phase_step_def)
  ultimately have m2: "moves os p w (Terminating (p = Snapped)) w2" by (rule moves_trans)
  obtain b3 w3 where a3: "act os ATunnelWait w2 = (b3, w3)" by fastforce
  have "moves os (Terminating (p = Snapped)) w2 (Closed (p = Snapped)) w3"
    by (intro moves_act [OF a3]) (simp add: phase_step_def)
  then have "moves os p w (Closed (p = Snapped)) w3" by (rule moves_trans [OF m2])
  moreover have "snd (close os c w) = w3" using assms(1) a1 a3 by (simp add: close_def w2_def Let_def split: prod.split)
  ultimately show ?thesis by simp
qed

lemma connect_moves:
  assumes "\<not> m_tunnel c" and "connect os c w = (e, c', w')"
  shows "moves os Started w (if e = None then Connected else Started) w' \<and> (e = None \<longrightarrow> m_tunnel c')"
proof -
  obtain b w1 where a: "act os (ATunnelStart (v_SSHPath (w_app w) # connect_args c)) w = (b, w1)" by fastforce
  have "moves os Started w (if b then Connected else Started) w1"
    by (intro moves_act [OF a]) (simp add: phase_step_def)
  then show ?thesis using assms a by (auto simp: connect_def split: bool.splits)
qed

lemma run_tunnel_moves:
  assumes "run_tunnel os job ds w = (r, w')"
  shows "moves os Started w (Closed (r = Returned None)) w' \<or> moves os Started w Started w' \<and> r \<noteq> Returned None"
proof (cases "SSH job")
  case None
  then show ?thesis using assms by (auto simp: run_tunnel_def)
next
  case (Some cfg)
  let ?c = "newSSHMaster (w_app w) (job_host job) cfg"
  obtain e c w1 where cn: "connect os ?c w = (e, c, w1)" by (cases "connect os ?c w") auto
  note m1 = connect_moves [OF _ cn]
  have nt: "\<not> m_tunnel ?c" by (simp add: newSSHMaster_def)
  show ?thesis
  proof (cases e)
    case None
    obtain r' w2 where rc: "run_connected os job ds c w1 = (r', w2)" by fastforce
    then have out: "r = r'" "w' = snd (close os c w2)" using assms Some cn None by (auto simp: run_tunnel_def)
    from run_connected_moves [OF rc] obtain p where p: "moves os Connected w1 p w2" "ended_in r' p" by blast
    have "moves os p w2 (Closed (p = Snapped)) w'"
      unfolding out using m1 nt None p(2) by (intro close_moves) (auto simp: ended_in_def split: if_splits)
    moreover have "(p = Snapped) = (r = Returned None)" using p(2) out by (auto simp: ended_in_def split: if_splits)
    ultimately show ?thesis using moves_trans [OF moves_trans [OF _ p(1)]] m1 nt None by fastforce
  next
    case (Some e')
    then show ?thesis using assms \<open>SSH job = Some cfg\<close> cn m1 nt by (auto simp: run_tunnel_def)
  qed
qed

section \<open>The whole backup\<close>

lemma lifecycle_trace:
  "w_trace (lifecycle os f w) = w_trace w @ map AZfs (snd (f (os_now os (w_trace w)) (w_app w)))"
  by (simp add: lifecycle_def split: prod.split)

lemma lifecycle_app: "w_app (lifecycle os f w) = fst (f (os_now os (w_trace w)) (w_app w))"
  by (simp add: lifecycle_def split: prod.split)

lemma start_sets: "\<exists>args. snd (start h t st) = [''set'' # args]"
  by (simp add: start_def Let_def storeStart_def)

text \<open>The start is known to the state afterwards, so both results find their entry.\<close>

definition knows :: "string \<Rightarrow> app \<Rightarrow> bool" where
  "knows h st \<longleftrightarrow> map_of (a_hosts st) h \<noteq> None"

lemma start_knows: "knows h (fst (start h t st))"
  by (simp add: knows_def start_def Let_def)

lemma result_sets:
  assumes "knows h st"
  shows "\<exists>args. snd (success h t st) = [''set'' # args]" and "\<exists>args. snd (failure h t st) = [''set'' # args]"
  using assms by (auto simp: knows_def success_def failure_def Let_def storeResult_def)

lemma record_result_trace:
  assumes "knows h (w_app w)"
  shows "\<exists>args. w_trace (record_result os h r w) = w_trace w @ [AZfs (''set'' # args)]"
  using result_sets [OF assms, of "os_now os (w_trace w)"]
  by (auto simp: record_result_def lifecycle_trace split: ending.split option.split)

text \<open>The part of the run between the start and the result.\<close>

lemma PerformBackup_cases:
  assumes "PerformBackup os (Some job) w = (r, w')"
  obtains
    (create) w1 where "act os (AZfs [''create'', ''-p'', ds_Name (newDataset (w_app w) (Host job))]) w = (False, w1)"
      "w' = w1" "r = Returned (Some (ErrCreate (ds_Name (newDataset (w_app w) (Host job)))))"
  | (run) w1 w2 where "act os (AZfs [''create'', ''-p'', ds_Name (newDataset (w_app w) (Host job))]) w = (True, w1)"
      "run_tunnel os job (newDataset (w_app w) (Host job)) (lifecycle os (start (Host job)) w1) = (r, w2)"
      "w' = record_result os (Host job) r w2"
  using assms
  by (auto simp: PerformBackup_def Let_def ds_create_def zfs_cmd_def split: prod.splits option.splits bool.splits)

lemma phases_start_set: "phases os h Created [AZfs (''set'' # args)] = Some Started"
  by (simp add: phase_step_def zfs_verb_def)

lemma phases_record:
  "phases os h (Closed b) [AZfs (''set'' # args)] = Some (Recorded b)"
  "phases os h Started [AZfs (''set'' # args)] = Some (Recorded False)"
  by (simp_all add: phase_step_def zfs_verb_def)

lemma PerformBackup_phases:
  assumes "PerformBackup os (Some job) w = (r, w')"
  shows "\<exists>as p. w_trace w' = w_trace w @ as \<and> phases os (w_trace w) Fresh as = Some p
    \<and> (p = Fresh \<and> (\<exists>n. r = Returned (Some (ErrCreate n))) \<or> p = Recorded (r = Returned None))"
  using assms
proof (cases rule: PerformBackup_cases)
  case (create w1)
  then show ?thesis
    by (intro exI [of _ "[AZfs [''create'', ''-p'', ds_Name (newDataset (w_app w) (Host job))]]"])
      (auto simp: act_def phase_step_def zfs_verb_def)
next
  case (run w1 w2)
  let ?create = "AZfs [''create'', ''-p'', ds_Name (newDataset (w_app w) (Host job))]"
  let ?ws = "lifecycle os (start (Host job)) w1"
  have t1: "w_trace w1 = w_trace w @ [?create]" and ok: "os_ok os (w_trace w) ?create"
    using run(1) by (auto simp: act_def)
  obtain args where ts: "w_trace ?ws = w_trace w1 @ [AZfs (''set'' # args)]"
    using start_sets [of "Host job" "os_now os (w_trace w1)" "w_app w1"] by (auto simp: lifecycle_trace)
  have start: "phases os (w_trace w) Fresh [?create, AZfs (''set'' # args)] = Some Started"
    using ok by (simp add: phase_step_def zfs_verb_def)
  from run_tunnel_moves [OF run(2)] obtain q as where q: "w_trace w2 = w_trace ?ws @ as" "w_app w2 = w_app ?ws"
      "phases os (w_trace ?ws) Started as = Some q" "q = Closed (r = Returned None) \<or> q = Started \<and> r \<noteq> Returned None"
    by (fastforce simp: moves_def)
  have "knows (Host job) (w_app w2)" using q(2) by (simp add: lifecycle_app start_knows)
  then obtain args' where tr: "w_trace w' = w_trace w2 @ [AZfs (''set'' # args')]"
    using record_result_trace run(3) by blast
  have "phases os (w_trace w) Fresh ([?create, AZfs (''set'' # args)] @ as @ [AZfs (''set'' # args')])
      = Some (Recorded (r = Returned None))"
    unfolding phases_append start using q(3,4) ts t1 phases_record by (auto simp: phases_append)
  then show ?thesis using tr q(1) ts t1 by (intro exI conjI) auto
qed

text \<open>What must have happened before a phase is reached.\<close>

lemma phase_step_Synced:
  "phase_step b p a = Some Synced \<Longrightarrow> p = Synced \<or> p = Connected \<and> a = ARsyncWait \<and> b"
  by (cases p; cases a) (auto simp: phase_step_def script_action_def zfs_verb_def split: if_splits)

lemma phases_Synced:
  "phases os h Fresh as = Some Synced \<Longrightarrow> \<exists>us vs. as = us @ ARsyncWait # vs \<and> os_ok os (h @ us) ARsyncWait"
proof (induction as rule: rev_induct)
  case (snoc a as)
  then obtain q where q: "phases os h Fresh as = Some q" "phase_step (os_ok os (h @ as) a) q a = Some Synced"
    by (auto simp: phases_append split: option.splits)
  from phase_step_Synced [OF q(2)] show ?case
  proof
    assume "q = Synced"
    then show ?thesis using snoc.IH q(1) by fastforce
  qed auto
qed simp

lemma phase_step_snapshot:
  "phase_step b p (AZfs (''snapshot'' # x)) = Some q \<Longrightarrow> p = Synced"
  by (cases p) (auto simp: phase_step_def script_action_def zfs_verb_def)

lemma phases_snapshot:
  assumes "phases os h Fresh (xs @ AZfs (''snapshot'' # x) # ys) = Some q"
  shows "\<exists>us vs. xs = us @ ARsyncWait # vs \<and> os_ok os (h @ us) ARsyncWait"
proof -
  obtain p where p: "phases os h Fresh xs = Some p"
    using assms by (auto simp: phases_append split: option.splits)
  then have "\<exists>q. phase_step (os_ok os (h @ xs) (AZfs (''snapshot'' # x))) p (AZfs (''snapshot'' # x)) = Some q"
    using assms by (auto simp: phases_append split: option.splits)
  then have "p = Synced" using phase_step_snapshot by blast
  then show ?thesis using phases_Synced p by blast
qed

text \<open>Whether the dataset of the host could be created, with which every backup begins.\<close>

definition creates :: "os \<Rightarrow> job_config \<Rightarrow> world \<Rightarrow> bool" where
  "creates os job w \<longleftrightarrow> fst (ds_create os (newDataset (w_app w) (Host job)) w) = None"

lemma creates_act:
  "creates os job w \<longleftrightarrow> fst (act os (AZfs [''create'', ''-p'', ds_Name (newDataset (w_app w) (Host job))]) w)"
  by (auto simp: creates_def ds_create_def zfs_cmd_def split: prod.split bool.split)

lemma PerformBackup_not_created:
  assumes "PerformBackup os (Some job) w = (r, w')" and "\<not> creates os job w"
  shows "w_app w' = w_app w \<and> r = Returned (Some (ErrCreate (ds_Name (newDataset (w_app w) (Host job)))))"
  using assms by (cases rule: PerformBackup_cases) (auto simp: creates_act act_def)

text \<open>The entry of the host after the backup.\<close>

lemma run_tunnel_app: "run_tunnel os job ds w = (r, w') \<Longrightarrow> w_app w' = w_app w"
  using run_tunnel_moves [of os job ds w r w'] by (auto simp: moves_def)

lemma run_tunnel_trace: "run_tunnel os job ds w = (r, w') \<Longrightarrow> \<exists>as. w_trace w' = w_trace w @ as"
  using run_tunnel_moves [of os job ds w r w'] by (auto simp: moves_def)

lemma PerformBackup_entry:
  assumes run: "PerformBackup os (Some job) w = (r, w')" and ok: "creates os job w"
    and m: "map_of (a_hosts (w_app w)) (Host job) = Some m"
  shows "\<exists>as bs m'. map_of (a_hosts (w_app w')) (Host job) = Some m'
    \<and> StartedAt m' = os_now os (w_trace w @ as)
    \<and> (if \<exists>e. r = Returned (Some e)
       then FailedAt m' = Some (os_now os (w_trace w @ as @ bs)) \<and> SucceededAt m' = SucceededAt m
       else SucceededAt m' = Some (os_now os (w_trace w @ as @ bs)) \<and> FailedAt m' = FailedAt m)"
  using run
proof (cases rule: PerformBackup_cases)
  case (create w1)
  then show ?thesis using ok by (simp add: creates_act)
next
  case (run w1 w2)
  let ?create = "AZfs [''create'', ''-p'', ds_Name (newDataset (w_app w) (Host job))]"
  let ?ws = "lifecycle os (start (Host job)) w1"
  have w1: "w_trace w1 = w_trace w @ [?create]" "w_app w1 = w_app w" using run(1) by (auto simp: act_def)
  obtain as where w2: "w_trace w2 = w_trace ?ws @ as" "w_app w2 = w_app ?ws"
    using run_tunnel_trace [OF run(2)] run_tunnel_app [OF run(2)] by blast
  have e: "map_of (a_hosts (w_app w2)) (Host job) = Some (m\<lparr>StartedAt := os_now os (w_trace w1)\<rparr>)"
    using m by (simp add: w2 lifecycle_app start_def Let_def w1)
  obtain cs where t2: "w_trace w2 = w_trace w @ [?create] @ cs"
    using w2(1) w1 by (auto simp: lifecycle_trace)
  show ?thesis
    unfolding run(3)
    by (rule exI [of _ "[?create]"], rule exI [of _ cs])
      (use e t2 w1 in \<open>auto simp: record_result_def lifecycle_app success_def failure_def Let_def
        split: ending.splits option.splits\<close>)
qed

lemma run_tunnel_panicked:
  assumes "run_tunnel os job ds w = (Panicked, w')"
  shows "SSH job = None \<or> RSync job = None"
proof (rule ccontr)
  assume "\<not> (SSH job = None \<or> RSync job = None)"
  then obtain cfg r where j: "SSH job = Some cfg" "RSync job = Some r" by auto
  have r: "fst (run_rsync os c (Some r) w) \<noteq> Panicked" for c w
    by (simp add: run_rsync_def split: prod.split)
  have s: "fst (run_script os c s w) \<noteq> Panicked" "fst (run_snapshot os ds w) \<noteq> Panicked" for c s w
    by (simp_all add: run_script_def run_snapshot_def split: prod.split)
  have a: "fst (and_then x f) \<noteq> Panicked" if "fst x \<noteq> Panicked" "\<And>w. fst (f w) \<noteq> Panicked" for x f
    using that by (auto simp: and_then_def split: prod.split ending.split option.split)
  have "fst (run_connected os job ds c w) \<noteq> Panicked" for c w
    unfolding run_connected_def j(2) by (intro a s r)
  then show False using assms j(1) by (auto simp: run_tunnel_def split: prod.splits option.splits) (metis fst_conv)
qed

text \<open>
  When a backup panics: without an SSH section always, without an rsync section when the tunnel is up and
  the scripts before did not fail.
\<close>

definition reaches_rsync :: "os \<Rightarrow> job_config \<Rightarrow> world \<Rightarrow> bool" where
  "reaches_rsync os job w =
     (case SSH job of
        None \<Rightarrow> False
      | Some cfg \<Rightarrow>
          (case connect os (newSSHMaster (w_app w) (job_host job) cfg) w of
             (Some e, _, w) \<Rightarrow> False
           | (None, c, w) \<Rightarrow> fst (run_script os c (PreScript job) w) = Returned None))"

lemma run_connected_no_rsync:
  assumes "RSync job = None"
  shows "fst (run_connected os job ds c w) = Panicked \<longleftrightarrow> fst (run_script os c (PreScript job) w) = Returned None"
    and "fst (run_connected os job ds c w) \<noteq> Returned None"
proof -
  obtain e w1 where s: "run_script os c (PreScript job) w = (e, w1)" by fastforce
  then have "e \<noteq> Panicked" using run_script_not_panicked by blast
  then show "fst (run_connected os job ds c w) = Panicked \<longleftrightarrow> fst (run_script os c (PreScript job) w) = Returned None"
    "fst (run_connected os job ds c w) \<noteq> Returned None"
    using assms s by (auto simp: run_connected_def and_then_def run_rsync_def split: ending.splits option.splits)
qed

lemma run_tunnel_panics:
  "fst (run_tunnel os job ds w) = Panicked \<longleftrightarrow> SSH job = None \<or> RSync job = None \<and> reaches_rsync os job w"
proof (cases "SSH job = None \<or> RSync job = None")
  case False
  then show ?thesis using run_tunnel_panicked [of os job ds w "snd (run_tunnel os job ds w)"] by (metis prod.collapse)
next
  case True
  then show ?thesis
    using run_connected_no_rsync(1) [of job os ds]
    by (auto simp: run_tunnel_def reaches_rsync_def split: option.split prod.split) (metis fst_conv)+
qed

lemma run_tunnel_no_rsync:
  "SSH job = None \<or> RSync job = None \<Longrightarrow> fst (run_tunnel os job ds w) \<noteq> Returned None"
  using run_connected_no_rsync(2) [of job os ds]
  by (auto simp: run_tunnel_def split: option.split prod.split) (metis fst_conv)

section \<open>A concrete backup\<close>

definition example_job :: job_config where
  "example_job = (new_job ''a'')\<lparr>SSH := Some \<lparr>User = [], Port = 0, Timeout = None\<rparr>, RSync := Some example_rsync\<rparr>"

definition example_world :: world where
  "example_world = \<lparr>w_app = (initial_app (NewTree []))\<lparr>a_hosts := [(''a'', zero_metrics)]\<rparr>, w_trace = []\<rparr>"

text \<open>Everything but a few actions succeeds, and the clock shows the number of actions so far.\<close>

definition example_os :: "action list \<Rightarrow> os" where
  "example_os bad =
     \<lparr>os_ok = (\<lambda>_ a. a \<notin> set bad), os_now = (\<lambda>h. 1600000000 * second + int (length h) * second), os_match = glob_match\<rparr>"

lemma example_now: "os_now (example_os bad) xs \<le> os_now (example_os bad) (xs @ ys)"
  by (simp add: example_os_def)

lemmas backup_defs = PerformBackup_def Let_def ds_create_def zfs_cmd_def act_def run_tunnel_def connect_def newSSHMaster_def
  run_connected_def and_then_def run_script_def run_rsync_def master_rsync_def captureOutput_def run_snapshot_def
  ds_snapshot_def close_def

lemma example_backup:
  "\<exists>c t s n v v'. w_trace (snd (PerformBackup (example_os []) (Some example_job) example_world)) =
     [AZfs c, AZfs s, ATunnelStart t, APipe ''stdout'', APipe ''stderr'', ARsyncStart v, ARsyncWait]
     @ AZfs (''snapshot'' # n) # [ATunnelTerm, ATunnelWait, AZfs v']"
  "fst (PerformBackup (example_os []) (Some example_job) example_world) = Returned None"
  "fst (PerformBackup (example_os [ARsyncWait]) (Some example_job) example_world) = Returned (Some (ErrSsh ErrTermination))"
  by (simp_all add: backup_defs example_os_def example_job_def example_world_def new_job_def empty_script_def Lines_def
      lifecycle_def record_result_def start_def success_def failure_def storeStart_def Host_def)

section \<open>Properties\<close>

text \<open>C2: Every backup issues its commands in the order of the automaton and, once the dataset exists,
  never stops in the middle: whatever fails, a tunnel that was opened is closed and waited for,
  and exactly one result is recorded after it. The snapshot was taken if and only if the
  backup ends without an error.\<close>

theorem backup_follows_protocol:
  "\<exists>as p. w_trace (snd (PerformBackup os (Some job) w)) = w_trace w @ as
    \<and> phases os (w_trace w) Fresh as = Some p
    \<and> (p = Fresh \<and> (\<exists>n. fst (PerformBackup os (Some job) w) = Returned (Some (ErrCreate n)))
       \<or> p = Recorded (fst (PerformBackup os (Some job) w) = Returned None))"
  by (rule PerformBackup_phases) simp

text \<open>C3: No snapshot without a synchronisation: whenever a backup asks for a snapshot, its own rsync
  was waited for before and had succeeded.\<close>

theorem snapshot_after_rsync:
  assumes "w_trace (snd (PerformBackup os (Some job) w)) = w_trace w @ xs @ AZfs (''snapshot'' # x) # ys"
  shows "\<exists>us vs. xs = us @ ARsyncWait # vs \<and> os_ok os (w_trace w @ us) ARsyncWait"
proof -
  obtain as p where "w_trace (snd (PerformBackup os (Some job) w)) = w_trace w @ as"
    "phases os (w_trace w) Fresh as = Some p"
    using PerformBackup_phases [OF prod.collapse [symmetric], of os job w] by blast
  then have "phases os (w_trace w) Fresh (xs @ AZfs (''snapshot'' # x) # ys) = Some p" using assms by simp
  then show ?thesis by (rule phases_snapshot)
qed

lemma snapshot_after_rsync_witness:
  "\<exists>us vs n ys. w_trace (snd (PerformBackup (example_os []) (Some example_job) example_world))
      = (us @ ARsyncWait # vs) @ AZfs (''snapshot'' # n) # ys
    \<and> os_ok (example_os []) us ARsyncWait"
proof -
  have e: "w_trace example_world = []" by (simp add: example_world_def)
  obtain xs n ys where t: "w_trace (snd (PerformBackup (example_os []) (Some example_job) example_world))
      = w_trace example_world @ xs @ AZfs (''snapshot'' # n) # ys"
    unfolding e append_Nil using example_backup(1) by blast
  from snapshot_after_rsync [OF t] show ?thesis using t by (fastforce simp: example_world_def)
qed

text \<open>C18: The result of a backup is what its host shows afterwards, if the host has an entry and the clock is
  past the zero time and its earlier results and does not run backwards: success if the backup ended without an error, failed if
  it ended with one. Only when the dataset cannot be created is no result recorded: the backup then ends
  with that error, and the host, like every other, shows what it showed before.\<close>

theorem backup_sets_status:
  assumes "PerformBackup os (Some job) w = (r, w')"
    and "map_of (a_hosts (w_app w)) (Host job) = Some m"
    and clock: "\<And>xs ys. os_now os xs \<le> os_now os (xs @ ys)"
    and old: "still_running (os_now os (w_trace w)) (SucceededAt m) (FailedAt m)"
    and now: "zero_time < os_now os (w_trace w)"
  shows "if creates os job w
    then \<exists>m'. map_of (a_hosts (w_app w')) (Host job) = Some m'
      \<and> Status m' = (if \<exists>e. r = Returned (Some e) then StatusFailed else StatusSuccess)
    else (\<exists>n. r = Returned (Some (ErrCreate n))) \<and> w_app w' = w_app w"
proof (cases "creates os job w")
  case False
  then show ?thesis using PerformBackup_not_created [OF assms(1)] by simp
next
  case True
  obtain as bs m' where m': "map_of (a_hosts (w_app w')) (Host job) = Some m'"
      "StartedAt m' = os_now os (w_trace w @ as)"
      "if \<exists>e. r = Returned (Some e)
       then FailedAt m' = Some (os_now os (w_trace w @ as @ bs)) \<and> SucceededAt m' = SucceededAt m
       else SucceededAt m' = Some (os_now os (w_trace w @ as @ bs)) \<and> FailedAt m' = FailedAt m"
    using PerformBackup_entry [OF assms(1) True assms(2)] by blast
  have le: "os_now os (w_trace w) \<le> StartedAt m'" "StartedAt m' \<le> os_now os (w_trace w @ as @ bs)"
    using clock [of "w_trace w" as] clock [of "w_trace w @ as" bs] m'(2) by simp_all
  have "\<not> is_zero (StartedAt m')" using le now by (simp add: is_zero_def)
  moreover have "t < os_now os (w_trace w @ as @ bs)" if "SucceededAt m = Some t \<or> FailedAt m = Some t" for t
    using old that le by (fastforce simp: still_running_def)
  ultimately have "if \<exists>e. r = Returned (Some e) then Status m' = StatusFailed else Status m' = StatusSuccess"
    using m'(3) le by (auto simp: Status_Success Status_Failed finished_by_def)
  then show ?thesis using m'(1) True by auto
qed

lemma backup_sets_status_witness:
  "(\<exists>m. map_of (a_hosts (w_app (snd (PerformBackup (example_os []) (Some example_job) example_world)))) ''a'' = Some m
    \<and> Status m = StatusSuccess)
   \<and> (\<exists>m. map_of (a_hosts (w_app (snd (PerformBackup (example_os [ARsyncWait]) (Some example_job) example_world)))) ''a'' = Some m
    \<and> Status m = StatusFailed)"
proof -
  have w: "map_of (a_hosts (w_app example_world)) (Host example_job) = Some zero_metrics"
      "zero_time < os_now (example_os bad) (w_trace example_world)"
      "still_running (os_now (example_os bad) (w_trace example_world)) (SucceededAt zero_metrics) (FailedAt zero_metrics)" for bad
    by (simp_all add: example_world_def example_job_def Host_def new_job_def example_os_def zero_time_def
        still_running_def zero_metrics_def)
  have h: "Host example_job = ''a''" by (simp add: example_job_def Host_def new_job_def)
  note p = backup_sets_status [OF prod.collapse [symmetric] w(1) example_now w(3,2)]
  have "creates (example_os []) example_job example_world" "creates (example_os [ARsyncWait]) example_job example_world"
    by (simp_all add: creates_act act_def example_os_def)
  then show ?thesis
    using p [of "[]"] p [of "[ARsyncWait]"] example_backup(2,3) by (simp add: h)
qed

text \<open>C36: Once the dataset exists, a backup panics exactly if its job has no SSH section, or has no rsync section
  and the backup gets as far as rsync: the tunnel was started and the scripts before did not fail. Such a job
  never ends a backup without an error, but when it panics, what the deferred function records and
  stores on the way out is a success.\<close>

theorem panic_recorded_as_success:
  assumes "PerformBackup os (Some job) w = (r, w')" and "creates os job w"
  shows "(r = Panicked \<longleftrightarrow> SSH job = None \<or> RSync job = None
      \<and> reaches_rsync os job (lifecycle os (start (Host job)) (snd (ds_create os (newDataset (w_app w) (Host job)) w))))
    \<and> (SSH job = None \<or> RSync job = None \<longrightarrow> r \<noteq> Returned None)
    \<and> (r = Panicked \<longrightarrow> (\<exists>m t d. map_of (a_hosts (w_app w')) (Host job) = Some m \<and> SucceededAt m = Some t
        \<and> last (w_trace w') = AZfs (storeResult (w_app w') (Host job) True t d)))"
  using assms(1)
proof (cases rule: PerformBackup_cases)
  case create
  then show ?thesis using assms(2) by (simp add: creates_act)
next
  case (run w1 w2)
  let ?ds = "newDataset (w_app w) (Host job)" and ?w = "lifecycle os (start (Host job)) w1"
  have c: "snd (ds_create os ?ds w) = w1" using run(1) by (simp add: ds_create_def zfs_cmd_def)
  have r: "fst (run_tunnel os job ?ds ?w) = r" using run(2) by simp
  have "knows (Host job) (w_app w2)"
    using run_tunnel_app [OF run(2)] by (simp add: lifecycle_app start_knows)
  then obtain m where m: "map_of (a_hosts (w_app w2)) (Host job) = Some m" by (auto simp: knows_def)
  have "\<exists>m t d. map_of (a_hosts (w_app w')) (Host job) = Some m \<and> SucceededAt m = Some t
      \<and> last (w_trace w') = AZfs (storeResult (w_app w') (Host job) True t d)" if "r = Panicked"
    using m that
    by (auto simp: run(3) record_result_def lifecycle_app lifecycle_trace success_def Let_def storeResult_def)
  then show ?thesis using run_tunnel_panics [of os job ?ds ?w] run_tunnel_no_rsync [of job os ?ds ?w] unfolding c r by blast
qed

lemma panic_recorded_as_success_witness:
  "\<exists>m t. fst (PerformBackup (example_os []) (Some (new_job ''a'')) example_world) = Panicked
    \<and> map_of (a_hosts (w_app (snd (PerformBackup (example_os []) (Some (new_job ''a'')) example_world)))) ''a'' = Some m
    \<and> SucceededAt m = Some t"
proof -
  let ?r = "PerformBackup (example_os []) (Some (new_job ''a'')) example_world"
  have "creates (example_os []) (new_job ''a'') example_world" by (simp add: creates_act act_def example_os_def)
  from panic_recorded_as_success [OF prod.collapse [symmetric] this] show ?thesis by (auto simp: Host_def new_job_def)
qed

text \<open>A snapshot is named after the second it was taken in: within the years of four digits,
  two snapshots of a dataset have the same name only if they were taken in the same second.\<close>

theorem snapshot_names_unique:
  assumes "four_digit_year t" and "four_digit_year u" and "unix t \<noteq> unix u"
  shows "snapshot_name ds t \<noteq> snapshot_name ds u"
  using rfc3339_inj [OF assms(1,2)] assms(3) by (auto simp: snapshot_name_def)

lemma snapshot_names_unique_witness:
  "snapshot_name (newDataset (initial_app (NewTree [])) ''a'') 0 \<noteq> snapshot_name (newDataset (initial_app (NewTree [])) ''a'') second"
  by (rule snapshot_names_unique) (simp_all add: four_digit_year_def unix_def, code_simp+)

end
