(* ===== verification/App_Queue.thy ===== *)
theory App_Queue imports App_Runner "HOL-Library.Multiset" begin

text \<open>
  \<open>app/queue.go\<close>: the job queue and its workers. Every worker is a goroutine that takes jobs
  from a buffered channel until its quit channel is closed; \<open>select\<close> takes either branch when
  both are ready. The model is a transition system over the interleavings: the calls of the
  clients, the moves of blocked senders, of workers and of goroutines not yet started. A
  job runs between its \<open>QTake\<close> and its \<open>QFinish\<close>. Channels are numbers.
\<close>

section \<open>The slice of workers\<close>

text \<open>A slice at the start of its backing array; \<open>None\<close> is a nil channel.\<close>

record worker_slice =
  ws_arr :: "nat option list"
  ws_len :: nat

definition visible :: "worker_slice \<Rightarrow> nat list" where
  "visible s = map the (take (ws_len s) (ws_arr s))"

definition ws_append :: "worker_slice \<Rightarrow> nat \<Rightarrow> worker_slice" where
  "ws_append s c =
     (if ws_len s < length (ws_arr s)
      then \<lparr>ws_arr = (ws_arr s)[ws_len s := Some c], ws_len = Suc (ws_len s)\<rparr>
      else \<lparr>ws_arr = take (ws_len s) (ws_arr s) @ Some c # replicate (ws_len s) None, ws_len = Suc (ws_len s)\<rparr>)"

text \<open>\<open>copy(x, x[diff:])\<close>, then the loop that clears the tail, then \<open>x[:newSize]\<close>.\<close>

definition ws_copy :: "nat \<Rightarrow> worker_slice \<Rightarrow> worker_slice" where
  "ws_copy d s =
     (let moved = drop d (take (ws_len s) (ws_arr s))
      in s\<lparr>ws_arr := moved @ drop (length moved) (ws_arr s)\<rparr>)"

fun ws_clear :: "nat list \<Rightarrow> worker_slice \<Rightarrow> worker_slice" where
  "ws_clear [] s = s"
| "ws_clear (i # rest) s = ws_clear rest (s\<lparr>ws_arr := (ws_arr s)[i := None]\<rparr>)"

definition ws_shrink :: "nat \<Rightarrow> worker_slice \<Rightarrow> worker_slice" where
  "ws_shrink n s =
     (let s' = ws_clear [n..<ws_len s] (ws_copy (ws_len s - n) s) in s'\<lparr>ws_len := n\<rparr>)"

text \<open>Channels up to the length, nothing beyond: no reference keeps a closed channel alive.\<close>

definition ws_ok :: "worker_slice \<Rightarrow> bool" where
  "ws_ok s \<longleftrightarrow> ws_len s \<le> length (ws_arr s)
     \<and> None \<notin> set (take (ws_len s) (ws_arr s)) \<and> set (drop (ws_len s) (ws_arr s)) \<subseteq> {None}"

lemma length_visible: "ws_ok s \<Longrightarrow> length (visible s) = ws_len s"
  by (simp add: visible_def ws_ok_def)

lemma ws_append_ok:
  assumes "ws_ok s"
  shows "ws_ok (ws_append s c)" and "visible (ws_append s c) = visible s @ [c]"
proof -
  let ?a = "ws_arr s" and ?n = "ws_len s"
  have "ws_ok (ws_append s c) \<and> visible (ws_append s c) = visible s @ [c]"
  proof (cases "?n < length ?a")
    case True
    then have t: "take (Suc ?n) (?a[?n := Some c]) = take ?n ?a @ [Some c]"
      by (simp add: take_Suc_conv_app_nth)
    have d: "drop (Suc ?n) (?a[?n := Some c]) = drop (Suc ?n) ?a" by simp
    have "set (drop (Suc ?n) ?a) \<subseteq> set (drop ?n ?a)" by (simp add: set_drop_subset_set_drop)
    then show ?thesis using True assms by (auto simp: ws_append_def ws_ok_def visible_def t d)
  next
    case False
    then show ?thesis using assms by (auto simp: ws_append_def ws_ok_def visible_def)
  qed
  then show "ws_ok (ws_append s c)" "visible (ws_append s c) = visible s @ [c]" by simp_all
qed

lemma ws_clear_arr:
  "ws_len (ws_clear ks s) = ws_len s \<and> length (ws_arr (ws_clear ks s)) = length (ws_arr s)
   \<and> (\<forall>k<length (ws_arr s). ws_arr (ws_clear ks s) ! k = (if k \<in> set ks then None else ws_arr s ! k))"
  by (induction ks arbitrary: s) (auto simp: nth_list_update)

lemma ws_shrink_ok:
  assumes "ws_ok s" and "n \<le> ws_len s"
  shows "ws_ok (ws_shrink n s)" and "visible (ws_shrink n s) = drop (ws_len s - n) (visible s)"
proof -
  let ?a = "ws_arr s" and ?L = "ws_len s"
  let ?m = "drop (?L - n) (take ?L ?a)"
  let ?r = "ws_arr (ws_shrink n s)"
  have L: "?L \<le> length ?a" and lm: "length ?m = n" using assms by (simp_all add: ws_ok_def)
  have len: "length ?r = length ?a" "ws_len (ws_shrink n s) = n"
    using ws_clear_arr [of "[n..<?L]" "ws_copy (?L - n) s"] L assms(2) lm
    by (simp_all add: ws_shrink_def Let_def ws_copy_def)
  have r: "?r ! k = (if k < n then ?m ! k else None)" if "k < length ?a" for k
  proof -
    have "?r ! k = (if n \<le> k \<and> k < ?L then None else (?m @ drop n ?a) ! k)"
      using ws_clear_arr [of "[n..<?L]" "ws_copy (?L - n) s"] that L assms(2) lm
      by (simp add: ws_shrink_def Let_def ws_copy_def)
    moreover have "?L \<le> k \<longrightarrow> ?a ! k = None"
    proof
      assume "?L \<le> k"
      then have "?a ! k \<in> set (drop ?L ?a)" using that by (auto simp: in_set_conv_nth intro!: exI [of _ "k - ?L"])
      then show "?a ! k = None" using assms(1) by (auto simp: ws_ok_def)
    qed
    ultimately show ?thesis using lm assms(2) that by (auto simp: nth_append)
  qed
  have t: "take n ?r = ?m"
    using r len lm L assms(2) by (intro nth_equalityI) (auto simp del: nth_drop)
  have "x = None" if "x \<in> set (drop n ?r)" for x
    using that r len by (auto simp: in_set_conv_nth)
  moreover have "None \<notin> set ?m" using assms(1) by (auto simp: ws_ok_def dest: in_set_dropD)
  ultimately show "ws_ok (ws_shrink n s)" using len L assms(2) t by (auto simp: ws_ok_def)
  show "visible (ws_shrink n s) = drop (?L - n) (visible s)"
    by (simp add: visible_def len t drop_map)
qed

section \<open>The queue\<close>

definition maxParallelity :: int where
  "maxParallelity = 255"

definition jobQueueSize :: nat where
  "jobQueueSize = 16"

type_synonym job = "job_config option"

datatype work = Idle | Busy job

text \<open>
  The struct of the code and the goroutines: workers (with their quit channel), senders blocked
  in \<open>Enqueue\<close>, and calls of \<open>newWorker\<close> that have not run yet. The last two fields are
  not in the code: all jobs ever passed to \<open>Enqueue\<close>, and all that were finished.
\<close>

record queue =
  q_workers :: worker_slice
  q_jobs :: "job list"
  q_workerGroup :: int
  q_jobGroup :: int
  q_closed :: "nat list"
  q_live :: "(nat \<times> work) list"
  q_blocked :: "job list"
  q_spawning :: nat
  q_fresh :: nat
  q_accepted :: "job list"
  q_finished :: "job list"

text \<open>\<open>newWorker\<close>, with the goroutine it starts.\<close>

definition newWorker :: "queue \<Rightarrow> queue" where
  "newWorker q =
     q\<lparr>q_workers := ws_append (q_workers q) (q_fresh q), q_live := q_live q @ [(q_fresh q, Idle)],
       q_fresh := Suc (q_fresh q)\<rparr>"

definition NewQueue :: queue where
  "NewQueue =
     newWorker
       \<lparr>q_workers = \<lparr>ws_arr = replicate (nat maxParallelity) None, ws_len = 0\<rparr>, q_jobs = [], q_workerGroup = 1,
        q_jobGroup = 0, q_closed = [], q_live = [], q_blocked = [], q_spawning = 0, q_fresh = 0,
        q_accepted = [], q_finished = []\<rparr>"

definition Enqueue :: "job \<Rightarrow> queue \<Rightarrow> queue" where
  "Enqueue j q =
     q\<lparr>q_jobGroup := q_jobGroup q + 1, q_blocked := q_blocked q @ [j], q_accepted := q_accepted q @ [j]\<rparr>"

definition clamp_size :: "int \<Rightarrow> int" where
  "clamp_size newSize = (if newSize < 0 then 1 else if maxParallelity < newSize then maxParallelity else newSize)"

definition Resize :: "int \<Rightarrow> queue \<Rightarrow> queue" where
  "Resize newSize q =
     (let newSize = clamp_size newSize;
          diff = int (ws_len (q_workers q)) - newSize
      in if 0 < diff then
           q\<lparr>q_closed := q_closed q @ take (nat diff) (visible (q_workers q)),
             q_workers := ws_shrink (nat newSize) (q_workers q)\<rparr>
         else if diff < 0 then
           q\<lparr>q_workerGroup := q_workerGroup q + (- diff), q_spawning := q_spawning q + nat (- diff)\<rparr>
         else q)"

text \<open>\<open>Wait\<close> returns when no job is left.\<close>

definition Wait_returns :: "queue \<Rightarrow> bool" where
  "Wait_returns q \<longleftrightarrow> q_jobGroup q = 0"

datatype qevent =
    QEnqueue job
  | QResize int
  | QSend job
  | QTake nat job
  | QFinish nat job
  | QQuit nat
  | QSpawn

inductive queue_step :: "queue \<Rightarrow> qevent \<Rightarrow> queue \<Rightarrow> bool" where
  step_enqueue: "queue_step q (QEnqueue j) (Enqueue j q)"
| step_resize: "queue_step q (QResize n) (Resize n q)"
| step_send:
    "q_blocked q = bs @ j # cs \<Longrightarrow> length (q_jobs q) < jobQueueSize \<Longrightarrow>
       queue_step q (QSend j) (q\<lparr>q_blocked := bs @ cs, q_jobs := q_jobs q @ [j]\<rparr>)"
| step_take:
    "q_live q = ls @ (c, Idle) # rs \<Longrightarrow> q_jobs q = j # js \<Longrightarrow>
       queue_step q (QTake c j) (q\<lparr>q_live := ls @ (c, Busy j) # rs, q_jobs := js\<rparr>)"
| step_finish:
    "q_live q = ls @ (c, Busy j) # rs \<Longrightarrow>
       queue_step q (QFinish c j)
         (q\<lparr>q_live := ls @ (c, Idle) # rs, q_jobGroup := q_jobGroup q - 1, q_finished := q_finished q @ [j]\<rparr>)"
| step_quit:
    "q_live q = ls @ (c, Idle) # rs \<Longrightarrow> c \<in> set (q_closed q) \<Longrightarrow>
       queue_step q (QQuit c) (q\<lparr>q_live := ls @ rs, q_workerGroup := q_workerGroup q - 1\<rparr>)"
| step_spawn:
    "0 < q_spawning q \<Longrightarrow> queue_step q QSpawn (newWorker (q\<lparr>q_spawning := q_spawning q - 1\<rparr>))"

declare queue_step.intros [step_defs]

inductive_cases queue_stepE: "queue_step q e q'"

definition queue_init :: "queue \<Rightarrow> bool" where
  "queue_init q \<longleftrightarrow> q = NewQueue"

section \<open>The invariant\<close>

definition running :: "queue \<Rightarrow> job list" where
  "running q = concat (map (\<lambda>(c, w). case w of Idle \<Rightarrow> [] | Busy j \<Rightarrow> [j]) (q_live q))"

definition pending :: "queue \<Rightarrow> job list" where
  "pending q = q_blocked q @ q_jobs q @ running q"

text \<open>The two wait groups count what they are meant to count.\<close>

definition queue_counts :: "queue \<Rightarrow> bool" where
  "queue_counts q \<longleftrightarrow>
     q_jobGroup q = int (length (pending q)) \<and> q_workerGroup q = int (length (q_live q)) + int (q_spawning q)
     \<and> length (q_jobs q) \<le> jobQueueSize"

text \<open>No job is lost or run twice.\<close>

definition queue_conserves :: "queue \<Rightarrow> bool" where
  "queue_conserves q \<longleftrightarrow> mset (q_accepted q) = mset (pending q) + mset (q_finished q)"

text \<open>The slice holds the quit channels of the workers that are to stay, each once.\<close>

definition queue_channels :: "queue \<Rightarrow> bool" where
  "queue_channels q \<longleftrightarrow>
     ws_ok (q_workers q) \<and> distinct (map fst (q_live q)) \<and> distinct (visible (q_workers q) @ q_closed q)
     \<and> set (visible (q_workers q)) \<subseteq> fst ` set (q_live q)
     \<and> fst ` set (q_live q) \<subseteq> set (visible (q_workers q)) \<union> set (q_closed q)
     \<and> (\<forall>c\<in>set (visible (q_workers q)) \<union> set (q_closed q). c < q_fresh q)"

definition queue_ok :: "queue \<Rightarrow> bool" where
  "queue_ok q \<longleftrightarrow> queue_counts q \<and> queue_conserves q \<and> queue_channels q"

lemmas queue_ok_defs = queue_ok_def queue_counts_def queue_conserves_def queue_channels_def

lemma clamp_size_bounds: "0 \<le> clamp_size n \<and> clamp_size n \<le> 255"
  by (simp add: clamp_size_def maxParallelity_def)

lemma running_split: "q_live q = ls @ (c, w) # rs \<Longrightarrow>
    running (q\<lparr>q_live := ls @ (c, w') # rs\<rparr>) =
      concat (map (\<lambda>(c, w). case w of Idle \<Rightarrow> [] | Busy j \<Rightarrow> [j]) ls) @ (case w' of Idle \<Rightarrow> [] | Busy j \<Rightarrow> [j])
      @ concat (map (\<lambda>(c, w). case w of Idle \<Rightarrow> [] | Busy j \<Rightarrow> [j]) rs)"
  by (simp add: running_def)

lemma queue_counts_step: "queue_counts q \<Longrightarrow> queue_step q e q' \<Longrightarrow> queue_counts q'"
  by (erule queue_stepE)
    (auto simp: queue_counts_def pending_def running_def Enqueue_def Resize_def newWorker_def Let_def)

lemma queue_conserves_step: "queue_conserves q \<Longrightarrow> queue_step q e q' \<Longrightarrow> queue_conserves q'"
  by (erule queue_stepE)
    (auto simp: queue_conserves_def pending_def running_def Enqueue_def Resize_def newWorker_def Let_def)

lemma distinct_rotate: "distinct (xs @ ys @ zs) \<Longrightarrow> distinct (ys @ zs @ xs)"
  by auto

lemma queue_channels_resize:
  assumes "queue_channels q"
  shows "queue_channels (Resize n q)"
proof -
  let ?n = "clamp_size n" and ?v = "visible (q_workers q)"
  let ?d = "nat (int (ws_len (q_workers q)) - ?n)"
  show ?thesis
  proof (cases "?n < int (ws_len (q_workers q))")
    case True
    have ok: "ws_ok (q_workers q)" using assms by (simp add: queue_channels_def)
    have n: "nat ?n \<le> ws_len (q_workers q)" "ws_len (q_workers q) - nat ?n = ?d"
      using True clamp_size_bounds [of n] by auto
    have v: "visible (ws_shrink (nat ?n) (q_workers q)) = drop ?d ?v" "ws_ok (ws_shrink (nat ?n) (q_workers q))"
      using ws_shrink_ok [OF ok n(1)] n(2) by simp_all
    have s: "set ?v = set (take ?d ?v) \<union> set (drop ?d ?v)" by (metis append_take_drop_id set_append)
    have "distinct (?v @ q_closed q)" using assms unfolding queue_channels_def by blast
    then have "distinct (take ?d ?v @ drop ?d ?v @ q_closed q)" by (metis append_assoc append_take_drop_id)
    then have d: "distinct (drop ?d ?v @ q_closed q @ take ?d ?v)" by (rule distinct_rotate)
    have "set (drop ?d ?v) \<subseteq> fst ` set (q_live q)"
      "fst ` set (q_live q) \<subseteq> set (drop ?d ?v) \<union> (set (q_closed q) \<union> set (take ?d ?v))"
      "\<forall>c\<in>set (drop ?d ?v) \<union> (set (q_closed q) \<union> set (take ?d ?v)). c < q_fresh q" "distinct (map fst (q_live q))"
      using assms s unfolding queue_channels_def by blast+
    then show ?thesis using True d v by (simp add: Resize_def Let_def queue_channels_def)
  next
    case False
    then show ?thesis using assms by (simp add: Resize_def Let_def queue_channels_def)
  qed
qed

lemma queue_channels_new:
  assumes "queue_channels q"
  shows "queue_channels (newWorker q)"
proof -
  note a = ws_append_ok [of "q_workers q" "q_fresh q"]
  have "q_fresh q \<notin> set (visible (q_workers q)) \<union> set (q_closed q)"
    using assms unfolding queue_channels_def by blast
  then show ?thesis using assms a by (auto simp: queue_channels_def newWorker_def less_Suc_eq)
qed

lemma queue_channels_step: "queue_channels q \<Longrightarrow> queue_step q e q' \<Longrightarrow> queue_channels q'"
proof (erule queue_stepE)
  fix n
  assume "queue_channels q" and "q' = Resize n q"
  then show "queue_channels q'" using queue_channels_resize by simp
next
  assume "queue_channels q" and "q' = newWorker (q\<lparr>q_spawning := q_spawning q - Suc 0\<rparr>)"
  moreover have "queue_channels (q\<lparr>q_spawning := q_spawning q - Suc 0\<rparr>)"
    using \<open>queue_channels q\<close> by (simp add: queue_channels_def)
  ultimately show "queue_channels q'" using queue_channels_new by simp
next
  fix ls c rs
  assume q: "queue_channels q" "q_live q = ls @ (c, Idle) # rs" "c \<in> set (q_closed q)"
    and q': "q' = q\<lparr>q_live := ls @ rs, q_workerGroup := q_workerGroup q - 1\<rparr>"
  have "c \<notin> set (visible (q_workers q))" using q(1,3) by (fastforce simp: queue_channels_def)
  then show "queue_channels q'" using q(1,2) unfolding q' queue_channels_def by (simp add: subset_insert)
qed (auto simp: queue_channels_def Enqueue_def)

lemma queue_ok_step: "queue_ok q \<Longrightarrow> queue_step q e q' \<Longrightarrow> queue_ok q'"
  unfolding queue_ok_def using queue_counts_step queue_conserves_step queue_channels_step by blast

lemma ws_empty_ok: "ws_ok \<lparr>ws_arr = replicate k None, ws_len = 0\<rparr>"
  by (auto simp: ws_ok_def)

lemma NewQueue_ok: "queue_ok NewQueue"
proof -
  have "queue_channels NewQueue"
    unfolding NewQueue_def
    by (rule queue_channels_new) (use ws_empty_ok in \<open>simp add: queue_channels_def visible_def\<close>)
  then show ?thesis
    by (simp add: queue_ok_def queue_counts_def queue_conserves_def NewQueue_def newWorker_def pending_def running_def
        jobQueueSize_def)
qed

interpretation queue_life: invariant_of queue_init queue_step queue_ok
  by unfold_locales (auto simp: queue_init_def NewQueue_ok intro: queue_ok_step)

section \<open>Progress\<close>

text \<open>The moves the queue makes on its own, without a call.\<close>

definition internal :: "qevent \<Rightarrow> bool" where
  "internal e = (case e of QEnqueue _ \<Rightarrow> False | QResize _ \<Rightarrow> False | _ \<Rightarrow> True)"

definition idle_count :: "queue \<Rightarrow> nat" where
  "idle_count q = length (filter (\<lambda>(c, w). w = Idle) (q_live q))"

text \<open>
  A measure that every such move decreases: a job goes from blocked to buffered to running to
  finished, a goroutine from not started to idle to gone.
\<close>

definition queue_measure :: "queue \<Rightarrow> nat" where
  "queue_measure q =
     4 * length (q_blocked q) + 3 * length (q_jobs q) + 2 * length (running q) + length (q_live q) + 2 * q_spawning q"

lemma internal_decreases:
  "queue_step q e q' \<Longrightarrow> internal e \<Longrightarrow> queue_measure q' < queue_measure q"
  by (erule queue_stepE) (auto simp: internal_def queue_measure_def running_def newWorker_def)

lemma internal_keeps:
  "queue_step q e q' \<Longrightarrow> internal e \<Longrightarrow> q_accepted q' = q_accepted q"
  by (erule queue_stepE) (auto simp: internal_def newWorker_def)

lemma internal_workers:
  "queue_step q e q' \<Longrightarrow> internal e \<Longrightarrow> queue_ok q \<Longrightarrow> visible (q_workers q) \<noteq> [] \<Longrightarrow> visible (q_workers q') \<noteq> []"
  by (erule queue_stepE)
    (auto simp: internal_def newWorker_def queue_ok_def queue_channels_def ws_append_ok)

text \<open>Without a worker that stays, jobs may wait for ever; with one, somebody can always move.\<close>

lemma queue_progress:
  assumes ok: "queue_ok q" and w: "visible (q_workers q) \<noteq> []" and p: "pending q \<noteq> []"
  shows "\<exists>e q'. internal e \<and> queue_step q e q'"
proof -
  from w obtain c where c: "c \<in> set (visible (q_workers q))" by (cases "visible (q_workers q)") auto
  then have "c \<in> fst ` set (q_live q)" using ok unfolding queue_ok_def queue_channels_def by blast
  then obtain w0 where "(c, w0) \<in> set (q_live q)" by auto
  then obtain ls rs where l: "q_live q = ls @ (c, w0) # rs" by (meson split_list)
  show ?thesis
  proof (cases w0)
    case (Busy j)
    then show ?thesis using step_finish [of q ls c j rs] l by (auto simp: internal_def intro!: exI)
  next
    case Idle
    show ?thesis
    proof (cases "q_jobs q")
      case (Cons j js)
      then show ?thesis using step_take [of q ls c rs j js] l Idle by (auto simp: internal_def intro!: exI)
    next
      case Nil
      show ?thesis
      proof (cases "q_blocked q")
        case (Cons j js)
        then show ?thesis
          using step_send [of q "[]" j js] Nil by (auto simp: internal_def jobQueueSize_def intro!: exI)
      next
        case Nil
        then have "running q \<noteq> []" using p \<open>q_jobs q = []\<close> by (simp add: pending_def)
        then obtain d j where "(d, Busy j) \<in> set (q_live q)" by (auto simp: running_def split: work.splits)
        then obtain ls rs where "q_live q = ls @ (d, Busy j) # rs" by (meson split_list)
        then show ?thesis using step_finish [of q ls d j rs] by (auto simp: internal_def intro!: exI)
      qed
    qed
  qed
qed

lemma internal_run:
  assumes "run_of queue_step q es q'" and "list_all internal es" and "queue_ok q"
  shows "queue_ok q' \<and> q_accepted q' = q_accepted q \<and> queue_measure q' + length es \<le> queue_measure q
    \<and> (visible (q_workers q) \<noteq> [] \<longrightarrow> visible (q_workers q') \<noteq> [])"
  using assms
proof (induction rule: run_of.induct)
  case (run_cons q e q1 es q')
  note s = run_cons.hyps(1)
  have i: "internal e" using run_cons.prems by simp
  show ?case
    using run_cons.IH queue_ok_step [OF _ s] internal_decreases [OF s i] internal_keeps [OF s i]
      internal_workers [OF s i] run_cons.prems by auto
qed simp

lemma queue_done:
  assumes "queue_ok q"
  shows "Wait_returns q \<longleftrightarrow> pending q = []"
    and "Wait_returns q \<Longrightarrow> mset (q_finished q) = mset (q_accepted q)"
  using assms by (auto simp: queue_ok_def queue_counts_def queue_conserves_def Wait_returns_def)

text \<open>With a worker that stays, the queue can be emptied.\<close>

lemma queue_empties:
  assumes "queue_ok q" and "visible (q_workers q) \<noteq> []"
  shows "\<exists>es q'. run_of queue_step q es q' \<and> list_all internal es \<and> pending q' = [] \<and> length es \<le> queue_measure q"
  using assms
proof (induction "queue_measure q" arbitrary: q rule: less_induct)
  case less
  show ?case
  proof (cases "pending q = []")
    case True
    then show ?thesis using run_nil [of queue_step q] by (intro exI [of _ "[]"] exI [of _ q]) simp
  next
    case False
    obtain e q1 where s: "internal e" "queue_step q e q1" using queue_progress [OF less.prems False] by blast
    note d = internal_decreases [OF s(2,1)]
    obtain es q' where "run_of queue_step q1 es q'" "list_all internal es" "pending q' = []" "length es \<le> queue_measure q1"
      using less.hyps [OF d queue_ok_step [OF less.prems(1) s(2)] internal_workers [OF s(2,1) less.prems]] by blast
    then show ?thesis using s d run_cons [where step = queue_step, OF s(2)] by (intro exI [of _ "e # es"] exI [of _ q']) simp
  qed
qed

section \<open>The interface\<close>

text \<open>
  What the scheduler and the commands rely on: the queue moves on its own (\<open>ev\<close>) without
  forgetting a job, and when \<open>Wait\<close> returns, exactly the accepted jobs were finished. A client that
  submits jobs one after the other makes each call when the one before has returned (\<open>rdy\<close>).
\<close>

inductive submits :: "('q \<Rightarrow> bool) \<Rightarrow> (job \<Rightarrow> 'q \<Rightarrow> 'q) \<Rightarrow> ('q \<Rightarrow> 'q \<Rightarrow> bool) \<Rightarrow> 'q \<Rightarrow> job list \<Rightarrow> 'q \<Rightarrow> bool"
  for rdy :: "'q \<Rightarrow> bool" and enq :: "job \<Rightarrow> 'q \<Rightarrow> 'q" and ev :: "'q \<Rightarrow> 'q \<Rightarrow> bool" where
  submits_nil: "submits rdy enq ev q [] q"
| submits_move: "submits rdy enq ev q js q' \<Longrightarrow> ev q' q'' \<Longrightarrow> submits rdy enq ev q js q''"
| submits_job: "submits rdy enq ev q js q' \<Longrightarrow> rdy q' \<Longrightarrow> submits rdy enq ev q (js @ [j]) (enq j q')"

locale job_queue =
  fixes ok :: "'q \<Rightarrow> bool"
    and enq :: "job \<Rightarrow> 'q \<Rightarrow> 'q"
    and ev :: "'q \<Rightarrow> 'q \<Rightarrow> bool"
    and accepted :: "'q \<Rightarrow> job list"
    and finished :: "'q \<Rightarrow> job list"
    and drained :: "'q \<Rightarrow> bool"
  assumes enq_ok: "ok q \<Longrightarrow> ok (enq j q)"
    and enq_accepted: "ok q \<Longrightarrow> accepted (enq j q) = accepted q @ [j]"
    and ev_ok: "ok q \<Longrightarrow> ev q q' \<Longrightarrow> ok q'"
    and ev_accepted: "ok q \<Longrightarrow> ev q q' \<Longrightarrow> accepted q' = accepted q"
    and drained_finished: "ok q \<Longrightarrow> drained q \<Longrightarrow> mset (finished q) = mset (accepted q)"
begin

lemma submits_accepted:
  "submits rdy enq ev q js q' \<Longrightarrow> ok q \<Longrightarrow> ok q' \<and> accepted q' = accepted q @ js"
  by (induction rule: submits.induct) (auto simp: enq_ok enq_accepted ev_ok ev_accepted)

lemma submits_finished:
  assumes "submits rdy enq ev q js q'" and "ok q" and "drained q'"
  shows "mset (finished q') = mset (accepted q) + mset js"
  using submits_accepted [OF assms(1,2)] drained_finished assms(3) by simp

end

text \<open>What the queue does between two calls of a client, and when a call of \<open>Enqueue\<close> has returned.\<close>

definition queue_evolves :: "queue \<Rightarrow> queue \<Rightarrow> bool" where
  "queue_evolves q q' \<longleftrightarrow> (\<exists>e. queue_step q e q' \<and> internal e)"

definition Enqueue_returned :: "queue \<Rightarrow> bool" where
  "Enqueue_returned q \<longleftrightarrow> q_blocked q = []"

interpretation zackup_queue: job_queue queue_ok Enqueue queue_evolves q_accepted q_finished Wait_returns
proof
  fix q q' :: queue and j
  assume ok: "queue_ok q"
  show "queue_ok (Enqueue j q)" using queue_ok_step [OF ok step_enqueue] .
  show "q_accepted (Enqueue j q) = q_accepted q @ [j]" by (simp add: Enqueue_def)
  show "Wait_returns q \<Longrightarrow> mset (q_finished q) = mset (q_accepted q)" using queue_done(2) [OF ok] .
  show "queue_evolves q q' \<Longrightarrow> queue_ok q'" using queue_ok_step [OF ok] by (auto simp: queue_evolves_def)
  show "queue_evolves q q' \<Longrightarrow> q_accepted q' = q_accepted q"
    using internal_keeps by (auto simp: queue_evolves_def)
qed

lemmas queue_run_cons = run_cons [where step = queue_step]

lemmas queue_reach = reachable_step [where init = queue_init and step = queue_step]

lemma NewQueue_reachable: "reachable queue_init queue_step NewQueue"
  by (rule reachable_init) (simp add: queue_init_def)

lemma visible_NewQueue: "visible (q_workers NewQueue) = [0]"
  using ws_append_ok(2) [OF ws_empty_ok] by (simp add: NewQueue_def newWorker_def visible_def)

lemma NewQueue_fields:
  "q_live NewQueue = [(0, Idle)]" "q_closed NewQueue = []" "q_spawning NewQueue = 0" "q_jobGroup NewQueue = 0"
  "ws_len (q_workers NewQueue) = 1"
  by (simp_all add: NewQueue_def newWorker_def ws_append_def maxParallelity_def)

section \<open>The abstract pool\<close>

text \<open>
  What the queue promises, without workers, channels and counters: a bag of jobs to do and a
  bag of finished ones.
\<close>

type_synonym pool = "job multiset \<times> job multiset"

datatype pool_op = Submit job | Complete job

inductive pool_step :: "pool \<Rightarrow> pool_op \<Rightarrow> pool \<Rightarrow> bool" where
  pool_submit: "pool_step (todo, fin) (Submit j) (add_mset j todo, fin)"
| pool_complete: "pool_step (add_mset j todo, fin) (Complete j) (todo, add_mset j fin)"

declare pool_step.intros [step_defs]

definition pool_of :: "queue \<Rightarrow> pool" where
  "pool_of q = (mset (pending q), mset (q_finished q))"

fun pool_obs :: "qevent \<Rightarrow> pool_op list" where
  "pool_obs (QEnqueue j) = [Submit j]"
| "pool_obs (QFinish c j) = [Complete j]"
| "pool_obs e = []"

interpretation queue_pool: refines queue_init queue_step queue_ok pool_step pool_of pool_obs
proof
  fix q q' :: queue and e
  assume "queue_step q e q'"
  then show "run_of pool_step (pool_of q) (pool_obs e) (pool_of q')"
  proof cases
    case (step_enqueue j)
    have "pool_of (Enqueue j q) = (add_mset j (fst (pool_of q)), snd (pool_of q))"
      by (simp add: pool_of_def Enqueue_def pending_def running_def)
    then show ?thesis using step_enqueue run_single [where step = pool_step, OF pool_submit, of "fst (pool_of q)" "snd (pool_of q)" j] by simp
  next
    case (step_finish ls c j rs)
    have "pool_of q = (add_mset j (fst (pool_of q')), mset (q_finished q))"
      "pool_of q' = (fst (pool_of q'), add_mset j (mset (q_finished q)))"
      using step_finish by (simp_all add: pool_of_def pending_def running_def)
    then show ?thesis using step_finish(1) run_single [where step = pool_step, OF pool_complete, of j "fst (pool_of q')" "mset (q_finished q)"] by simp
  qed (use run_nil [of pool_step "pool_of q"] in
    \<open>simp_all add: pool_of_def pending_def running_def Resize_def newWorker_def Let_def\<close>)
qed

section \<open>Runs of the queue\<close>

lemma no_workers_run:
  assumes "run_of queue_step q es q'" and "list_all internal es" and "q_live q = []" and "q_spawning q = 0"
  shows "q_jobGroup q' = q_jobGroup q"
  using assms
proof (induction rule: run_of.induct)
  case (run_cons q e q1 es q')
  have "q_live q1 = [] \<and> q_spawning q1 = 0 \<and> q_jobGroup q1 = q_jobGroup q"
    using run_cons.hyps(1) run_cons.prems by (elim queue_stepE) (auto simp: internal_def)
  then show ?case using run_cons by simp
qed simp

definition spawn :: "queue \<Rightarrow> queue" where
  "spawn q = newWorker (q\<lparr>q_spawning := q_spawning q - 1\<rparr>)"

lemma spawn_run: "k \<le> q_spawning q \<Longrightarrow> run_of queue_step q (replicate k QSpawn) ((spawn ^^ k) q)"
proof (induction k arbitrary: q)
  case 0
  then show ?case by (simp add: run_nil)
next
  case (Suc k)
  have "queue_step q QSpawn (spawn q)" unfolding spawn_def using Suc.prems by (intro step_spawn) simp
  moreover have "run_of queue_step (spawn q) (replicate k QSpawn) ((spawn ^^ k) (spawn q))"
    using Suc.prems by (intro Suc.IH) (simp add: spawn_def newWorker_def)
  ultimately show ?case using run_cons by (simp add: funpow_swap1)
qed

lemma spawn_run_unique: "run_of queue_step q (replicate k QSpawn) q' \<Longrightarrow> q' = (spawn ^^ k) q"
proof (induction k arbitrary: q)
  case 0
  then show ?case by (auto elim: run_of.cases)
next
  case (Suc k)
  then obtain q1 where "queue_step q QSpawn q1" and r: "run_of queue_step q1 (replicate k QSpawn) q'"
    by (auto elim: run_of.cases)
  then have "q1 = spawn q" by (auto simp: spawn_def elim: queue_stepE)
  then show ?case using Suc.IH [OF r] by (simp add: funpow_swap1)
qed

lemma spawn_visible:
  "ws_ok (q_workers q) \<Longrightarrow> \<exists>new. visible (q_workers ((spawn ^^ k) q)) = visible (q_workers q) @ new \<and> length new = k
     \<and> ws_ok (q_workers ((spawn ^^ k) q))"
proof (induction k)
  case (Suc k)
  then obtain new where n: "visible (q_workers ((spawn ^^ k) q)) = visible (q_workers q) @ new" "length new = k"
    "ws_ok (q_workers ((spawn ^^ k) q))" by blast
  have "q_workers ((spawn ^^ Suc k) q) = ws_append (q_workers ((spawn ^^ k) q)) (q_fresh ((spawn ^^ k) q))"
    by (simp add: spawn_def newWorker_def)
  then show ?case using ws_append_ok [OF n(3)] n by (intro exI [of _ "new @ [q_fresh ((spawn ^^ k) q)]"]) simp
qed simp

section \<open>Properties\<close>

text \<open>C20: Whatever the interleaving of clients and workers, the job group counts the jobs that are not
  finished, the worker group the workers that run or are about to start; no job is lost or run
  twice; the channel never holds more than its capacity; and no quit channel is closed twice.\<close>

theorem queue_accounts:
  assumes "reachable queue_init queue_step q"
  shows "q_jobGroup q = int (length (pending q))
    \<and> q_workerGroup q = int (length (q_live q)) + int (q_spawning q)
    \<and> mset (q_accepted q) = mset (pending q) + mset (q_finished q)
    \<and> length (q_jobs q) \<le> jobQueueSize
    \<and> distinct (visible (q_workers q) @ q_closed q)
    \<and> (Wait_returns q \<longleftrightarrow> mset (q_finished q) = mset (q_accepted q))"
proof -
  have ok: "queue_ok q" using queue_life.inv_reachable [OF assms] .
  have "Wait_returns q \<longleftrightarrow> mset (pending q) = {#}" using queue_done(1) [OF ok] by simp
  also have "\<dots> \<longleftrightarrow> mset (q_finished q) = mset (q_accepted q)"
    using ok by (simp add: queue_ok_def queue_conserves_def)
  finally show ?thesis
    using ok unfolding queue_ok_def queue_counts_def queue_conserves_def queue_channels_def by blast
qed

lemma queue_accounts_witness:
  "q_jobGroup (Enqueue None NewQueue) = 1 \<and> pending (Enqueue None NewQueue) = [None]
    \<and> q_jobGroup (Enqueue None NewQueue) = int (length (pending (Enqueue None NewQueue)))"
proof -
  have "reachable queue_init queue_step (Enqueue None NewQueue)"
    by (rule queue_reach [OF NewQueue_reachable step_enqueue])
  from queue_accounts [OF this] show ?thesis
    by (simp add: Enqueue_def NewQueue_def newWorker_def pending_def running_def)
qed

text \<open>C13: As long as one worker is to stay, the queue empties: left to itself it makes finitely many
  moves, and when none is left, all accepted jobs were finished and \<open>Wait\<close> returns.\<close>

theorem queue_drains:
  assumes "reachable queue_init queue_step q" and "visible (q_workers q) \<noteq> []"
    and "run_of queue_step q es q'" and "list_all internal es"
  shows "length es \<le> queue_measure q
    \<and> ((\<exists>e q''. internal e \<and> queue_step q' e q'')
       \<or> Wait_returns q' \<and> mset (q_finished q') = mset (q_accepted q))"
proof -
  have ok: "queue_ok q" using queue_life.inv_reachable [OF assms(1)] .
  note r = internal_run [OF assms(3,4) ok]
  have q': "queue_ok q'" "visible (q_workers q') \<noteq> []" "q_accepted q' = q_accepted q" using r assms(2) by simp_all
  show ?thesis
    using r queue_progress [OF q'(1,2)] queue_done [OF q'(1)] q'(3) by auto
qed

lemma queue_drains_witness:
  "\<exists>q. run_of queue_step (Enqueue None NewQueue) [QSend None, QTake 0 None, QFinish 0 None] q
    \<and> 3 \<le> queue_measure (Enqueue None NewQueue)"
proof -
  let ?q = "Enqueue None NewQueue"
  have r: "reachable queue_init queue_step ?q"
    by (rule queue_reach [OF NewQueue_reachable step_enqueue])
  have "\<exists>q. run_of queue_step ?q [QSend None, QTake 0 None, QFinish 0 None] q"
    by (rule exI, rule queue_run_cons [OF step_send [of _ "[]" _ "[]"] queue_run_cons [OF step_take [of _ "[]" _ "[]" _ "[]"]
          queue_run_cons [OF step_finish [of _ "[]" _ _ "[]"] run_nil]]])
      (simp_all add: Enqueue_def NewQueue_def newWorker_def jobQueueSize_def)
  then obtain q where q: "run_of queue_step ?q [QSend None, QTake 0 None, QFinish 0 None] q" by blast
  have "visible (q_workers ?q) \<noteq> []" using visible_NewQueue by (simp add: Enqueue_def)
  then show ?thesis using queue_drains [OF r _ q] q by (auto simp: internal_def)
qed

text \<open>C5: The queue implements a pool of jobs: every run of it, whatever its workers, resizes and
  channels do, is a run of the pool in which the calls of \<open>Enqueue\<close> submit the jobs and the
  ends of the backups complete them.\<close>

theorem queue_refines_pool:
  assumes "run_of queue_step NewQueue es q"
  shows "run_of pool_step ({#}, {#}) (concat (map pool_obs es)) (mset (pending q), mset (q_finished q))"
proof -
  have "pool_of NewQueue = ({#}, {#})"
    by (simp add: pool_of_def NewQueue_def newWorker_def pending_def running_def)
  then show ?thesis using queue_pool.run_refines [OF assms NewQueue_ok] by (simp add: pool_of_def)
qed

lemma queue_refines_pool_witness:
  "run_of pool_step ({#}, {#}) [Submit None] ({#None#}, {#})
    \<and> pending (Enqueue None NewQueue) = [None]"
  using queue_refines_pool [OF run_single [where step = queue_step, OF step_enqueue], of None]
  by (simp add: Enqueue_def NewQueue_def newWorker_def pending_def running_def)

text \<open>Left to itself the queue comes to rest: no infinite sequence of moves is possible without a
  call of a client.\<close>

theorem queue_moves_terminate:
  "wfp (\<lambda>q' q. \<exists>e. internal e \<and> queue_step q e q')"
  by (rule wfp_if_convertible_to_nat [where f = queue_measure]) (use internal_decreases in blast)

text \<open>A resize to zero, which is what a configuration without a value for \<open>parallel\<close> asks for, is
  not raised to one worker: the last worker quits, and a job accepted after that is never run, so
  \<open>Wait\<close> never returns.\<close>

theorem zero_workers_never_finish:
  "\<exists>q. run_of queue_step NewQueue [QResize 0, QQuit 0, QEnqueue j] q
    \<and> (\<forall>es q'. run_of queue_step q es q' \<and> list_all internal es \<longrightarrow> \<not> Wait_returns q')"
proof -
  let ?q1 = "Resize 0 NewQueue"
  let ?q = "Enqueue j (?q1\<lparr>q_live := [], q_workerGroup := q_workerGroup ?q1 - 1\<rparr>)"
  have q1: "q_live ?q1 = [] @ (0, Idle) # []" "q_closed ?q1 = [0]" "q_spawning ?q1 = 0" "q_jobGroup ?q1 = 0"
    using visible_NewQueue
    by (simp_all add: Resize_def Let_def clamp_size_def maxParallelity_def NewQueue_fields)
  have "run_of queue_step NewQueue [QResize 0, QQuit 0, QEnqueue j] ?q"
    using queue_run_cons [OF step_resize queue_run_cons [OF step_quit [OF q1(1)] queue_run_cons [OF step_enqueue run_nil]]] q1(2) by simp
  moreover have "\<not> Wait_returns q'" if "run_of queue_step ?q es q'" "list_all internal es" for es q'
    using no_workers_run [OF that] q1 by (simp add: Enqueue_def Wait_returns_def)
  ultimately show ?thesis by blast
qed

lemma zero_workers_never_finish_witness:
  "\<exists>q. run_of queue_step NewQueue [QResize 0, QQuit 0, QEnqueue None] q \<and> \<not> Wait_returns q"
  using zero_workers_never_finish [of None] run_nil by fastforce

text \<open>Two resizes to the same size in quick succession, before the new workers have started,
  leave more workers than either asked for.\<close>

theorem quick_resizes_overshoot:
  "\<exists>q. run_of queue_step NewQueue ([QResize 5, QResize 5] @ replicate 8 QSpawn) q \<and> length (visible (q_workers q)) = 9"
proof -
  let ?q = "Resize 5 (Resize 5 NewQueue)"
  have q: "q_spawning ?q = 8" "q_workers ?q = q_workers NewQueue" "ws_len (q_workers NewQueue) = 1"
    by (simp_all add: Resize_def Let_def NewQueue_def newWorker_def clamp_size_def maxParallelity_def ws_append_def)
  have ok: "ws_ok (q_workers NewQueue)" using NewQueue_ok by (simp add: queue_ok_def queue_channels_def)
  have "run_of queue_step ?q (replicate 8 QSpawn) ((spawn ^^ 8) ?q)" using spawn_run [of 8 ?q] q(1) by simp
  then have "run_of queue_step NewQueue ([QResize 5, QResize 5] @ replicate 8 QSpawn) ((spawn ^^ 8) ?q)"
    using queue_run_cons [OF step_resize queue_run_cons [OF step_resize]] by simp
  moreover have "length (visible (q_workers ((spawn ^^ 8) ?q))) = 9"
    using spawn_visible [of ?q 8] q ok length_visible [OF ok] by auto
  ultimately show ?thesis by blast
qed

text \<open>A resize of a settled queue, once its new workers have started, leaves exactly the number of
  workers asked for, capped at 255; the workers that stay are the newest of the old ones.\<close>

theorem resize_settles:
  assumes "reachable queue_init queue_step q" and "q_spawning q = 0"
    and "run_of queue_step (Resize n q) (replicate (q_spawning (Resize n q)) QSpawn) q'"
  shows "int (length (visible (q_workers q'))) = clamp_size n
    \<and> (\<exists>old new. visible (q_workers q') = old @ new \<and> suffix old (visible (q_workers q)))"
proof -
  let ?r = "Resize n q" and ?v = "visible (q_workers q)"
  have ok: "ws_ok (q_workers q)"
    using queue_life.inv_reachable [OF assms(1)] by (simp add: queue_ok_def queue_channels_def)
  have q': "q' = (spawn ^^ q_spawning ?r) ?r" using spawn_run_unique [OF assms(3)] .
  note b = clamp_size_bounds [of n]
  have L: "length ?v = ws_len (q_workers q)" using length_visible [OF ok] .
  have r: "ws_ok (q_workers ?r) \<and> suffix (visible (q_workers ?r)) ?v
      \<and> int (length (visible (q_workers ?r))) + int (q_spawning ?r) = clamp_size n"
  proof (cases "clamp_size n < int (ws_len (q_workers q))")
    case True
    then have "nat (clamp_size n) \<le> ws_len (q_workers q)" by simp
    from ws_shrink_ok [OF ok this] show ?thesis
      using True b assms(2) L by (auto simp: Resize_def Let_def suffix_drop)
  next
    case False
    then show ?thesis using ok assms(2) L by (auto simp: Resize_def Let_def)
  qed
  then obtain new where "visible (q_workers q') = visible (q_workers ?r) @ new" "length new = q_spawning ?r"
    using spawn_visible [of ?r "q_spawning ?r"] unfolding q' by blast
  then show ?thesis using r by auto
qed

lemma resize_settles_witness:
  "int (length (visible (q_workers (Resize 0 NewQueue)))) = clamp_size 0"
proof -
  have s: "q_spawning (Resize 0 NewQueue) = 0" "q_spawning NewQueue = 0"
    by (simp_all add: Resize_def Let_def NewQueue_def newWorker_def clamp_size_def maxParallelity_def ws_append_def)
  then show ?thesis using resize_settles [OF NewQueue_reachable, of 0 "Resize 0 NewQueue"] by (simp add: run_nil)
qed

end
