(* ===== verification/App_Scheduler.thy ===== *)
theory App_Scheduler imports App_Queue begin

text \<open>
  \<open>app/scheduler.go\<close>: the poll over all hosts (\<open>run\<close>), as a function of what happens around
  it, and the life of the scheduler between \<open>Start\<close> and \<open>Stop\<close>, as a transition system. The
  order in which the map of hosts is visited is a parameter, as is what workers do to the
  state while \<open>Enqueue\<close> blocks.
\<close>

section \<open>One poll\<close>

text \<open>
  The surroundings of one round: whether \<open>Stop\<close> was called, the clock and the random generator
  at the two calls of \<open>reschedule\<close>, and the changes others make while the job is enqueued.
\<close>

record tick =
  k_stop :: bool
  k_now :: time
  k_rnd :: "int \<Rightarrow> int"
  k_meanwhile :: "app \<Rightarrow> app"
  k_later :: time
  k_rnd2 :: "int \<Rightarrow> int"

text \<open>
  A round for one host: the new state and the job enqueued, if any. \<open>None\<close> is a panic, on a
  tree without a service configuration.
\<close>

definition sched_visit :: "string \<Rightarrow> tick \<Rightarrow> app \<Rightarrow> (app \<times> job option) option" where
  "sched_visit host k st =
     (case map_of (a_hosts st) host of
        None \<Rightarrow> Some (st, None)
      | Some m \<Rightarrow>
          (case (if is_zero (ScheduledAt m) then reschedule (k_rnd k) host (k_now k) st else Some st) of
             None \<Rightarrow> None
           | Some st \<Rightarrow>
               (let m = (case map_of (a_hosts st) host of Some m' \<Rightarrow> m' | None \<Rightarrow> m); s = Status m
                in if s = StatusRunning \<or> k_now k < ScheduledAt m then Some (st, None)
                   else (case reschedule (k_rnd2 k) host (k_later k) (k_meanwhile k st) of
                           None \<Rightarrow> None
                         | Some st \<Rightarrow> Some (st, Some (m_job m))))))"

text \<open>The loop: the jobs enqueued, in order, with the host they were enqueued for.\<close>

fun sched_run :: "(string \<times> tick) list \<Rightarrow> app \<Rightarrow> (app \<times> (string \<times> job) list) option" where
  "sched_run [] st = Some (st, [])"
| "sched_run ((host, k) # rest) st =
     (if k_stop k then Some (st, [])
      else case sched_visit host k st of
             None \<Rightarrow> None
           | Some (st, j) \<Rightarrow>
               (case sched_run rest st of
                  None \<Rightarrow> None
                | Some (st, es) \<Rightarrow> Some (st, (case j of None \<Rightarrow> es | Some j \<Rightarrow> (host, j) # es))))"

section \<open>The next time is in the future\<close>

lemma NextSchedule_future:
  assumes "int63n_contract rnd" and "valid_schedule (Schedule s)"
  shows "ref < NextSchedule rnd s ref"
proof (cases "0 < Jitter s")
  case True
  let ?half = "Jitter s div 2"
  have h: "Jitter s sdiv 2 = ?half" and o: "- ?half \<le> trunc_dur (rnd (Jitter s) - ?half) (100 * millisecond)"
    using jitter_offset_bounds [OF assms(1) True] by simp_all
  have "0 \<le> ?half" using True by simp
  then have "NextSchedule rnd s ref =
      Next (Schedule s) (ref + ?half) + trunc_dur (rnd (Jitter s) - ?half) (100 * millisecond)"
    using True by (auto simp: NextSchedule_def Let_def h)
  then show ?thesis using Next_bounds(1) [OF assms(2), of "ref + ?half"] o by linarith
next
  case False
  then have "\<not> 0 < Jitter s sdiv 2" by (auto simp: signed_divide_int_def sgn_if zero_less_mult_iff)
  then show ?thesis using False Next_bounds(1) [OF assms(2)] by (simp add: NextSchedule_def Let_def)
qed

text \<open>A planned time is a point of the schedule, off by half the jitter at most.\<close>

lemma NextSchedule_split:
  assumes "int63n_contract rnd"
  obtains off where "NextSchedule rnd s ref = Next (Schedule s) (ref + max 0 (Jitter s) div 2) + off"
    and "- (max 0 (Jitter s) div 2) \<le> off" and "off \<le> max 0 (Jitter s) div 2"
proof (cases "0 < Jitter s")
  case True
  let ?half = "Jitter s div 2" and ?off = "trunc_dur (rnd (Jitter s) - Jitter s div 2) (100 * millisecond)"
  have h: "Jitter s sdiv 2 = ?half" "- ?half \<le> ?off" "?off \<le> Jitter s - ?half - 1"
    using jitter_offset_bounds [OF assms True] by simp_all
  have "0 \<le> ?half" "Jitter s - ?half - 1 \<le> ?half" using True by simp_all
  moreover have "NextSchedule rnd s ref = Next (Schedule s) (ref + ?half) + ?off"
    using True \<open>0 \<le> ?half\<close> by (auto simp: NextSchedule_def Let_def h(1))
  ultimately show ?thesis using that [of ?off] h True by simp
next
  case False
  then have "\<not> 0 < Jitter s sdiv 2" by (auto simp: signed_divide_int_def sgn_if zero_less_mult_iff)
  then show ?thesis using that [of 0] False by (simp add: NextSchedule_def Let_def)
qed

lemma Next_points_apart:
  assumes "valid_schedule sc" and "Next sc t \<le> u"
  shows "Next sc t + day_secs * second \<le> Next sc u"
proof -
  obtain d where d: "Next sc t = (d * day_secs + sched_secs sc) * second" by (rule Next_day [OF assms(1), of t])
  obtain e where e: "Next sc u = (e * day_secs + sched_secs sc) * second" by (rule Next_day [OF assms(1), of u])
  have "(d * day_secs + sched_secs sc) * second < (e * day_secs + sched_secs sc) * second"
    using Next_bounds(1) [OF assms(1), of u] assms(2) d e by linarith
  then have "d * day_secs < e * day_secs" by simp
  then have "d + 1 \<le> e" by simp
  then have "(d + 1) * day_secs \<le> e * day_secs" by (rule mult_right_mono) simp
  then have "((d + 1) * day_secs + sched_secs sc) * second \<le> (e * day_secs + sched_secs sc) * second"
    by (intro mult_right_mono) simp_all
  then show ?thesis unfolding d e by (simp add: algebra_simps)
qed

lemma plan_gap:
  assumes "int63n_contract rnd" and "int63n_contract rnd'" and "valid_schedule (Schedule s)"
    and "NextSchedule rnd s t \<le> u"
  shows "NextSchedule rnd s t + day_secs * second - max 0 (Jitter s) \<le> NextSchedule rnd' s u"
proof -
  let ?half = "max 0 (Jitter s) div 2"
  obtain a where a: "NextSchedule rnd s t = Next (Schedule s) (t + ?half) + a" "- ?half \<le> a" "a \<le> ?half"
    by (rule NextSchedule_split [OF assms(1)])
  obtain b where b: "NextSchedule rnd' s u = Next (Schedule s) (u + ?half) + b" "- ?half \<le> b"
    by (rule NextSchedule_split [OF assms(2)])
  have "Next (Schedule s) (t + ?half) \<le> u + ?half" using a assms(4) by linarith
  from Next_points_apart [OF assms(3) this] show ?thesis
    using a b by linarith
qed

lemma reschedule_entry:
  assumes "reschedule rnd h t st = Some st'" and "map_of (a_hosts st) h = Some m"
  shows "\<exists>svc. Service (a_tree st) = Some svc
    \<and> map_of (a_hosts st') h = Some (m\<lparr>ScheduledAt := NextSchedule rnd svc t\<rparr>) \<and> a_tree st' = a_tree st"
  using assms by (auto simp: reschedule_def split: option.splits)

lemma Status_ScheduledAt [simp]: "Status (m\<lparr>ScheduledAt := t\<rparr>) = Status m"
  by (simp add: Status_def)

lemma m_job_ScheduledAt [simp]: "m_job (m\<lparr>ScheduledAt := t\<rparr>) = m_job m"
  by simp

text \<open>A service whose schedule and random generators keep their contracts.\<close>

definition schedulable :: "app \<Rightarrow> tick \<Rightarrow> bool" where
  "schedulable st k \<longleftrightarrow>
     (\<exists>svc. Service (a_tree st) = Some svc \<and> valid_schedule (Schedule svc))
     \<and> int63n_contract (k_rnd k) \<and> int63n_contract (k_rnd2 k)"

text \<open>What others may do meanwhile: they keep the hosts and the configuration.\<close>

definition keeps_host :: "string \<Rightarrow> (app \<Rightarrow> app) \<Rightarrow> bool" where
  "keeps_host h f \<longleftrightarrow>
     (\<forall>st. a_tree (f st) = a_tree st \<and> (map_of (a_hosts st) h \<noteq> None \<longrightarrow> map_of (a_hosts (f st)) h \<noteq> None))"

lemma sched_visit_cases:
  assumes "sched_visit h k st = Some (st', r)" and "map_of (a_hosts st) h = Some m" and "schedulable st k"
  shows "(r = None \<and> (is_zero (ScheduledAt m) \<or> Status m = StatusRunning \<or> k_now k < ScheduledAt m))
    \<or> (r = Some (m_job m) \<and> \<not> is_zero (ScheduledAt m) \<and> Status m \<noteq> StatusRunning \<and> ScheduledAt m \<le> k_now k
       \<and> reschedule (k_rnd2 k) h (k_later k) (k_meanwhile k st) = Some st')"
proof (cases "is_zero (ScheduledAt m)")
  case True
  obtain svc where svc: "Service (a_tree st) = Some svc" "valid_schedule (Schedule svc)" "int63n_contract (k_rnd k)"
    using assms(3) by (auto simp: schedulable_def)
  then obtain st1 where r: "reschedule (k_rnd k) h (k_now k) st = Some st1"
    using assms(2) by (simp add: reschedule_def)
  then have "map_of (a_hosts st1) h = Some (m\<lparr>ScheduledAt := NextSchedule (k_rnd k) svc (k_now k)\<rparr>)"
    using reschedule_entry [OF r assms(2)] svc(1) by auto
  then show ?thesis
    using assms(1,2) True r NextSchedule_future [OF svc(3,2), of "k_now k"] by (auto simp: sched_visit_def Let_def)
next
  case False
  then show ?thesis
    using assms(1,2) by (auto simp: sched_visit_def Let_def split: if_splits option.splits)
qed

lemma sched_visit_total:
  assumes "Service (a_tree st) \<noteq> None" and "\<And>s. a_tree (k_meanwhile k s) = a_tree s"
  shows "\<exists>r. sched_visit h k st = Some r"
  using assms by (auto simp: sched_visit_def reschedule_def Let_def split: option.split)

section \<open>Start and Stop\<close>

datatype quit_chan = NoChan | Open | Shut

datatype sched_phase = NotStarted | Polling | InRun | Returned

text \<open>
  The fields of the code, where the loop of \<open>Start\<close> is, how many callers wait in \<open>Stop\<close>, and
  whether closing the channel panicked.
\<close>

record sched =
  s_quit :: quit_chan
  s_stop :: bool
  s_wg :: int
  s_phase :: sched_phase
  s_waiting :: nat
  s_crashed :: bool

definition NewScheduler :: sched where
  "NewScheduler =
     \<lparr>s_quit = NoChan, s_stop = False, s_wg = 1, s_phase = NotStarted, s_waiting = 0, s_crashed = False\<rparr>"

text \<open>\<open>Start\<close> up to its loop; \<open>Stop\<close> up to its wait; the end of the loop.\<close>

definition sched_Start :: "sched \<Rightarrow> sched" where
  "sched_Start s = s\<lparr>s_quit := Open, s_stop := False, s_phase := Polling\<rparr>"

definition sched_Stop :: "sched \<Rightarrow> sched" where
  "sched_Stop s =
     (let s = s\<lparr>s_stop := True\<rparr>
      in if s_quit s = Open then s\<lparr>s_quit := Shut, s_waiting := Suc (s_waiting s)\<rparr>
         else s\<lparr>s_crashed := True\<rparr>)"

definition sched_leave :: "sched \<Rightarrow> sched" where
  "sched_leave s = s\<lparr>s_quit := NoChan, s_phase := Returned, s_wg := s_wg s - 1\<rparr>"

datatype sched_event = EvStart | EvTimer | EvRunDone | EvQuit | EvStop | EvStopReturns

inductive sched_step :: "sched \<Rightarrow> sched_event \<Rightarrow> sched \<Rightarrow> bool" where
  sched_start: "\<not> s_crashed s \<Longrightarrow> s_phase s = NotStarted \<Longrightarrow> sched_step s EvStart (sched_Start s)"
| sched_timer: "\<not> s_crashed s \<Longrightarrow> s_phase s = Polling \<Longrightarrow> sched_step s EvTimer (s\<lparr>s_phase := InRun\<rparr>)"
| sched_run_done: "\<not> s_crashed s \<Longrightarrow> s_phase s = InRun \<Longrightarrow> sched_step s EvRunDone (s\<lparr>s_phase := Polling\<rparr>)"
| sched_quit: "\<not> s_crashed s \<Longrightarrow> s_phase s = Polling \<Longrightarrow> s_quit s = Shut \<Longrightarrow> sched_step s EvQuit (sched_leave s)"
| sched_stop: "\<not> s_crashed s \<Longrightarrow> sched_step s EvStop (sched_Stop s)"
| sched_stop_returns:
    "\<not> s_crashed s \<Longrightarrow> 0 < s_waiting s \<Longrightarrow> s_wg s = 0 \<Longrightarrow>
       sched_step s EvStopReturns (s\<lparr>s_waiting := s_waiting s - 1\<rparr>)"

declare sched_step.intros [step_defs]

inductive_cases sched_stepE: "sched_step s e s'"

definition sched_init :: "sched \<Rightarrow> bool" where
  "sched_init s \<longleftrightarrow> s = NewScheduler"

definition sched_ok :: "sched \<Rightarrow> bool" where
  "sched_ok s \<longleftrightarrow>
     s_wg s = (if s_phase s = Returned then 0 else 1)
     \<and> (s_quit s = NoChan \<longleftrightarrow> s_phase s = NotStarted \<or> s_phase s = Returned)
     \<and> (s_quit s = Shut \<longrightarrow> s_stop s)
     \<and> (0 < s_waiting s \<longrightarrow> s_quit s = Shut \<or> s_phase s = Returned)"

interpretation sched_life: invariant_of sched_init sched_step sched_ok
proof
  fix s s' :: sched and e
  show "sched_init s \<Longrightarrow> sched_ok s" by (simp add: sched_init_def sched_ok_def NewScheduler_def)
  show "sched_ok s \<Longrightarrow> sched_step s e s' \<Longrightarrow> sched_ok s'"
    by (erule sched_stepE) (auto simp: sched_ok_def sched_Start_def sched_Stop_def sched_leave_def Let_def)
qed

text \<open>Concrete surroundings for the examples: a host whose schedule was due at second 100.\<close>

definition example_tick :: tick where
  "example_tick =
     \<lparr>k_stop = False, k_now = 200 * second, k_rnd = (\<lambda>_. 0), k_meanwhile = (\<lambda>st. st), k_later = 201 * second,
      k_rnd2 = (\<lambda>_. 0)\<rparr>"

definition example_app :: "metrics \<Rightarrow> app" where
  "example_app m = (initial_app ((NewTree ''/z'')\<lparr>t_service := Some zero_service\<rparr>))\<lparr>a_hosts := [(''a'', m)]\<rparr>"

definition due_metrics :: metrics where
  "due_metrics = zero_metrics\<lparr>ScheduledAt := 100 * second, m_job := Some example_job\<rparr>"

lemma example_schedulable: "schedulable (example_app m) example_tick"
  by (simp add: schedulable_def example_app_def example_tick_def initial_app_def Service_def zero_service_def
      valid_schedule_def int63n_contract_def)

lemma example_visit: "\<exists>st'. sched_visit ''a'' example_tick (example_app due_metrics) = Some (st', Some (Some example_job))"
  by (simp add: sched_visit_def example_tick_def example_app_def due_metrics_def initial_app_def is_zero_def
      zero_time_def Status_def zero_metrics_def reschedule_def Service_def)

lemma example_app_entry: "map_of (a_hosts (example_app m)) ''a'' = Some m"
  by (simp add: example_app_def)

lemmas sched_run_cons = run_cons [where step = sched_step]

section \<open>Properties\<close>

text \<open>C10: A poll enqueues a host only when its planned time has come and no backup of it is running. What
  it enqueues is the host's job, and the host is planned anew for a time after the enqueuing, so
  that it is not due again at once.\<close>

theorem scheduler_enqueues_due:
  assumes "sched_visit h k st = Some (st', Some j)" and "map_of (a_hosts st) h = Some m"
    and "schedulable st k" and "keeps_host h (k_meanwhile k)"
  shows "j = m_job m \<and> Status m \<noteq> StatusRunning \<and> \<not> is_zero (ScheduledAt m) \<and> ScheduledAt m \<le> k_now k
    \<and> (\<exists>m'. map_of (a_hosts st') h = Some m' \<and> k_later k < ScheduledAt m')"
proof -
  from sched_visit_cases [OF assms(1-3)]
  have v: "j = m_job m" "\<not> is_zero (ScheduledAt m)" "Status m \<noteq> StatusRunning" "ScheduledAt m \<le> k_now k"
    and r: "reschedule (k_rnd2 k) h (k_later k) (k_meanwhile k st) = Some st'" by auto
  obtain m1 where m1: "map_of (a_hosts (k_meanwhile k st)) h = Some m1" and t: "a_tree (k_meanwhile k st) = a_tree st"
    using assms(2,4) by (fastforce simp: keeps_host_def)
  obtain svc where svc: "Service (a_tree st) = Some svc" "valid_schedule (Schedule svc)" "int63n_contract (k_rnd2 k)"
    using assms(3) by (auto simp: schedulable_def)
  have "map_of (a_hosts st') h = Some (m1\<lparr>ScheduledAt := NextSchedule (k_rnd2 k) svc (k_later k)\<rparr>)"
    using reschedule_entry [OF r m1] svc(1) t by auto
  then show ?thesis using v NextSchedule_future [OF svc(3,2)] by auto
qed

lemma scheduler_enqueues_due_witness:
  "\<exists>st' m'. sched_visit ''a'' example_tick (example_app due_metrics) = Some (st', Some (Some example_job))
    \<and> map_of (a_hosts st') ''a'' = Some m' \<and> 201 * second < ScheduledAt m'"
proof -
  obtain st' where v: "sched_visit ''a'' example_tick (example_app due_metrics) = Some (st', Some (Some example_job))"
    using example_visit by blast
  have "keeps_host ''a'' (k_meanwhile example_tick)" by (simp add: keeps_host_def example_tick_def)
  from scheduler_enqueues_due [OF v example_app_entry example_schedulable this]
  show ?thesis using v by (auto simp: example_tick_def)
qed

text \<open>C11: The plans of a host are at least a day apart, less the jitter: whenever a poll enqueues a host whose
  planned time is one the schedule gave, and the clock does not run back between the check and the new
  plan, the time it is planned for next is later by a day less the jitter at least (a bound that says
  nothing for a jitter of a day or more), and it is again a time the schedule gave.\<close>

theorem plans_a_day_apart:
  assumes "sched_visit h k st = Some (st', Some j)" and "map_of (a_hosts st) h = Some m"
    and "schedulable st k" and "keeps_host h (k_meanwhile k)" and "k_now k \<le> k_later k"
    and "Service (a_tree st) = Some svc" and "int63n_contract rnd" and "ScheduledAt m = NextSchedule rnd svc t"
  shows "\<exists>m' rnd' t'. map_of (a_hosts st') h = Some m'
    \<and> ScheduledAt m + day_secs * second - max 0 (Jitter svc) \<le> ScheduledAt m'
    \<and> int63n_contract rnd' \<and> ScheduledAt m' = NextSchedule rnd' svc t'"
proof -
  from sched_visit_cases [OF assms(1-3)]
  have v: "ScheduledAt m \<le> k_now k" and r: "reschedule (k_rnd2 k) h (k_later k) (k_meanwhile k st) = Some st'" by auto
  obtain m1 where m1: "map_of (a_hosts (k_meanwhile k st)) h = Some m1" and t: "a_tree (k_meanwhile k st) = a_tree st"
    using assms(2,4) by (fastforce simp: keeps_host_def)
  have s: "valid_schedule (Schedule svc)" "int63n_contract (k_rnd2 k)" using assms(3,6) by (auto simp: schedulable_def)
  have "map_of (a_hosts st') h = Some (m1\<lparr>ScheduledAt := NextSchedule (k_rnd2 k) svc (k_later k)\<rparr>)"
    using reschedule_entry [OF r m1] assms(6) t by auto
  moreover have "ScheduledAt m + day_secs * second - max 0 (Jitter svc) \<le> NextSchedule (k_rnd2 k) svc (k_later k)"
    using plan_gap [OF assms(7) s(2,1), of t "k_later k"] v assms(5,8) by simp
  ultimately show ?thesis using s(2) by auto
qed

definition planned :: metrics where
  "planned = due_metrics\<lparr>ScheduledAt := NextSchedule (\<lambda>_. 0) zero_service 0\<rparr>"

lemma plans_a_day_apart_witness:
  "\<exists>st' m'. sched_visit ''a'' (example_tick\<lparr>k_now := 90000 * second, k_later := 90001 * second\<rparr>) (example_app planned)
      = Some (st', Some (Some example_job))
    \<and> map_of (a_hosts st') ''a'' = Some m' \<and> ScheduledAt planned + day_secs * second \<le> ScheduledAt m'"
proof -
  let ?k = "example_tick\<lparr>k_now := 90000 * second, k_later := 90001 * second\<rparr>"
  have svc: "Service (a_tree (example_app planned)) = Some zero_service" "Jitter zero_service = 0" "valid_schedule (Schedule zero_service)"
    by (simp_all add: example_app_def initial_app_def Service_def zero_service_def valid_schedule_def)
  have n: "NextSchedule (\<lambda>_. 0) zero_service 0 = Next (Schedule zero_service) 0"
    using svc(2) by (simp add: NextSchedule_def Let_def)
  have b: "0 < ScheduledAt planned" "ScheduledAt planned \<le> 86400 * second"
    using Next_bounds [OF svc(3), of 0] by (simp_all add: planned_def n)
  have "Status planned = StatusPrimed" "m_job planned = Some example_job"
    by (simp_all add: planned_def due_metrics_def Status_def zero_metrics_def is_zero_def)
  then obtain st' where v: "sched_visit ''a'' ?k (example_app planned) = Some (st', Some (Some example_job))"
    using b svc(1) example_app_entry [of planned]
    by (auto simp: sched_visit_def Let_def is_zero_def zero_time_def reschedule_def example_tick_def)
  have c: "schedulable (example_app planned) ?k" "keeps_host ''a'' (k_meanwhile ?k)" "int63n_contract (\<lambda>_. 0)"
    using example_schedulable [of planned] by (auto simp: schedulable_def keeps_host_def example_tick_def int63n_contract_def)
  have "ScheduledAt planned = NextSchedule (\<lambda>_. 0) zero_service 0" by (simp add: planned_def)
  from plans_a_day_apart [OF v example_app_entry c(1,2) _ svc(1) c(3) this] show ?thesis
    using v svc(2) by (auto simp: example_tick_def)
qed

text \<open>One poll enqueues each host at most once, in the order of the visits, and none from the moment
  on at which it sees that it is to stop.\<close>

theorem scheduler_visits_once:
  assumes "sched_run visits st = Some (st', es)"
  shows "subseq (map fst es) (map fst (takeWhile (\<lambda>v. \<not> k_stop (snd v)) visits))"
  using assms
proof (induction visits arbitrary: st es)
  case (Cons v rest)
  obtain h k where v: "v = (h, k)" by fastforce
  show ?case
  proof (cases "k_stop k")
    case False
    then obtain st1 j where "sched_visit h k st = Some (st1, j)"
      using Cons.prems v by (cases "sched_visit h k st") auto
    with False obtain es1 where "sched_run rest st1 = Some (st', es1)"
      and es: "es = (case j of None \<Rightarrow> es1 | Some j \<Rightarrow> (h, j) # es1)"
      using Cons.prems v by (auto split: option.splits)
    then have "subseq (map fst es1) (map fst (takeWhile (\<lambda>v. \<not> k_stop (snd v)) rest))"
      using Cons.IH by blast
    then show ?thesis using False v es by (cases j) auto
  qed (use Cons.prems v in simp)
qed simp

lemma scheduler_visits_once_witness:
  "\<exists>st' es. sched_run [(''a'', example_tick)] (example_app due_metrics) = Some (st', es) \<and> subseq (map fst es) [''a'']"
proof -
  obtain st' where "sched_visit ''a'' example_tick (example_app due_metrics) = Some (st', Some (Some example_job))"
    using example_visit by blast
  then have r: "sched_run [(''a'', example_tick)] (example_app due_metrics) = Some (st', [(''a'', Some example_job)])"
    by (simp add: example_tick_def)
  from scheduler_visits_once [OF r] show ?thesis using r by (auto simp: example_tick_def)
qed

text \<open>After a call of \<open>Stop\<close> that did not panic: the loop still has to end, or \<open>Stop\<close> has to return, or has.\<close>

definition stop_called :: "sched \<Rightarrow> bool" where
  "stop_called s \<longleftrightarrow>
     (s_phase s = Polling \<or> s_phase s = InRun) \<and> s_quit s = Shut \<and> s_waiting s = 1 \<and> s_wg s = 1
     \<or> s_phase s = Returned \<and> s_quit s = NoChan \<and> s_waiting s \<le> 1 \<and> s_wg s = 0"

lemma stop_called_step: "stop_called s \<Longrightarrow> sched_step s e s' \<Longrightarrow> stop_called s'"
  by (erule sched_stepE) (auto simp: stop_called_def sched_Stop_def sched_leave_def Let_def)

lemma stop_called_run: "run_of sched_step s es s' \<Longrightarrow> stop_called s \<Longrightarrow> stop_called s'"
  by (induction rule: run_of.induct) (auto dest: stop_called_step)

lemma stop_called_ends:
  assumes "stop_called s" and "\<not> s_crashed s"
  shows "\<exists>es t. run_of sched_step s es t \<and> subseq es [EvRunDone, EvQuit, EvStopReturns] \<and> s_phase t = Returned \<and> s_waiting t = 0"
proof -
  have returns: "\<exists>es t. run_of sched_step u es t \<and> subseq es [EvStopReturns] \<and> s_phase t = Returned \<and> s_waiting t = 0"
    if "s_phase u = Returned" "s_waiting u \<le> 1" "s_wg u = 0" "\<not> s_crashed u" for u
  proof (cases "s_waiting u = 0")
    case True
    then show ?thesis using that run_nil [of sched_step u] by (intro exI [of _ "[]"] exI [of _ u]) simp
  next
    case False
    then have "sched_step u EvStopReturns (u\<lparr>s_waiting := s_waiting u - 1\<rparr>)" using that by (intro sched_stop_returns) simp_all
    then show ?thesis using run_single [where step = sched_step] False that
      by (intro exI [of _ "[EvStopReturns]"] exI [of _ "u\<lparr>s_waiting := s_waiting u - 1\<rparr>"]) simp
  qed
  have quits: "\<exists>es t. run_of sched_step u es t \<and> subseq es [EvQuit, EvStopReturns] \<and> s_phase t = Returned \<and> s_waiting t = 0"
    if "s_phase u = Polling" "s_quit u = Shut" "s_waiting u = 1" "s_wg u = 1" "\<not> s_crashed u" for u
  proof -
    let ?v = "sched_leave u"
    have v: "s_phase ?v = Returned" "s_waiting ?v \<le> 1" "s_wg ?v = 0" "\<not> s_crashed ?v" using that by (simp_all add: sched_leave_def)
    have m: "sched_step u EvQuit (sched_leave u)" using that by (intro sched_quit)
    obtain es t where "run_of sched_step (sched_leave u) es t" "subseq es [EvStopReturns]" "s_phase t = Returned" "s_waiting t = 0"
      using returns [OF v] by blast
    then show ?thesis using sched_run_cons [OF m] by (intro exI [of _ "EvQuit # es"] exI [of _ t]) simp
  qed
  consider "s_phase s = Returned" | "s_phase s = Polling" | "s_phase s = InRun"
    using assms(1) by (auto simp: stop_called_def)
  then show ?thesis
  proof cases
    case 1
    then obtain es t where "run_of sched_step s es t" "subseq es [EvStopReturns]" "s_phase t = Returned" "s_waiting t = 0"
      using returns [of s] assms by (auto simp: stop_called_def)
    then show ?thesis by (intro exI [of _ es] exI [of _ t]) (simp add: list_emb_Cons)
  next
    case 2
    then obtain es t where "run_of sched_step s es t" "subseq es [EvQuit, EvStopReturns]" "s_phase t = Returned" "s_waiting t = 0"
      using quits [of s] assms by (auto simp: stop_called_def)
    then show ?thesis by (intro exI [of _ es] exI [of _ t]) (simp add: list_emb_Cons)
  next
    case 3
    then have m: "sched_step s EvRunDone (s\<lparr>s_phase := Polling\<rparr>)" using assms(2) by (intro sched_run_done)
    obtain es t where "run_of sched_step (s\<lparr>s_phase := Polling\<rparr>) es t" "subseq es [EvQuit, EvStopReturns]"
        "s_phase t = Returned" "s_waiting t = 0"
      using quits [of "s\<lparr>s_phase := Polling\<rparr>"] assms 3 by (auto simp: stop_called_def)
    then show ?thesis using sched_run_cons [OF m] by (intro exI [of _ "EvRunDone # es"] exI [of _ t]) simp
  qed
qed

text \<open>C26: A call of \<open>Stop\<close> panics exactly when the loop has not begun, is over or was already told to stop.
  Otherwise it has not returned in any later state in which the loop is not over; and in every later state,
  unless a further call of \<open>Stop\<close> has panicked, it can still return, and needs for it no more than that the poll
  in progress, if any, ends and the loop then takes the closed channel. This is what the scheduler
  can do on its own: that it happens needs a poll that does end, which one over a full queue without workers
  does not, and a loop that does not prefer its timer for ever.\<close>

theorem scheduler_stops:
  assumes "reachable sched_init sched_step s" and "sched_step s EvStop s'"
  shows "(s_crashed s' \<longleftrightarrow> s_phase s = NotStarted \<or> s_phase s = Returned \<or> s_quit s = Shut)
    \<and> (s_crashed s' \<or> (\<forall>es t. run_of sched_step s' es t \<longrightarrow>
         (s_waiting t = 0 \<longrightarrow> s_phase t = Returned)
         \<and> (s_crashed t \<or> (\<exists>fs u. run_of sched_step t fs u \<and> subseq fs [EvRunDone, EvQuit, EvStopReturns]
              \<and> s_phase u = Returned \<and> s_waiting u = 0))))"
proof -
  have ok: "sched_ok s" using sched_life.inv_reachable [OF assms(1)] .
  have s': "s' = sched_Stop s" "\<not> s_crashed s" using assms(2) by (auto elim: sched_stepE)
  have crash: "s_crashed s' \<longleftrightarrow> s_phase s = NotStarted \<or> s_phase s = Returned \<or> s_quit s = Shut"
    using ok s' by (cases "s_quit s") (auto simp: sched_ok_def sched_Stop_def Let_def)
  have "stop_called s'" if "\<not> s_crashed s'"
    using that crash ok s' by (cases "s_quit s"; cases "s_phase s") (auto simp: sched_ok_def sched_Stop_def stop_called_def)
  then have called: "stop_called t" if "\<not> s_crashed s'" "run_of sched_step s' es t" for es t
    using stop_called_run [OF that(2)] that(1) by blast
  have "s_waiting t = 0 \<longrightarrow> s_phase t = Returned" if "stop_called t" for t using that by (auto simp: stop_called_def)
  then show ?thesis using crash called stop_called_ends by blast
qed

lemma scheduler_stops_witness:
  "(\<exists>s. sched_step NewScheduler EvStop s \<and> s_crashed s)
    \<and> (\<exists>fs u. run_of sched_step (sched_Stop (sched_Start NewScheduler)) fs u \<and> s_phase u = Returned \<and> s_waiting u = 0)"
proof -
  have r: "reachable sched_init sched_step NewScheduler" by (rule reachable_init) (simp add: sched_init_def)
  have s: "sched_step NewScheduler EvStop (sched_Stop NewScheduler)" by (rule sched_stop) (simp add: NewScheduler_def)
  have "sched_step NewScheduler EvStart (sched_Start NewScheduler)" by (rule sched_start) (simp_all add: NewScheduler_def)
  from reachable_step [where step = sched_step, OF r this]
  have r1: "reachable sched_init sched_step (sched_Start NewScheduler)" .
  have s1: "sched_step (sched_Start NewScheduler) EvStop (sched_Stop (sched_Start NewScheduler))"
    by (rule sched_stop) (simp add: NewScheduler_def sched_Start_def)
  have n: "\<not> s_crashed (sched_Stop (sched_Start NewScheduler))" by (simp add: NewScheduler_def sched_Start_def sched_Stop_def)
  have "s_crashed (sched_Stop NewScheduler)" using scheduler_stops [OF r s] by (simp add: NewScheduler_def)
  moreover have "\<exists>fs u. run_of sched_step (sched_Stop (sched_Start NewScheduler)) fs u \<and> s_phase u = Returned \<and> s_waiting u = 0"
    using scheduler_stops [OF r1 s1] n run_nil [of sched_step "sched_Stop (sched_Start NewScheduler)"] by blast
  ultimately show ?thesis using s by blast
qed

end
