(* ===== verification/Go_Duration.thy ===== *)
theory Go_Duration imports Go_Strconv Go_Time begin

text \<open>
  The text of a duration (\<open>time.Duration.String\<close>): the largest units that are not zero, and the
  fraction of the last one without trailing zeros. The micro sign is two bytes of UTF-8.
\<close>

definition strip_zeros :: "string \<Rightarrow> string" where
  "strip_zeros s = rev (dropWhile (\<lambda>c. c = CHR ''0'') (rev s))"

definition pad_zeros :: "nat \<Rightarrow> string \<Rightarrow> string" where
  "pad_zeros n s = replicate (n - length s) (CHR ''0'') @ s"

text \<open>The fraction of \<open>v\<close> in units of ten to the power \<open>prec\<close>, with its point.\<close>

definition frac_str :: "nat \<Rightarrow> nat \<Rightarrow> string" where
  "frac_str prec v =
     (let ds = strip_zeros (pad_zeros prec (nat_str (v mod 10 ^ prec)))
      in if v mod 10 ^ prec = 0 then [] else ''.'' @ ds)"

definition duration_abs_str :: "nat \<Rightarrow> string" where
  "duration_abs_str u =
     (if u = 0 then ''0s''
      else if u < 1000 then nat_str u @ ''ns''
      else if u < 1000000 then nat_str (u div 1000) @ frac_str 3 u @ [CHR 0xC2, CHR 0xB5, CHR ''s'']
      else if u < 1000000000 then nat_str (u div 1000000) @ frac_str 6 u @ ''ms''
      else (let s = u div 1000000000; m = s div 60; h = m div 60
            in (if m = 0 then []
                else (if h = 0 then [] else nat_str h @ ''h'') @ nat_str (m mod 60) @ ''m'')
               @ nat_str (s mod 60) @ frac_str 9 u @ ''s''))"

definition duration_String :: "duration \<Rightarrow> string" where
  "duration_String d = (if d < 0 then ''-'' else []) @ duration_abs_str (nat \<bar>d\<bar>)"

lemma duration_examples:
  "duration_String (90 * second) = ''1m30s''"
  "duration_String (1500 * millisecond) = ''1.5s''"
  "duration_String (250 * millisecond) = ''250ms''"
  "duration_String (7200 * second + 20 * millisecond) = ''2h0m0.02s''"
  by (simp_all add: duration_String_def duration_abs_str_def frac_str_def strip_zeros_def pad_zeros_def
      nat_str.simps digit_char_def Let_def char_of_def drop_bit_Suc bit_iff_odd)

end
