(* ===== verification/App_Web.thy ===== *)
theory App_Web imports App_Scheduler Go_Duration begin

text \<open>
  \<open>app/prometheus.go\<close> and the page of \<open>app/server.go\<close>: what is exported about the hosts, and
  what showing it does to them. A sample is the number the code converts to a \<open>float64\<close>. Of
  the page the model has the values of the table; the HTTP server, the template's HTML and the
  floating point percentages are not modelled.
\<close>

section \<open>Prometheus\<close>

datatype sample = OfInt int | OfFloat float64

datatype value_type = CounterValue | GaugeValue | UntypedValue

text \<open>A description: full name, help text, names of the variable labels, constant labels.\<close>

record prom_desc =
  d_fqName :: string
  d_help :: string
  d_variableLabels :: "string list"
  d_constLabels :: "(string \<times> string) list"

record prom_export =
  p_name :: string
  p_help :: string
  p_typ :: value_type
  p_value :: "metrics \<Rightarrow> sample"
  p_desc :: "prom_desc option"

definition prom_exports :: "prom_export list" where
  "prom_exports =
    [\<lparr>p_name = ''last_success'', p_help = ''timestamp of last success'', p_typ = CounterValue,
       p_value = (\<lambda>m. case SucceededAt m of Some t \<Rightarrow> OfInt (unix t) | None \<Rightarrow> OfInt (- 1)), p_desc = None\<rparr>,
     \<lparr>p_name = ''last_duration'', p_help = ''duration of last successful run in seconds'', p_typ = GaugeValue,
       p_value = (\<lambda>m. case SucceededAt m of Some _ \<Rightarrow> OfInt (SuccessDuration m sdiv second) | None \<Rightarrow> OfInt (- 1)),
       p_desc = None\<rparr>,
     \<lparr>p_name = ''space_used'', p_help = ''total space used for backups in bytes'', p_typ = GaugeValue,
       p_value = (\<lambda>m. OfInt (uint (SpaceUsedTotal m))), p_desc = None\<rparr>,
     \<lparr>p_name = ''space_used_by_snapshots'', p_help = ''space used by snapshots in bytes'', p_typ = GaugeValue,
       p_value = (\<lambda>m. OfInt (uint (SpaceUsedBySnapshots m))), p_desc = None\<rparr>,
     \<lparr>p_name = ''space_used_by_dataset'', p_help = ''space used by dataset in bytes'', p_typ = GaugeValue,
       p_value = (\<lambda>m. OfInt (uint (SpaceUsedByDataset m))), p_desc = None\<rparr>,
     \<lparr>p_name = ''space_used_by_children'', p_help = ''space used by children in bytes'', p_typ = GaugeValue,
       p_value = (\<lambda>m. OfInt (uint (SpaceUsedByChildren m))), p_desc = None\<rparr>,
     \<lparr>p_name = ''space_used_by_reserved'', p_help = ''space reserved in bytes'', p_typ = GaugeValue,
       p_value = (\<lambda>m. OfInt (uint (SpaceUsedByRefReservation m))), p_desc = None\<rparr>,
     \<lparr>p_name = ''compression'', p_help = ''compression ratio'', p_typ = GaugeValue,
       p_value = (\<lambda>m. OfFloat (CompressionFactor m)), p_desc = None\<rparr>]"

definition hostLabels :: "string list" where
  "hostLabels = [''host'']"

text \<open>\<open>Desc\<close> builds the description on first use. The version string is a parameter.\<close>

definition Desc :: "prom_export \<Rightarrow> prom_desc \<times> prom_export" where
  "Desc f =
     (case p_desc f of
        Some d \<Rightarrow> (d, f)
      | None \<Rightarrow>
          (let name = ''zackup_'' @ p_name f;
               d = \<lparr>d_fqName = name, d_help = p_help f, d_variableLabels = hostLabels, d_constLabels = []\<rparr>
           in (d, f\<lparr>p_desc := Some d\<rparr>)))"

definition version_desc :: "string \<Rightarrow> prom_desc" where
  "version_desc ver =
     \<lparr>d_fqName = ''zackup_version'', d_help = ''version information'', d_variableLabels = [],
      d_constLabels = [(''version'', ver)]\<rparr>"

definition Describe :: "string \<Rightarrow> prom_export list \<Rightarrow> prom_desc list \<times> prom_export list" where
  "Describe ver e = (map (fst \<circ> Desc) e @ [version_desc ver], map (snd \<circ> Desc) e)"

text \<open>A metric: its description, type, value and label values. \<open>None\<close> is a panic on a nil description.\<close>

type_synonym prom_metric = "prom_desc \<times> value_type \<times> sample \<times> string list"

fun collect_host :: "prom_export list \<Rightarrow> string \<times> metrics \<Rightarrow> prom_metric list option" where
  "collect_host [] hm = Some []"
| "collect_host (f # fs) hm =
     (case p_desc f of
        None \<Rightarrow> None
      | Some d \<Rightarrow>
          (case collect_host fs hm of
             None \<Rightarrow> None
           | Some ms \<Rightarrow> Some ((d, p_typ f, p_value f (snd hm), [fst hm]) # ms)))"

text \<open>
  \<open>Collect\<close> exports twice: the hosts are those of the first call, but the loop runs over the
  indices of the second. An index past the end panics.
\<close>

fun collect_loop ::
  "string \<Rightarrow> prom_export list \<Rightarrow> (string \<times> metrics) list \<Rightarrow> nat list \<Rightarrow> prom_metric list option" where
  "collect_loop ver e hms [] = Some [(version_desc ver, UntypedValue, OfInt 1, [])]"
| "collect_loop ver e hms (i # rest) =
     (if length hms \<le> i then None
      else case collect_host e (hms ! i) of
             None \<Rightarrow> None
           | Some ms \<Rightarrow>
               (case collect_loop ver e hms rest of
                  None \<Rightarrow> None
                | Some ms' \<Rightarrow> Some (ms @ ms')))"

definition Collect :: "string \<Rightarrow> prom_export list \<Rightarrow> app \<Rightarrow> app \<Rightarrow> prom_metric list option" where
  "Collect ver e st1 st2 = collect_loop ver e (export st1) [0..<length (export st2)]"

section \<open>What is collected\<close>

definition host_desc :: "prom_export \<Rightarrow> prom_desc" where
  "host_desc f =
     \<lparr>d_fqName = ''zackup_'' @ p_name f, d_help = p_help f, d_variableLabels = [''host''], d_constLabels = []\<rparr>"

definition described :: "prom_export list \<Rightarrow> bool" where
  "described e \<longleftrightarrow> list_all (\<lambda>f. p_desc f = Some (host_desc f)) e"

lemma Describe_described: "described (snd (Describe ver prom_exports))"
  by (simp add: described_def Describe_def Desc_def prom_exports_def Let_def host_desc_def hostLabels_def)

definition metrics_of_host :: "prom_export list \<Rightarrow> string \<times> metrics \<Rightarrow> prom_metric list" where
  "metrics_of_host e hm = map (\<lambda>f. (host_desc f, p_typ f, p_value f (snd hm), [fst hm])) e"

lemma collect_host_described: "described e \<Longrightarrow> collect_host e hm = Some (metrics_of_host e hm)"
  by (induction e) (auto simp: described_def metrics_of_host_def)

lemma collect_loop_ok:
  "described e \<Longrightarrow> \<forall>i\<in>set is'. i < length hms \<Longrightarrow>
     collect_loop ver e hms is' =
       Some (concat (map (\<lambda>i. metrics_of_host e (hms ! i)) is') @ [(version_desc ver, UntypedValue, OfInt 1, [])])"
  by (induction is') (simp_all add: collect_host_described)

text \<open>What was described, and that no two samples have description and labels in common.\<close>

lemma Describe_prom_exports:
  "fst (Describe ver prom_exports) = map host_desc (snd (Describe ver prom_exports)) @ [version_desc ver]"
  by (simp add: Describe_def Desc_def prom_exports_def Let_def host_desc_def hostLabels_def)

lemma distinct_descs: "distinct (fst (Describe ver prom_exports))"
  by (simp add: Describe_def Desc_def prom_exports_def Let_def version_desc_def)

definition sample_key :: "prom_metric \<Rightarrow> prom_desc \<times> string list" where
  "sample_key m = (case m of (d, _, _, ls) \<Rightarrow> (d, ls))"

lemma keys_of_host: "map sample_key (metrics_of_host e hm) = map (\<lambda>f. (host_desc f, [fst hm])) e"
  by (simp add: metrics_of_host_def sample_key_def)

lemma distinct_host_samples:
  assumes "distinct (map host_desc e)" and "distinct (map fst hms)"
  shows "distinct (map sample_key (concat (map (metrics_of_host e) hms)))"
  using assms(2)
proof (induction hms)
  case (Cons hm hms)
  let ?ms = "concat (map (metrics_of_host e) hms)"
  have d: "distinct (map sample_key (metrics_of_host e hm))"
    unfolding keys_of_host using assms(1) by (simp add: distinct_map inj_on_def)
  have "False" if k: "k \<in> set (map sample_key (metrics_of_host e hm))" "k \<in> set (map sample_key ?ms)" for k
  proof -
    have "snd k = [fst hm]" using k(1) by (auto simp: metrics_of_host_def sample_key_def)
    moreover obtain h m where "h \<in> set hms" "m \<in> set (metrics_of_host e h)" "k = sample_key m" using k(2) by auto
    then have "\<exists>h\<in>set hms. snd k = [fst h]" by (auto simp: metrics_of_host_def sample_key_def)
    ultimately show False using Cons.prems by auto
  qed
  then have "set (map sample_key (metrics_of_host e hm)) \<inter> set (map sample_key ?ms) = {}" by blast
  then show ?case
    using Cons.IH Cons.prems d
    by (simp only: list.map concat.simps map_append distinct_append distinct.simps simp_thms)
qed simp

lemma collect_loop_panics: "i \<in> set is' \<Longrightarrow> length hms \<le> i \<Longrightarrow> collect_loop ver e hms is' = None"
  by (induction is') (auto split: option.split)

lemma length_export [simp]: "length (export st) = length (a_hosts st)"
  by (simp add: export_eq)

section \<open>The page\<close>

text \<open>
  \<open>tplFmtTime\<close> on a pointer writes the truncated time back through it. The pointers of an
  exported snapshot are those of the state, so showing the page changes it: this is the
  effect of the template on one host, whose times it shows only if the host was started.
\<close>

definition fmt_time_pointer :: "time \<Rightarrow> time" where
  "fmt_time_pointer t = zero_time + (t - zero_time) div second * second"

text \<open>
  The formats of local and relative times are parameters. The result is the tag and, for a
  pointer that is not nil, the value left in it.
\<close>

record page_fmt =
  pf_rfc3339 :: "time \<Rightarrow> string"
  pf_minutes :: "time \<Rightarrow> string"
  pf_relative :: "time \<Rightarrow> string"

definition quote :: string where
  "quote = [CHR 0x22]"

definition tplUnavailable :: string where
  "tplUnavailable =
     ''<abbr class='' @ quote @ ''text-muted'' @ quote @ '' title='' @ quote @ ''not available'' @ quote @ ''>n/a</abbr>''"

definition tplFmtTime :: "page_fmt \<Rightarrow> time option \<Rightarrow> bool \<Rightarrow> string \<times> time option" where
  "tplFmtTime pf t human =
     (case t of
        None \<Rightarrow> (tplUnavailable, None)
      | Some t \<Rightarrow>
          (let v = fmt_time_pointer t;
               tag = (if human
                      then ''<time datetime='' @ quote @ pf_rfc3339 pf v @ quote @ '' title='' @ quote @ pf_minutes pf v @ quote
                        @ ''>'' @ pf_relative pf v @ ''</time>''
                      else ''<time datetime='' @ quote @ pf_rfc3339 pf v @ quote @ ''>'' @ pf_minutes pf v @ ''</time>'')
           in (tag, Some v)))"

text \<open>The page passes durations by value.\<close>

definition tplFmtDuration :: "duration \<Rightarrow> string" where
  "tplFmtDuration d =
     duration_String (if 10 * second < d then trunc_dur d (100 * millisecond) else d)"

definition show_host :: "metrics \<Rightarrow> metrics" where
  "show_host m =
     (if is_zero (StartedAt m) then m
      else m\<lparr>SucceededAt := map_option fmt_time_pointer (SucceededAt m),
             FailedAt := map_option fmt_time_pointer (FailedAt m)\<rparr>)"

definition handleIndex :: "app \<Rightarrow> app" where
  "handleIndex st = st\<lparr>a_hosts := map (\<lambda>(h, m). (h, show_host m)) (a_hosts st)\<rparr>"

definition tplStatusClass :: "metrics \<Rightarrow> string" where
  "tplStatusClass m =
     (case Status m of
        StatusFailed \<Rightarrow> ''table-danger''
      | StatusSuccess \<Rightarrow> ''table-success''
      | StatusRunning \<Rightarrow> ''table-warning''
      | _ \<Rightarrow> '''')"

definition tplStatusIcon :: "metrics \<Rightarrow> string" where
  "tplStatusIcon m =
     (case Status m of
        StatusFailed \<Rightarrow> ''fas fa-times''
      | StatusSuccess \<Rightarrow> ''fas fa-check''
      | StatusRunning \<Rightarrow> ''fas fa-spinner fa-pulse''
      | StatusPrimed \<Rightarrow> ''far fa-clock''
      | StatusUnknown \<Rightarrow> ''fas fa-question'')"

text \<open>\<open>humanize.Bytes\<close> is a parameter.\<close>

definition tplUsageDetails :: "(64 word \<Rightarrow> string) \<Rightarrow> metrics \<Rightarrow> string" where
  "tplUsageDetails bytes m =
     ''dataset: '' @ bytes (SpaceUsedByDataset m) @ '', snapshots: '' @ bytes (SpaceUsedBySnapshots m)
     @ '', children: '' @ bytes (SpaceUsedByChildren m) @ '', reserved: '' @ bytes (SpaceUsedByRefReservation m)"

lemma fmt_time_pointer_eq: "fmt_time_pointer t = at_seconds t"
proof -
  have "zero_time = (- 62135596800) * second" by (simp add: zero_time_def)
  then have "(t - zero_time) div second = t div second + 62135596800"
    using div_mult_self1 [of second t "62135596800"] by (simp add: algebra_simps)
  then show ?thesis by (simp add: fmt_time_pointer_def at_seconds_def unix_def zero_time_def algebra_simps)
qed

text \<open>What \<open>tplFmtTime\<close> leaves behind is what the model of the page says of the state.\<close>

lemma show_host_times:
  "show_host m = (if is_zero (StartedAt m) then m
     else m\<lparr>SucceededAt := snd (tplFmtTime pf (SucceededAt m) human), FailedAt := snd (tplFmtTime pf (FailedAt m) human)\<rparr>)"
  by (simp add: show_host_def tplFmtTime_def Let_def split: option.split)

lemma show_host_started [simp]: "StartedAt (show_host m) = StartedAt m" "m_job (show_host m) = m_job m"
    "ScheduledAt (show_host m) = ScheduledAt m"
  by (simp_all add: show_host_def)

lemma handleIndex_entry: "map_of (a_hosts (handleIndex st)) h = map_option show_host (map_of (a_hosts st) h)"
  by (simp add: handleIndex_def map_of_map)

text \<open>A backup that ended in the second it started in, but not on its first nanosecond.\<close>

definition within_second :: "metrics \<Rightarrow> bool" where
  "within_second m \<longleftrightarrow>
     (case SucceededAt m of Some ok \<Rightarrow> unix ok = unix (StartedAt m) | None \<Rightarrow> False) \<and> StartedAt m mod second \<noteq> 0"

lemma at_seconds_lt_start:
  assumes "unix t \<le> unix s" and "s mod second \<noteq> 0"
  shows "at_seconds t < s"
proof -
  have "unix t * second \<le> unix s * second" using assms(1) by (rule mult_right_mono) simp
  moreover have "s = unix s * second + s mod second" "0 \<le> s mod second" by (simp_all add: unix_def)
  ultimately show ?thesis using assms(2) unfolding at_seconds_def by linarith
qed

lemma show_host_running:
  assumes "Status m = StatusSuccess" and "within_second m"
  shows "Status (show_host m) = StatusRunning"
proof -
  obtain ok where ok: "SucceededAt m = Some ok" "unix ok = unix (StartedAt m)" "StartedAt m mod second \<noteq> 0"
    using assms(2) by (auto simp: within_second_def split: option.splits)
  have nz: "\<not> is_zero (StartedAt m)" and er: "\<forall>er. FailedAt m = Some er \<longrightarrow> er < ok"
    using assms(1) ok(1) by (auto simp: Status_Success finished_by_def)
  have "at_seconds er < StartedAt m" if "FailedAt m = Some er" for er
    using er that ok(2) unix_mono [of er ok] by (intro at_seconds_lt_start [OF _ ok(3)]) auto
  moreover have "at_seconds ok < StartedAt m" using ok by (intro at_seconds_lt_start) simp_all
  ultimately show ?thesis
    using nz ok(1) by (auto simp: Status_Running still_running_def show_host_def fmt_time_pointer_eq)
qed

section \<open>Properties\<close>

definition one_host :: app where
  "one_host = (initial_app (NewTree []))\<lparr>a_hosts := [(''a'', zero_metrics)]\<rparr>"

text \<open>C39: The collector keeps the rules of Prometheus, but not its own. Once described, it gives eight
  samples for each host and one for the version, from the snapshot it took first: every sample
  belongs to an announced description and has a value for each of its labels, and no two samples
  share description and labels. But it counts the hosts of a second snapshot, and panics
  whenever a host was added in between.\<close>

theorem collect_two_snapshots:
  assumes "app_ok st1"
  shows "Collect ver (snd (Describe ver prom_exports)) st1 st2 =
      (if length (a_hosts st1) < length (a_hosts st2) then None
       else Some (concat (map (metrics_of_host (snd (Describe ver prom_exports))) (take (length (a_hosts st2)) (export st1)))
              @ [(version_desc ver, UntypedValue, OfInt 1, [])]))
    \<and> (\<forall>ms. Collect ver (snd (Describe ver prom_exports)) st1 st2 = Some ms \<longrightarrow>
      length ms = 8 * length (a_hosts st2) + 1 \<and> distinct (map (\<lambda>(d, _, _, ls). (d, ls)) ms)
        \<and> (\<forall>(d, _, _, ls)\<in>set ms. d \<in> set (fst (Describe ver prom_exports)) \<and> length ls = length (d_variableLabels d)))"
proof (intro conjI allI impI)
  let ?e = "snd (Describe ver prom_exports)" and ?n = "length (a_hosts st2)"
  let ?h = "take ?n (export st1)"
  let ?all = "concat (map (metrics_of_host ?e) ?h) @ [(version_desc ver, UntypedValue, OfInt 1, [])]"
  show *: "Collect ver ?e st1 st2 = (if length (a_hosts st1) < ?n then None else Some ?all)"
  proof (cases "length (a_hosts st1) < ?n")
    case True
    then show ?thesis using collect_loop_panics [of "length (a_hosts st1)"] by (simp add: Collect_def)
  next
    case False
    then have "map (\<lambda>i. metrics_of_host ?e (export st1 ! i)) [0..<?n] = map (metrics_of_host ?e) ?h"
      by (intro nth_equalityI) simp_all
    then show ?thesis
      using False collect_loop_ok [OF Describe_described, of "[0..<?n]" "export st1"]
      by (simp add: Collect_def)
  qed
  fix ms
  assume "Collect ver ?e st1 st2 = Some ms"
  then have ms: "ms = ?all" and n: "?n \<le> length (a_hosts st1)" using * by (auto split: if_splits)
  have "distinct (map fst ?h)" using export_snapshot [OF assms] by (simp add: take_map [symmetric] distinct_take)
  moreover have d: "distinct (map host_desc ?e)" using distinct_descs [of ver] by (simp add: Describe_prom_exports)
  ultimately have "distinct (map sample_key (concat (map (metrics_of_host ?e) ?h)))" by (intro distinct_host_samples)
  moreover have "(version_desc ver, []) \<notin> set (map sample_key (concat (map (metrics_of_host ?e) ?h)))"
    by (auto simp: metrics_of_host_def sample_key_def)
  ultimately have "distinct (map sample_key ms)" unfolding ms by (simp add: sample_key_def)
  moreover have "length (metrics_of_host ?e hm) = 8" for hm by (simp add: metrics_of_host_def Describe_def prom_exports_def)
  then have "length ms = 8 * ?n + 1" unfolding ms using n by (simp add: length_concat comp_def sum_list_triv)
  moreover have "\<forall>(d, _, _, ls)\<in>set ms. d \<in> set (fst (Describe ver prom_exports)) \<and> length ls = length (d_variableLabels d)"
    unfolding ms by (auto simp: metrics_of_host_def Describe_prom_exports host_desc_def version_desc_def)
  ultimately show "length ms = 8 * ?n + 1" "distinct (map (\<lambda>(d, _, _, ls). (d, ls)) ms)"
      "\<forall>(d, _, _, ls)\<in>set ms. d \<in> set (fst (Describe ver prom_exports)) \<and> length ls = length (d_variableLabels d)"
    by (simp_all add: sample_key_def [abs_def])
qed

lemma collect_two_snapshots_witness:
  "\<exists>ms. Collect ''1.0'' (snd (Describe ''1.0'' prom_exports)) one_host one_host = Some ms \<and> length ms = 9
    \<and> distinct (map (\<lambda>(d, _, _, ls). (d, ls)) ms)"
proof -
  have ok: "app_ok one_host" "length (a_hosts one_host) = 1" by (simp_all add: one_host_def app_ok_def)
  then obtain ms where "Collect ''1.0'' (snd (Describe ''1.0'' prom_exports)) one_host one_host = Some ms"
    using collect_two_snapshots [of one_host "''1.0''" one_host] by simp
  then show ?thesis using collect_two_snapshots [OF ok(1), of "''1.0''" one_host] ok(2) by auto
qed

text \<open>Showing the overview page changes the state: the times of the results are cut to seconds in
  place. A successful backup that ended in the second it started in is shown as running from
  then on.\<close>

theorem page_turns_success_into_running:
  assumes "map_of (a_hosts st) h = Some m" and "Status m = StatusSuccess" and "within_second m"
  shows "\<exists>m'. map_of (a_hosts (handleIndex st)) h = Some m' \<and> Status m' = StatusRunning
    \<and> SucceededAt m' = map_option at_seconds (SucceededAt m)"
  using assms show_host_running [OF assms(2,3)]
  by (auto simp: handleIndex_entry show_host_def fmt_time_pointer_eq [abs_def] Status_Success)

definition quick_metrics :: metrics where
  "quick_metrics = zero_metrics\<lparr>StartedAt := 1600000000 * second + 100, SucceededAt := Some (1600000000 * second + 900)\<rparr>"

lemma quick_metrics_ok: "Status quick_metrics = StatusSuccess" "within_second quick_metrics"
  by (simp_all add: quick_metrics_def zero_metrics_def Status_def is_zero_def zero_time_def within_second_def unix_def)

lemma page_turns_success_into_running_witness:
  "\<exists>m. map_of (a_hosts (handleIndex (example_app quick_metrics))) ''a'' = Some m \<and> Status m = StatusRunning"
  using page_turns_success_into_running [OF example_app_entry quick_metrics_ok] by blast

end
