(* ===== verification/Graylog.thy ===== *)
theory Graylog imports Go_Duration begin

text \<open>
  The package \<open>graylog\<close>: the log hook whose level and endpoint change at run time
  (\<open>graylog/graylog.go\<close>) and the request log (\<open>graylog/mux.go\<close>). The hooks of the Graylog
  library and \<open>logrus.ParseLevel\<close> are parameters: a hook is a number, what is done to it is a
  trace. The mutex makes every operation one step.
\<close>

section \<open>The format of the log\<close>

text \<open>
  The log is formatted for a terminal if its output is one, which an ioctl on the descriptor of
  the standard output tells. The ioctl and the number of its request, which differs between
  the systems, belong to the system library and are parameters.
\<close>

definition isTerminal :: "(int \<Rightarrow> 'request \<Rightarrow> 'termios \<times> 'err option) \<Rightarrow> 'request \<Rightarrow> int \<Rightarrow> bool" where
  "isTerminal IoctlGetTermios ioctlReadTermios stdout_fd =
     (let fd = stdout_fd; (_, err) = IoctlGetTermios fd ioctlReadTermios in err = None)"

record text_formatter =
  FullTimestamp :: bool
  TimestampFormat :: string

text \<open>\<open>time.StampMilli\<close> of the standard library, and \<open>init\<close> on the formatter of logrus.\<close>

definition StampMilli :: string where
  "StampMilli = ''Jan _2 15:04:05.000''"

definition graylog_init :: "bool \<Rightarrow> text_formatter option \<Rightarrow> text_formatter option" where
  "graylog_init terminal formatter =
     (if terminal then Some \<lparr>FullTimestamp = True, TimestampFormat = StampMilli\<rparr> else formatter)"

section \<open>The hook\<close>

text \<open>Levels are the numbers of logrus, from panic (0) to trace (6).\<close>

type_synonym level = nat

datatype hook_event =
    HookNew nat string
  | HookFire nat level
  | HookFlush nat

record middleware =
  gl_name :: string
  gl_endpoint :: string
  gl_level :: level
  gl_hook :: "nat option"

record log_world =
  lw_level :: level
  lw_next :: nat
  lw_events :: "hook_event list"

definition NewMiddleware :: "string \<Rightarrow> middleware" where
  "NewMiddleware componentName = \<lparr>gl_name = componentName, gl_endpoint = [], gl_level = 0, gl_hook = None\<rparr>"

text \<open>logrus starts at its info level.\<close>

definition initial_log :: log_world where
  "initial_log = \<lparr>lw_level = 4, lw_next = 0, lw_events = []\<rparr>"

definition Fire :: "level \<Rightarrow> middleware \<Rightarrow> log_world \<Rightarrow> log_world" where
  "Fire lvl gl w =
     (case gl_hook gl of
        None \<Rightarrow> w
      | Some h \<Rightarrow> if gl_level gl < lvl then w else w\<lparr>lw_events := lw_events w @ [HookFire h lvl]\<rparr>)"

definition Levels :: "level list" where
  "Levels = [0, 1, 2, 3, 4, 5, 6]"

definition Flush :: "middleware \<Rightarrow> log_world \<Rightarrow> log_world" where
  "Flush gl w =
     (case gl_hook gl of None \<Rightarrow> w | Some h \<Rightarrow> w\<lparr>lw_events := lw_events w @ [HookFlush h]\<rparr>)"

definition SetLevel :: "(string \<Rightarrow> level option) \<Rightarrow> string \<Rightarrow> middleware \<Rightarrow> log_world \<Rightarrow> middleware \<times> log_world" where
  "SetLevel parse_level s gl w =
     (case parse_level s of
        Some lvl \<Rightarrow> if lvl \<noteq> gl_level gl then (gl\<lparr>gl_level := lvl\<rparr>, w\<lparr>lw_level := lvl\<rparr>) else (gl, w)
      | None \<Rightarrow> (gl, w))"

definition SetEndpoint :: "string \<Rightarrow> middleware \<Rightarrow> log_world \<Rightarrow> middleware \<times> log_world" where
  "SetEndpoint s gl w =
     (if gl_endpoint gl = s then (gl, w)
      else let gl = (if s = [] then gl\<lparr>gl_hook := None\<rparr> else gl);
               newHook = lw_next w;
               w = w\<lparr>lw_next := Suc newHook, lw_events := lw_events w @ [HookNew newHook s]\<rparr>
           in case gl_hook gl of
                None \<Rightarrow> (gl\<lparr>gl_hook := Some newHook\<rparr>, w)
              | Some oldHook \<Rightarrow>
                  (gl\<lparr>gl_hook := Some newHook\<rparr>, w\<lparr>lw_events := lw_events w @ [HookFlush oldHook]\<rparr>))"

section \<open>Lives of the hook\<close>

datatype gl_op = OpFire level | OpFlush | OpLevel string | OpEndpoint string

definition gl_apply :: "(string \<Rightarrow> level option) \<Rightarrow> gl_op \<Rightarrow> middleware \<times> log_world \<Rightarrow> middleware \<times> log_world" where
  "gl_apply parse_level op s =
     (case s of (gl, w) \<Rightarrow>
        (case op of
           OpFire l \<Rightarrow> (gl, Fire l gl w)
         | OpFlush \<Rightarrow> (gl, Flush gl w)
         | OpLevel x \<Rightarrow> SetLevel parse_level x gl w
         | OpEndpoint e \<Rightarrow> SetEndpoint e gl w))"

definition gl_step :: "middleware \<times> log_world \<Rightarrow> gl_op \<Rightarrow> middleware \<times> log_world \<Rightarrow> bool" where
  "gl_step s op s' \<longleftrightarrow> (\<exists>parse_level. s' = gl_apply parse_level op s)"

definition gl_init :: "middleware \<times> log_world \<Rightarrow> bool" where
  "gl_init s \<longleftrightarrow> (\<exists>n. s = (NewMiddleware n, initial_log))"

text \<open>
  The protocol of the hooks, with the endpoint each was created for: at most one is in use, the last
  one created; the one it replaces is flushed right after, and no message goes to a hook that is
  not in use. The result is the hook in use and the number of hooks created.
\<close>

fun hook_protocol :: "hook_event list \<Rightarrow> (nat \<times> string) option \<Rightarrow> nat \<Rightarrow> ((nat \<times> string) option \<times> nat) option" where
  "hook_protocol [] cur n = Some (cur, n)"
| "hook_protocol (HookNew h e # es) cur n =
     (if h \<noteq> n then None
      else case cur of
             None \<Rightarrow> hook_protocol es (Some (h, e)) (Suc n)
           | Some (old, _) \<Rightarrow>
               (case es of
                  HookFlush old' # es' \<Rightarrow> if old' = old then hook_protocol es' (Some (h, e)) (Suc n) else None
                | _ \<Rightarrow> None))"
| "hook_protocol (HookFire h l # es) cur n = (if map_option fst cur = Some h then hook_protocol es cur n else None)"
| "hook_protocol (HookFlush h # es) cur n = (if map_option fst cur = Some h then hook_protocol es cur n else None)"

text \<open>The endpoints set, the empty one apart, and the hook that goes with the last of them.\<close>

definition endpoints :: "gl_op list \<Rightarrow> string list" where
  "endpoints ops = filter (\<lambda>e. e \<noteq> []) (concat (map (\<lambda>op. case op of OpEndpoint e \<Rightarrow> [e] | _ \<Rightarrow> []) ops))"

definition hook_of :: "string list \<Rightarrow> (nat \<times> string) option" where
  "hook_of es = (if es = [] then None else Some (length es - 1, last es))"

definition gl_state :: "string list \<Rightarrow> middleware \<times> log_world \<Rightarrow> bool" where
  "gl_state es s \<longleftrightarrow>
     gl_endpoint (fst s) = [] \<and> gl_hook (fst s) = map_option fst (hook_of es) \<and> lw_next (snd s) = length es
     \<and> hook_protocol (lw_events (snd s)) None 0 = Some (hook_of es, length es)"

lemma hook_protocol_append:
  "hook_protocol es cur n = Some (c, m) \<Longrightarrow> hook_protocol (es @ fs) cur n = hook_protocol fs c m"
  by (induction es cur n rule: hook_protocol.induct)
    (auto split: if_splits option.splits list.splits hook_event.splits prod.splits)

lemma gl_state_step:
  assumes "gl_state es s" and "gl_step s op s'"
  shows "gl_state (es @ endpoints [op]) s'"
proof -
  obtain gl w where s: "s = (gl, w)" by fastforce
  note app = hook_protocol_append [of "lw_events w" None 0 "hook_of es" "length es"]
  have ok: "gl_endpoint gl = []" "gl_hook gl = map_option fst (hook_of es)" "lw_next w = length es"
    "hook_protocol (lw_events w) None 0 = Some (hook_of es, length es)"
    using assms(1) by (simp_all add: s gl_state_def)
  obtain pl where s': "s' = gl_apply pl op s" using assms(2) by (auto simp: gl_step_def)
  show ?thesis
    unfolding s' s
    by (cases op; cases "es = []")
      (use ok app in \<open>auto simp: gl_apply_def gl_state_def Fire_def Flush_def SetLevel_def SetEndpoint_def Let_def
        endpoints_def hook_of_def split: option.splits\<close>)
qed

lemma gl_state_run:
  "run_of gl_step s ops s' \<Longrightarrow> gl_state es s \<Longrightarrow> gl_state (es @ endpoints ops) s'"
proof (induction arbitrary: es rule: run_of.induct)
  case (run_cons s op s1 ops s')
  have "endpoints (op # ops) = endpoints [op] @ endpoints ops" by (simp add: endpoints_def)
  then show ?case using run_cons.IH [OF gl_state_step [OF run_cons.prems run_cons.hyps(1)]] by simp
qed (simp add: endpoints_def)

definition gl_ok :: "middleware \<times> log_world \<Rightarrow> bool" where
  "gl_ok s \<longleftrightarrow> (\<exists>es. gl_state es s)"

lemma gl_state_init: "gl_state [] (NewMiddleware n, initial_log)"
  by (simp add: gl_state_def NewMiddleware_def initial_log_def hook_of_def)

interpretation gl_life: invariant_of gl_init gl_step gl_ok
  by (unfold_locales) (use gl_state_init gl_state_step in \<open>fastforce simp: gl_init_def gl_ok_def\<close>)+

section \<open>The request log\<close>

text \<open>\<open>net.SplitHostPort\<close>, of which only the host is used; an error gives the empty string.\<close>

definition split_host_port :: "string \<Rightarrow> string" where
  "split_host_port hp =
     (if CHR '':'' \<notin> set hp then []
      else let port_rev = takeWhile (\<lambda>c. c \<noteq> CHR '':'') (rev hp);
               before = take (length hp - length port_rev - 1) hp
           in if hd hp = CHR ''['' then
                (let inner = takeWhile (\<lambda>c. c \<noteq> CHR '']'') (tl hp);
                     rest = drop (length inner + 2) hp
                 in if CHR '']'' \<notin> set hp then []
                    else if rest = [] \<or> hd rest \<noteq> CHR '':'' \<or> CHR '':'' \<in> set (tl rest) then []
                    else if CHR ''['' \<in> set (tl hp) \<or> CHR '']'' \<in> set rest then []
                    else inner)
              else if CHR '':'' \<in> set before then []
              else if CHR ''['' \<in> set hp \<or> CHR '']'' \<in> set hp then []
              else before)"

text \<open>\<open>strings.Split(ip, ", ")[0]\<close>.\<close>

fun before_comma :: "string \<Rightarrow> string" where
  "before_comma [] = []"
| "before_comma (c # cs) =
     (if c = CHR '','' \<and> cs \<noteq> [] \<and> hd cs = CHR '' '' then [] else c # before_comma cs)"

text \<open>A request: its peer, the values of its headers (empty when missing), method and URI.\<close>

record request =
  RemoteAddr :: string
  Header :: "string \<Rightarrow> string"
  Method :: string
  RequestURI :: string

definition realIP :: "request \<Rightarrow> string" where
  "realIP req =
     (if Header req ''X-Forwarded-For'' \<noteq> [] then before_comma (Header req ''X-Forwarded-For'')
      else if Header req ''X-Real-IP'' \<noteq> [] then Header req ''X-Real-IP''
      else split_host_port (RemoteAddr req))"

text \<open>What a handler does with its response; \<open>statusCapture\<close> keeps the last status.\<close>

datatype response_op = WriteHeader int | WriteBody string

record status_capture =
  sc_ops :: "response_op list"
  statusCode :: int

fun capture_op :: "response_op \<Rightarrow> status_capture \<Rightarrow> status_capture" where
  "capture_op (WriteHeader code) lw = lw\<lparr>statusCode := code, sc_ops := sc_ops lw @ [WriteHeader code]\<rparr>"
| "capture_op (WriteBody b) lw = lw\<lparr>sc_ops := sc_ops lw @ [WriteBody b]\<rparr>"

text \<open>The fields and the message logged for a request the handler answers with \<open>ops\<close>.\<close>

definition log_request ::
  "request \<Rightarrow> response_op list \<Rightarrow> duration \<Rightarrow> (string \<times> string) list \<times> string" where
  "log_request req ops dur =
     (let lw = fold capture_op ops \<lparr>sc_ops = [], statusCode = 200\<rparr>
      in ((if Header req ''X-Request-Id'' \<noteq> [] then [(''request-id'', Header req ''X-Request-Id'')] else [])
          @ (if realIP req \<noteq> [] then [(''remote'', realIP req)] else [])
          @ [(''status'', int_str (statusCode lw)), (''dur'', duration_String dur)],
          Method req @ '' '' @ RequestURI req))"

lemma capture_op_simps:
  "sc_ops (capture_op r lw) = sc_ops lw @ [r]"
  "statusCode (capture_op r lw) = (case r of WriteHeader c \<Rightarrow> c | _ \<Rightarrow> statusCode lw)"
  by (cases r; simp)+

lemma capture_passes:
  "sc_ops (fold capture_op ops lw) = sc_ops lw @ ops"
  by (induction ops arbitrary: lw) (simp_all add: capture_op_simps)

lemma capture_status:
  "statusCode (fold capture_op ops lw) = last (statusCode lw # concat (map (\<lambda>r. case r of WriteHeader c \<Rightarrow> [c] | _ \<Rightarrow> []) ops))"
  by (induction ops arbitrary: lw) (simp_all add: capture_op_simps split: response_op.split)

section \<open>Properties\<close>

text \<open>C40: Whatever is logged, flushed and set, messages go to one hook at most: that of the non-empty endpoint
  set last. A hook is created for each non-empty endpoint that is set, the one it replaces is flushed right
  after and gets nothing more. Since the endpoint is never stored, setting the same endpoint again counts
  as well, and the empty endpoint, meant to disable the hook, changes nothing.\<close>

theorem endpoint_hooks:
  assumes "run_of gl_step (NewMiddleware name, initial_log) ops (gl, w)"
  shows "hook_protocol (lw_events w) None 0 =
      Some (if endpoints ops = [] then None else Some (length (endpoints ops) - 1, last (endpoints ops)), length (endpoints ops))
    \<and> gl_hook gl = (if endpoints ops = [] then None else Some (length (endpoints ops) - 1))
    \<and> SetEndpoint [] gl w = (gl, w)"
  using gl_state_run [OF assms gl_state_init] by (simp add: gl_state_def hook_of_def SetEndpoint_def)

lemma endpoint_hooks_witness:
  "\<exists>gl w. run_of gl_step (NewMiddleware ''zackup'', initial_log) [OpEndpoint ''h:1'', OpEndpoint ''h:1'', OpEndpoint []] (gl, w)
    \<and> hook_protocol (lw_events w) None 0 = Some (Some (1, ''h:1''), 2)"
proof -
  let ?ops = "[OpEndpoint ''h:1'', OpEndpoint ''h:1'', OpEndpoint []]"
  have "\<exists>s'. run_of gl_step s ops s'" for s ops
  proof (induction ops arbitrary: s)
    case (Cons op ops)
    have "gl_step s op (gl_apply (\<lambda>_. None) op s)" by (auto simp: gl_step_def)
    then show ?case using Cons.IH run_cons [where step = gl_step] by blast
  qed (blast intro: run_nil)
  then obtain s where r: "run_of gl_step (NewMiddleware ''zackup'', initial_log) ?ops s" by blast
  then have r: "run_of gl_step (NewMiddleware ''zackup'', initial_log) ?ops (fst s, snd s)" by simp
  have "endpoints ?ops = [''h:1'', ''h:1'']" by (simp add: endpoints_def)
  then have "hook_protocol (lw_events (snd s)) None 0 = Some (Some (1, ''h:1''), 2)"
    using endpoint_hooks [OF r] by simp
  then show ?thesis using r by blast
qed

text \<open>The request log leaves the response as it is, and logs the status the handler wrote last, 200
  if it wrote none.\<close>

theorem request_log_transparent:
  "sc_ops (fold capture_op ops \<lparr>sc_ops = [], statusCode = 200\<rparr>) = ops
   \<and> snd (log_request req ops dur) = Method req @ '' '' @ RequestURI req
   \<and> map_of (fst (log_request req ops dur)) ''status'' =
       Some (int_str (last (200 # concat (map (\<lambda>r. case r of WriteHeader c \<Rightarrow> [c] | _ \<Rightarrow> []) ops))))
   \<and> map_of (fst (log_request req ops dur)) ''remote'' = (if realIP req = [] then None else Some (realIP req))"
  by (simp add: log_request_def capture_passes capture_status Let_def)

end
