(* ===== verification/Cmd.thy ===== *)
theory Cmd imports App_Web Graylog Go_Duration begin

text \<open>
  The package \<open>cmd\<close>: what happens before every command (\<open>initConfig\<close> in \<open>cmd/root.go\<close>), and
  the commands \<open>run\<close> and \<open>status\<close>. Parsing the command line, printing of Go values and the
  formats of sizes, ratios and local times are parameters.
\<close>

section \<open>Before every command\<close>

record cmd_state =
  c_verbosity :: int
  c_treeRoot :: string
  c_glEndpoint :: string
  c_runParallel :: int
  c_tree :: tree
  c_queue :: queue
  c_gl :: middleware
  c_log :: log_world
  c_app :: app
  c_validArgs :: "string list"

text \<open>The variables of the package as the flags' defaults leave them.\<close>

definition initial_cmd :: "string \<Rightarrow> cmd_state" where
  "initial_cmd dir =
     \<lparr>c_verbosity = 0, c_treeRoot = dir, c_glEndpoint = [], c_runParallel = 0, c_tree = NewTree [],
      c_queue = NewQueue, c_gl = NewMiddleware ''zackup'', c_log = initial_log, c_app = initial_app (NewTree []),
      c_validArgs = []\<rparr>"

text \<open>The outside of \<open>initConfig\<close>; a variable of the environment that is not set is empty.\<close>

record cmd_env =
  ce_conf :: env
  ce_getenv :: "string \<Rightarrow> string"
  ce_level :: "string \<Rightarrow> level option"
  ce_float :: "string \<Rightarrow> (string, float64) outcome"
  ce_zfs :: "argv \<Rightarrow> string \<times> bool"
  ce_rnd :: "string \<Rightarrow> int \<Rightarrow> int"
  ce_now :: time

datatype init_end = InitDone | InitTreeFatal conf_error | InitStateFatal scan_error | InitPanic

definition init_logging :: "cmd_env \<Rightarrow> cmd_state \<Rightarrow> cmd_state" where
  "init_logging ce st =
     (let (gl, w) = (if c_glEndpoint st \<noteq> [] then SetEndpoint (c_glEndpoint st) (c_gl st) (c_log st)
                     else (c_gl st, c_log st));
          (gl, w) = (if c_verbosity st = 2 then SetLevel (ce_level ce) ''trace'' gl w
                     else if c_verbosity st = 1 then SetLevel (ce_level ce) ''debug'' gl w else (gl, w))
      in st\<lparr>c_gl := gl, c_log := w\<rparr>)"

definition init_root :: "cmd_env \<Rightarrow> cmd_state \<Rightarrow> cmd_state" where
  "init_root ce st =
     (if c_treeRoot st = [] \<and> ce_getenv ce ''ZACKUP_ROOT'' \<noteq> []
      then st\<lparr>c_treeRoot := ce_getenv ce ''ZACKUP_ROOT''\<rparr> else st)"

text \<open>What is set up from the service configuration, where there is one.\<close>

definition init_service :: "cmd_env \<Rightarrow> service_config \<Rightarrow> cmd_state \<Rightarrow> init_end \<times> cmd_state" where
  "init_service ce svc st =
     (let st = (if c_verbosity st = 0
                then (let (gl, w) = SetLevel (ce_level ce) (LogLevel svc) (c_gl st) (c_log st)
                      in st\<lparr>c_gl := gl, c_log := w\<rparr>)
                else st);
          st = st\<lparr>c_queue := Resize (uint (Parallel svc)) (c_queue st)\<rparr>
      in case InitializeState (ce_float ce) (ce_zfs ce) (ce_rnd ce) (ce_now ce) (c_tree st) (c_app st) of
           None \<Rightarrow> (InitPanic, st)
         | Some (a, Some err) \<Rightarrow> (InitStateFatal err, st\<lparr>c_app := a\<rparr>)
         | Some (a, None) \<Rightarrow> (InitDone, st\<lparr>c_app := a\<rparr>))"

definition initConfig :: "cmd_env \<Rightarrow> cmd_state \<Rightarrow> init_end \<times> cmd_state" where
  "initConfig ce st =
     (let st = init_root ce (init_logging ce st)
      in case SetRoot (ce_conf ce) (c_treeRoot st) (c_tree st) of
           (t, Some err) \<Rightarrow> (InitTreeFatal err, st\<lparr>c_tree := t\<rparr>)
         | (t, None) \<Rightarrow>
             (let st = st\<lparr>c_tree := t, c_validArgs := Hosts t\<rparr>
              in case Service t of
                   None \<Rightarrow> (InitDone, st)
                 | Some svc \<Rightarrow> init_service ce svc st))"

text \<open>\<open>Execute\<close>: the hook is flushed on both ways out; the exit status.\<close>

definition Execute :: "string option \<Rightarrow> middleware \<Rightarrow> log_world \<Rightarrow> log_world \<times> int" where
  "Execute err gl w = (Flush gl w, case err of Some _ \<Rightarrow> 1 | None \<Rightarrow> 0)"

section \<open>The command \<open>run\<close>\<close>

definition run_resize :: "int \<Rightarrow> queue \<Rightarrow> queue" where
  "run_resize runParallel q = (if 0 < runParallel then Resize runParallel q else q)"

text \<open>The jobs enqueued, in order; unknown hosts are skipped.\<close>

definition run_jobs :: "tree \<Rightarrow> string list \<Rightarrow> job list" where
  "run_jobs t args = filter (\<lambda>j. j \<noteq> None) (map (tree_Host t) (if args = [] then Hosts t else args))"

text \<open>The command has run when all jobs were submitted and \<open>Wait\<close> has returned.\<close>

definition run_command :: "tree \<Rightarrow> int \<Rightarrow> string list \<Rightarrow> queue \<Rightarrow> queue \<Rightarrow> bool" where
  "run_command t par args q q' \<longleftrightarrow>
     submits Enqueue_returned Enqueue queue_evolves (run_resize par q) (run_jobs t args) q' \<and> Wait_returns q'"

section \<open>The command \<open>status\<close>\<close>

record status_fmt =
  sf_time :: "time \<Rightarrow> string"
  sf_bytes :: "64 word \<Rightarrow> string"
  sf_ratio :: "float64 \<Rightarrow> string"
  sf_job :: "job_config option \<Rightarrow> string"

definition statusTime :: "status_fmt \<Rightarrow> time option \<Rightarrow> string" where
  "statusTime sf t = (case t of None \<Rightarrow> ''-'' | Some t \<Rightarrow> sf_time sf (fmt_time_pointer t))"

definition statusDur :: "duration \<Rightarrow> string" where
  "statusDur dur = (if dur \<le> 0 then ''-'' else duration_String (trunc_dur dur millisecond))"

definition colorize :: "metric_status \<Rightarrow> string" where
  "colorize s =
     (let color = (case s of
        StatusUnknown \<Rightarrow> ''1;30'' | StatusPrimed \<Rightarrow> ''0;36'' | StatusSuccess \<Rightarrow> ''1;32''
      | StatusFailed \<Rightarrow> ''1;31'' | StatusRunning \<Rightarrow> ''0;34'')
      in if color \<noteq> [] then [CHR 0x1B] @ ''['' @ color @ ''m'' @ status_String s @ [CHR 0x1B] @ ''[0m''
         else status_String s)"

definition wanted :: "string list \<Rightarrow> string \<Rightarrow> bool" where
  "wanted args h \<longleftrightarrow> args = [] \<or> h \<in> set args"

definition longest_name :: "string list \<Rightarrow> (string \<times> metrics) list \<Rightarrow> nat" where
  "longest_name args exported =
     fold (\<lambda>hm l. if wanted args (fst hm) \<and> l < length (fst hm) then length (fst hm) else l) exported 0"

text \<open>\<open>fmt\<close> pads to a number of runes: the bytes of the first rune of a string in UTF-8, where a byte
  that starts no valid rune counts as one.\<close>

definition cont_in :: "nat \<Rightarrow> nat \<Rightarrow> string \<Rightarrow> nat \<Rightarrow> bool" where
  "cont_in lo hi s i \<longleftrightarrow> i < length s \<and> lo \<le> of_char (s ! i) \<and> (of_char (s ! i) :: nat) \<le> hi"

definition rune_size :: "string \<Rightarrow> nat" where
  "rune_size s =
     (let b = (case s of [] \<Rightarrow> 0 | c # _ \<Rightarrow> of_char c) :: nat; more = cont_in 0x80 0xBF s
      in if 0xC2 \<le> b \<and> b \<le> 0xDF \<and> more 1 then 2
         else if 0xE0 \<le> b \<and> b \<le> 0xEF \<and> more 2
           \<and> cont_in (if b = 0xE0 then 0xA0 else 0x80) (if b = 0xED then 0x9F else 0xBF) s 1 then 3
         else if 0xF0 \<le> b \<and> b \<le> 0xF4 \<and> more 2 \<and> more 3
           \<and> cont_in (if b = 0xF0 then 0x90 else 0x80) (if b = 0xF4 then 0x8F else 0xBF) s 1 then 4
         else 1)"

lemma rune_size_pos [simp]: "0 < rune_size s"
  by (simp add: rune_size_def Let_def)

function rune_count :: "string \<Rightarrow> nat" where
  "rune_count s = (if s = [] then 0 else Suc (rune_count (drop (rune_size s) s)))"
  by pat_completeness auto

termination by (relation "measure length") auto

declare rune_count.simps [simp del]

definition pad_right :: "nat \<Rightarrow> string \<Rightarrow> string" where
  "pad_right n s = s @ replicate (n - rune_count s) (CHR '' '')"

text \<open>The lines for one host.\<close>

definition status_block :: "status_fmt \<Rightarrow> int \<Rightarrow> tree \<Rightarrow> nat \<Rightarrow> string \<times> metrics \<Rightarrow> string list" where
  "status_block sf verbosity t longest hm =
     (let (host, m) = hm; s = Status m; ws = replicate longest (CHR '' '');
          b = sf_bytes sf
      in [pad_right longest host @ ''  status            '' @ colorize s]
         @ (if s \<noteq> StatusPrimed then
              (if s = StatusUnknown \<or> s = StatusRunning
               then [ws @ ''  started           '' @ statusTime sf (Some (StartedAt m))] else [])
              @ (if s = StatusUnknown \<or> s = StatusSuccess
                 then [ws @ ''  succeeded at      '' @ statusTime sf (SucceededAt m) @ '' (took ''
                       @ statusDur (SuccessDuration m) @ '')''] else [])
              @ (if s = StatusUnknown \<or> s = StatusFailed
                 then [ws @ ''  failed at         '' @ statusTime sf (FailedAt m) @ '' (took ''
                       @ statusDur (FailureDuration m) @ '')''] else [])
              @ [ws @ ''  space used        '' @ b (SpaceUsedTotal m) @ '' ('' @ b (SpaceUsedBySnapshots m)
                  @ '' snapshots, '' @ b (SpaceUsedByDataset m) @ '' dataset, '' @ b (SpaceUsedByChildren m)
                  @ '' children, '' @ b (SpaceUsedByRefReservation m) @ '' refreservation)'',
                 ws @ ''  compression       '' @ sf_ratio sf (CompressionFactor m) @ ''x'']
            else [])
         @ (if 0 < verbosity then [sf_job sf (tree_Host t host)] else []))"

text \<open>The output for a verbosity of at most two; above, the tree is printed instead.\<close>

definition status_lines :: "status_fmt \<Rightarrow> int \<Rightarrow> tree \<Rightarrow> string list \<Rightarrow> (string \<times> metrics) list \<Rightarrow> string list" where
  "status_lines sf verbosity t args exported =
     concat (map (\<lambda>hm. if wanted args (fst hm) then status_block sf verbosity t (longest_name args exported) hm else [])
       exported)"

section \<open>What the set-up leaves\<close>

lemma load_loop_frame:
  "load_loop pf zfs n hs st = (st', err) \<Longrightarrow> a_tree st' = a_tree st \<and> v_RootDataset st' = v_RootDataset st"
proof (induction hs arbitrary: st)
  case (Cons x hs)
  obtain st1 e1 where l: "loadHost pf zfs x (load_host_entry x (n x) st) = (st1, e1)" by fastforce
  show ?case using Cons loadHost_frame [OF l] l by (cases e1) auto
qed simp

lemma init_service_Done:
  assumes "init_service ce svc st = (InitDone, st')" and "Service (c_tree st) = Some svc"
  shows "c_tree st' = c_tree st" "c_validArgs st' = c_validArgs st" "c_queue st' = Resize (uint (Parallel svc)) (c_queue st)"
    "a_tree (c_app st') = c_tree st" "v_RootDataset (c_app st') = RootDataset svc"
    "tree_Host (c_tree st) h = Some j \<Longrightarrow> \<exists>m. map_of (a_hosts (c_app st')) h = Some m \<and> m_job m = Some j"
proof -
  let ?a = "(c_app st)\<lparr>a_hosts := [], a_tree := c_tree st, v_RootDataset := RootDataset svc, v_MountBase := MountBase svc,
     v_RSyncPath := (if RSyncPath svc \<noteq> [] then RSyncPath svc else v_RSyncPath (c_app st)),
     v_SSHPath := (if SSHPath svc \<noteq> [] then SSHPath svc else v_SSHPath (c_app st))\<rparr>"
  let ?n = "\<lambda>h. NextSchedule (ce_rnd ce h) svc (ce_now ce)"
  obtain a where l: "load_loop (ce_float ce) (ce_zfs ce) ?n (Hosts (c_tree st)) ?a = (a, None)"
    and st': "c_tree st' = c_tree st" "c_validArgs st' = c_validArgs st" "c_app st' = a"
      "c_queue st' = Resize (uint (Parallel svc)) (c_queue st)"
    using assms by (auto simp: init_service_def InitializeState_def load_def Let_def split: prod.splits option.splits if_splits)
  show "c_tree st' = c_tree st" "c_validArgs st' = c_validArgs st" "c_queue st' = Resize (uint (Parallel svc)) (c_queue st)"
    using st' by simp_all
  show "a_tree (c_app st') = c_tree st" "v_RootDataset (c_app st') = RootDataset svc"
    using load_loop_frame [OF l] st'(3) by simp_all
  assume j: "tree_Host (c_tree st) h = Some j"
  then have "h \<in> set (Hosts (c_tree st))" by (simp add: Hosts_known)
  from load_loop_covers [OF l this] show "\<exists>m. map_of (a_hosts (c_app st')) h = Some m \<and> m_job m = Some j"
    using j st'(3) by simp
qed

lemma init_prefix [simp]:
  "c_tree (init_root ce (init_logging ce st)) = c_tree st" "c_queue (init_root ce (init_logging ce st)) = c_queue st"
  by (simp_all add: init_root_def init_logging_def Let_def split: prod.split)

lemma init_service_not_panic:
  assumes "Service (c_tree st) = Some svc"
  shows "fst (init_service ce svc st) \<noteq> InitPanic"
  using assms by (auto simp: init_service_def InitializeState_def Let_def split: prod.split option.split)

lemma initConfig_getenv:
  assumes "c_treeRoot st \<noteq> []"
  shows "initConfig (ce\<lparr>ce_getenv := g\<rparr>) st = initConfig ce st"
proof -
  have l: "init_logging (ce\<lparr>ce_getenv := g\<rparr>) s = init_logging ce s" "c_treeRoot (init_logging ce s) = c_treeRoot s" for s
    by (simp_all add: init_logging_def Let_def split: prod.split)
  have s: "init_service (ce\<lparr>ce_getenv := g\<rparr>) svc s = init_service ce svc s" for svc s
    by (simp add: init_service_def)
  have r: "init_root ce' (init_logging ce st) = init_logging ce st" for ce'
    using assms l(2) by (simp add: init_root_def)
  show ?thesis by (simp add: initConfig_def l(1) s r Let_def cong: option.case_cong prod.case_cong)
qed

lemma rune_count_ascii: "list_all (\<lambda>c. (of_char c :: nat) < 0x80) s \<Longrightarrow> rune_count s = length s"
proof (induction s)
  case (Cons c s)
  have "rune_size (c # s) = 1" using Cons.prems by (simp add: rune_size_def)
  then show ?case using Cons by (simp add: rune_count.simps [of "c # s"])
qed (simp add: rune_count.simps)

lemma run_jobs_eq:
  "run_jobs t args = map (tree_Host t) (filter (\<lambda>h. h \<in> set (Hosts t)) (if args = [] then Hosts t else args))"
  by (simp add: run_jobs_def filter_map comp_def Hosts_known)

section \<open>A configuration directory with one host\<close>

lemma load_loop_no_zfs: "snd (load_loop pf (\<lambda>_. (out, True)) n hs st) = None"
  by (induction hs arbitrary: st) (simp_all add: loadHost_def Let_def)

lemma init_service_no_zfs:
  assumes "ce_zfs ce = (\<lambda>_. (out, True))" and "Service (c_tree st) = Some svc'"
  shows "fst (init_service ce svc st) = InitDone"
proof -
  have "snd (load (ce_float ce) (ce_zfs ce) (ce_rnd ce) (ce_now ce) svc' a) = None" for a
    by (simp add: load_def assms(1) load_loop_no_zfs)
  then have "load (ce_float ce) (ce_zfs ce) (ce_rnd ce) (ce_now ce) svc' a = (b, e) \<Longrightarrow> e = None" for a b e
    by (metis snd_conv)
  then show ?thesis using assms(2)
    by (auto simp: init_service_def InitializeState_def Let_def split: prod.split option.split)
qed

definition example_cmd_env :: cmd_env where
  "example_cmd_env =
     \<lparr>ce_conf = example_env [''/z/hosts/a/config.yml''] [], ce_getenv = (\<lambda>_. []), ce_level = (\<lambda>_. None),
      ce_float = (\<lambda>_. Err []), ce_zfs = (\<lambda>_. ([], True)), ce_rnd = (\<lambda>_ _. 0), ce_now = 0\<rparr>"

lemma example_reload:
  "\<exists>t. reload (example_env [''/z/hosts/a/config.yml''] []) (NewTree ''/z'') = (t, None)
    \<and> Service t = Some zero_service \<and> set (Hosts t) = {''a''}"
proof -
  let ?e = "example_env [''/z/hosts/a/config.yml''] []" and ?h = "[(''a'', new_job ''a'')]"
  have A: "readGlob ?e ''/z/hosts/*/config.yml'' pathToHostVariantA [] = (?h, None)"
    "readGlob ?e ''/z/hosts/*.yml'' pathToHostVariantB ?h = (?h, None)"
    by (simp_all add: readGlob_def readHostConfig_def example_env_def example_paths new_job_def)
  have H: "readHooks ?e ''/z'' ?h = (?h, None)"
    by (simp add: readHooks_def readFiles_def example_env_def example_paths new_job_def)
  have r: "snd (reload ?e (NewTree ''/z'')) = None" "Service (fst (reload ?e (NewTree ''/z''))) = Some zero_service"
    by (simp_all add: reload_def reload_hosts_def A H decodeYaml_def NewTree_def example_paths Service_def)
      (simp_all add: example_env_def)
  then have r': "reload ?e (NewTree ''/z'') = (fst (reload ?e (NewTree ''/z'')), None)" by (metis prod.collapse)
  have "set (Hosts (fst (reload ?e (NewTree ''/z'')))) = {''a''}"
    by (rule reload_found [OF example_env_ok r'], simp add: NewTree_def)
      (auto simp: variantA_def variantB_def example_paths NewTree_def, auto simp: example_env_def example_paths)
  then show ?thesis using r(2) r' by blast
qed

lemma singleton_list: "distinct xs \<Longrightarrow> set xs = {x} \<Longrightarrow> xs = [x]"
proof (cases xs)
  case (Cons y ys)
  then show "distinct xs \<Longrightarrow> set xs = {x} \<Longrightarrow> xs = [x]" by (cases ys) auto
qed simp

lemma initConfig_no_zfs:
  assumes "reload (ce_conf ce) (NewTree ''/z'') = (t, None)" and "Service t = Some svc" and "ce_zfs ce = (\<lambda>_. (out, True))"
  shows "\<exists>st. initConfig ce (initial_cmd ''/z'') = (InitDone, st) \<and> c_tree st = t"
proof -
  let ?s = "initial_cmd ''/z''"
  have "(NewTree [])\<lparr>t_root := ''/z''\<rparr> = NewTree ''/z''" "t_root (NewTree []) \<noteq> ''/z''" by (simp_all add: NewTree_def)
  then have root: "SetRoot (ce_conf ce) ''/z'' (NewTree []) = (t, None)"
    using assms(1) unfolding SetRoot_def by (simp only: if_True not_False_eq_True)
  have quiet: "init_root ce (init_logging ce ?s) = ?s"
    by (simp add: init_root_def init_logging_def initial_cmd_def)
  let ?s1 = "?s\<lparr>c_tree := t, c_validArgs := Hosts t\<rparr>"
  have t: "Service (c_tree ?s1) = Some svc" using assms(2) by simp
  have "initConfig ce ?s = init_service ce svc ?s1"
    unfolding initConfig_def Let_def quiet using root assms(2) by (simp add: initial_cmd_def)
  moreover have "fst (init_service ce svc ?s1) = InitDone" by (rule init_service_no_zfs [OF assms(3) t])
  ultimately have "initConfig ce ?s = (InitDone, snd (initConfig ce ?s))"
      "init_service ce svc ?s1 = (InitDone, snd (initConfig ce ?s))"
    by (metis prod.collapse)+
  then show ?thesis using init_service_Done(1) [of ce svc ?s1, OF _ t] by auto
qed

lemma example_init:
  "\<exists>st. initConfig example_cmd_env (initial_cmd ''/z'') = (InitDone, st) \<and> Service (c_tree st) = Some zero_service
    \<and> Hosts (c_tree st) = [''a'']"
proof -
  let ?e = "example_env [''/z/hosts/a/config.yml''] []"
  obtain t where t: "reload ?e (NewTree ''/z'') = (t, None)" "Service t = Some zero_service" "set (Hosts t) = {''a''}"
    using example_reload by blast
  have "tree_ok t" using reload_ok [OF example_env_ok NewTree_ok t(1)] .
  then have "Hosts t = [''a'']" using singleton_list [OF zackup_tree.hosts_distinct t(3)] by blast
  then show ?thesis
    using initConfig_no_zfs [of example_cmd_env t zero_service "[]"] t by (auto simp: example_cmd_env_def)
qed

lemma initConfig_after:
  assumes "initConfig ce st = (InitDone, st')" and "Service (c_tree st') = Some svc"
  shows "c_validArgs st' = Hosts (c_tree st')" "c_queue st' = Resize (uint (Parallel svc)) (c_queue st)"
    "a_tree (c_app st') = c_tree st'" "v_RootDataset (c_app st') = RootDataset svc"
    "tree_Host (c_tree st') h = Some j \<longrightarrow> (\<exists>m. map_of (a_hosts (c_app st')) h = Some m \<and> m_job m = Some j)"
proof -
  let ?s = "init_root ce (init_logging ce st)"
  obtain t where t: "SetRoot (ce_conf ce) (c_treeRoot ?s) (c_tree ?s) = (t, None)"
    using assms(1) by (auto simp: initConfig_def Let_def split: prod.splits option.splits)
  let ?s1 = "?s\<lparr>c_tree := t, c_validArgs := Hosts t\<rparr>"
  have i: "(case Service t of None \<Rightarrow> (InitDone, ?s1) | Some svc \<Rightarrow> init_service ce svc ?s1) = (InitDone, st')"
    using assms(1) t by (simp add: initConfig_def Let_def)
  obtain svc' where s: "Service (c_tree ?s1) = Some svc'" "init_service ce svc' ?s1 = (InitDone, st')"
    using i assms(2) by (cases "Service t") auto
  note d = init_service_Done [OF s(2,1)]
  have "svc' = svc" using d(1) s(1) assms(2) by simp
  then show "c_validArgs st' = Hosts (c_tree st')" "c_queue st' = Resize (uint (Parallel svc)) (c_queue st)"
    "a_tree (c_app st') = c_tree st'" "v_RootDataset (c_app st') = RootDataset svc"
    "tree_Host (c_tree st') h = Some j \<longrightarrow> (\<exists>m. map_of (a_hosts (c_app st')) h = Some m \<and> m_job m = Some j)"
    using d(1-5) d(6) [of h j] by simp_all
qed

definition example_tree :: tree where
  "example_tree = (NewTree ''/z'')\<lparr>t_hosts := [(''a'', new_job ''a'')]\<rparr>"

section \<open>Properties\<close>

text \<open>C17: When the set-up gets through, the commands accept exactly the hosts of the tree, the queue was
  resized to the configured number of workers, the state belongs to the tree just read, its
  datasets lie below the configured root, and every host of the tree has an entry with its job.\<close>

theorem initConfig_done:
  assumes "initConfig ce st = (InitDone, st')" and "Service (c_tree st') = Some svc"
  shows "c_validArgs st' = Hosts (c_tree st')
    \<and> c_queue st' = Resize (uint (Parallel svc)) (c_queue st)
    \<and> a_tree (c_app st') = c_tree st' \<and> v_RootDataset (c_app st') = RootDataset svc
    \<and> (tree_Host (c_tree st') h = Some j \<longrightarrow> (\<exists>m. map_of (a_hosts (c_app st')) h = Some m \<and> m_job m = Some j))"
  using initConfig_after [OF assms] by simp

lemma initConfig_done_witness:
  "\<exists>st m. initConfig example_cmd_env (initial_cmd ''/z'') = (InitDone, st) \<and> c_validArgs st = [''a'']
    \<and> c_queue st = Resize 0 NewQueue \<and> map_of (a_hosts (c_app st)) ''a'' = Some m"
proof -
  obtain st where st: "initConfig example_cmd_env (initial_cmd ''/z'') = (InitDone, st)"
      "Service (c_tree st) = Some zero_service" "Hosts (c_tree st) = [''a'']"
    using example_init by blast
  have "''a'' \<in> set (Hosts (c_tree st))" using st(3) by simp
  then obtain j where "tree_Host (c_tree st) ''a'' = Some j" using Hosts_known by blast
  moreover have "c_queue (initial_cmd ''/z'') = NewQueue" by (simp add: initial_cmd_def)
  ultimately show ?thesis
    using initConfig_done [OF st(1,2), of "''a''" j] st by (auto simp: zero_service_def)
qed

text \<open>The set-up never panics: the state is initialised only from a tree that has a service
  configuration, which every directory that could be read has.\<close>

theorem initConfig_no_panic:
  "fst (initConfig ce st) \<noteq> InitPanic"
  using init_service_not_panic
  by (auto simp: initConfig_def Let_def split: prod.split option.split)

text \<open>The environment variable for the directory has no effect on a program started without the flag:
  the flag's default is never empty.\<close>

theorem env_root_ignored:
  "initConfig (ce\<lparr>ce_getenv := g\<rparr>) (initial_cmd DefaultRoot_linux) = initConfig ce (initial_cmd DefaultRoot_linux)
   \<and> initConfig (ce\<lparr>ce_getenv := g\<rparr>) (initial_cmd DefaultRoot_freebsd) = initConfig ce (initial_cmd DefaultRoot_freebsd)"
  by (intro conjI initConfig_getenv) (simp_all add: initial_cmd_def DefaultRoot_linux_def DefaultRoot_freebsd_def)

text \<open>C22: When the command \<open>run\<close> returns, it has run a backup for each known host among its arguments, as
  often as it was named, or one for every host of the tree if none was named, and nothing else.\<close>

theorem run_backs_up_hosts:
  assumes "reachable queue_init queue_step q" and "run_command t par args q q'"
  shows "mset (q_finished q') = mset (q_accepted q)
    + mset (map (tree_Host t) (filter (\<lambda>h. h \<in> set (Hosts t)) (if args = [] then Hosts t else args)))"
proof -
  have "queue_ok q" using queue_life.inv_reachable [OF assms(1)] .
  then have ok: "queue_ok (run_resize par q)" using queue_ok_step [OF _ step_resize] by (simp add: run_resize_def)
  have acc: "q_accepted (run_resize par q) = q_accepted q" by (simp add: run_resize_def Resize_def Let_def)
  have "submits Enqueue_returned Enqueue queue_evolves (run_resize par q) (run_jobs t args) q'" "Wait_returns q'"
    using assms(2) by (simp_all add: run_command_def)
  from zackup_queue.submits_finished [OF this(1) ok this(2)]
  show ?thesis unfolding acc run_jobs_eq .
qed

lemma run_backs_up_hosts_witness:
  "\<exists>q j. tree_Host example_tree ''a'' = Some j \<and> mset (q_finished q) = {#Some j#}
    \<and> run_command example_tree 0 [] NewQueue q"
proof -
  let ?j = "tree_Host example_tree ''a''"
  let ?q1 = "Enqueue ?j NewQueue"
  let ?q2 = "?q1\<lparr>q_blocked := [], q_jobs := [?j]\<rparr>"
  let ?q3 = "?q2\<lparr>q_live := [(0, Busy ?j)], q_jobs := []\<rparr>"
  let ?q4 = "?q3\<lparr>q_live := [(0, Idle)], q_jobGroup := q_jobGroup ?q3 - 1, q_finished := q_finished ?q3 @ [?j]\<rparr>"
  have "queue_step ?q1 (QSend ?j) ?q2" "queue_step ?q2 (QTake 0 ?j) ?q3" "queue_step ?q3 (QFinish 0 ?j) ?q4"
    using step_send [of ?q1 "[]" ?j "[]"] step_take [of ?q2 "[]" 0 "[]" ?j "[]"] step_finish [of ?q3 "[]" 0 ?j "[]"]
    by (simp_all add: Enqueue_def NewQueue_def newWorker_def jobQueueSize_def)
  then have ev: "queue_evolves ?q1 ?q2" "queue_evolves ?q2 ?q3" "queue_evolves ?q3 ?q4"
    by (auto simp: queue_evolves_def internal_def)
  have "Enqueue_returned NewQueue" by (simp add: Enqueue_returned_def NewQueue_def newWorker_def)
  then have "submits Enqueue_returned Enqueue queue_evolves NewQueue [?j] ?q1"
    using submits_job [OF submits_nil, of Enqueue_returned NewQueue Enqueue queue_evolves ?j] by simp
  then have s: "submits Enqueue_returned Enqueue queue_evolves NewQueue [?j] ?q4" using ev by (blast intro: submits_move)
  have h: "Hosts example_tree = [''a'']" "?j \<noteq> None" by (simp_all add: example_tree_def Hosts_def tree_Host_eq)
  have "Wait_returns ?q4" by (simp add: Wait_returns_def Enqueue_def NewQueue_fields)
  then have c: "run_command example_tree 0 [] NewQueue ?q4"
    using s h by (simp add: run_command_def run_resize_def run_jobs_def)
  from run_backs_up_hosts [OF NewQueue_reachable c] show ?thesis
    using c h by (intro exI [of _ ?q4] exI [of _ "the ?j"]) (simp add: NewQueue_def newWorker_def)
qed

end
