(* ===== verification/Cmd_Status.thy ===== *)
theory Cmd_Status imports Cmd begin

text \<open>
  The output of the command \<open>status\<close> (\<open>cmd/status.go\<close>): its columns are aligned, whatever bytes a
  host name has, although the width is counted in bytes and \<open>fmt\<close> pads to runes.
\<close>

section \<open>The command\<close>

text \<open>The tree is dumped for a verbosity above two: \<open>dump\<close> is its text.\<close>

definition statusCmd :: "status_fmt \<Rightarrow> (tree \<Rightarrow> string) \<Rightarrow> int \<Rightarrow> tree \<Rightarrow> string list \<Rightarrow> app \<Rightarrow> string list" where
  "statusCmd sf dump verbosity t args st =
     (if 2 < verbosity then [dump t] else status_lines sf verbosity t args (export st))"

section \<open>Runes\<close>

lemma cont_in_append:
  "list_all (\<lambda>c. (of_char c :: nat) < 0x80) w \<Longrightarrow> 0x80 \<le> lo \<Longrightarrow> cont_in lo hi (s @ w) i = cont_in lo hi s i"
proof -
  assume w: "list_all (\<lambda>c. (of_char c :: nat) < 0x80) w" and lo: "0x80 \<le> lo"
  have "\<not> lo \<le> (of_char (w ! (i - length s)) :: nat)" if "\<not> i < length s" "i < length s + length w"
  proof -
    have "w ! (i - length s) \<in> set w" using that by simp
    then have "(of_char (w ! (i - length s)) :: nat) < 0x80" using w by (simp add: list_all_iff)
    then show ?thesis using lo by linarith
  qed
  then show ?thesis by (auto simp: cont_in_def nth_append)
qed

lemma rune_size_append:
  assumes "s \<noteq> []" and "list_all (\<lambda>c. (of_char c :: nat) < 0x80) w"
  shows "rune_size (s @ w) = rune_size s"
proof -
  have h: "(case s @ w of [] \<Rightarrow> 0 | c # _ \<Rightarrow> of_char c) = ((case s of [] \<Rightarrow> 0 | c # _ \<Rightarrow> of_char c) :: nat)"
    using assms(1) by (cases s) simp_all
  show ?thesis by (simp add: rune_size_def Let_def h cont_in_append [OF assms(2)])
qed

lemma rune_size_le: "s \<noteq> [] \<Longrightarrow> rune_size s \<le> length s"
  by (auto simp: rune_size_def Let_def cont_in_def Suc_le_eq)

lemma rune_count_append:
  "list_all (\<lambda>c. (of_char c :: nat) < 0x80) w \<Longrightarrow> rune_count (s @ w) = rune_count s + length w"
proof (induction s rule: rune_count.induct)
  case (1 s)
  show ?case
  proof (cases "s = []")
    case True
    then show ?thesis using rune_count_ascii [OF "1.prems"] by (simp add: rune_count.simps)
  next
    case False
    have "rune_count (s @ w) = Suc (rune_count (drop (rune_size s) s @ w))"
      using False rune_size_append [OF False "1.prems"] rune_size_le [OF False]
      by (subst rune_count.simps) simp
    also have "\<dots> = Suc (rune_count (drop (rune_size s) s) + length w)" using "1.IH" [OF False "1.prems"] by simp
    also have "\<dots> = rune_count s + length w" using False by (subst rune_count.simps [of s]) simp
    finally show ?thesis .
  qed
qed

lemma rune_count_le: "rune_count s \<le> length s"
proof (induction s rule: rune_count.induct)
  case (1 s)
  show ?case
  proof (cases "s = []")
    case False
    then have "rune_count s = Suc (rune_count (drop (rune_size s) s))" by (subst rune_count.simps) simp
    then show ?thesis using "1.IH" [OF False] rune_size_pos [of s] rune_size_le [OF False]
      by (simp del: rune_size_pos)
  qed (simp add: rune_count.simps)
qed

lemma spaces_ascii: "list_all (\<lambda>c. (of_char c :: nat) < 0x80) (replicate n (CHR '' ''))"
  by (simp add: list_all_iff)

lemma rune_count_spaces: "rune_count (replicate n (CHR '' '')) = n"
  using rune_count_ascii [OF spaces_ascii] by simp

lemma rune_count_pad_right: "rune_count s \<le> n \<Longrightarrow> rune_count (pad_right n s) = n"
  by (simp add: pad_right_def rune_count_append spaces_ascii)

section \<open>Columns\<close>

lemma longest_name_ge:
  "hm \<in> set exported \<Longrightarrow> wanted args (fst hm) \<Longrightarrow> length (fst hm) \<le> longest_name args exported"
proof -
  let ?f = "\<lambda>hm l. if wanted args (fst hm) \<and> l < length (fst hm) then length (fst hm) else l"
  have mono: "l \<le> fold ?f xs l" for xs :: "(string \<times> metrics) list" and l
    by (induction xs arbitrary: l) (auto intro: le_trans [OF less_imp_le])
  have "hm \<in> set xs \<Longrightarrow> wanted args (fst hm) \<Longrightarrow> length (fst hm) \<le> fold ?f xs l" for xs l
  proof (induction xs arbitrary: l)
    case (Cons x xs)
    then show ?case using mono [of "?f x l" xs] by (cases "hm = x") (auto split: if_splits)
  qed simp
  then show "hm \<in> set exported \<Longrightarrow> wanted args (fst hm) \<Longrightarrow> length (fst hm) \<le> longest_name args exported"
    unfolding longest_name_def .
qed

definition column_line :: "nat \<Rightarrow> string \<Rightarrow> bool" where
  "column_line n line \<longleftrightarrow> (\<exists>name rest. line = name @ ''  '' @ rest \<and> rune_count name = n)"

lemma column_lineI: "rune_count name = n \<Longrightarrow> column_line n (name @ CHR '' '' # CHR '' '' # rest)"
  by (auto simp: column_line_def)

lemma status_block_columns:
  assumes "rune_count (fst hm) \<le> n"
  shows "list_all (column_line n) (status_block sf 0 t n hm)"
proof -
  obtain h m where hm: "hm = (h, m)" by fastforce
  note c = column_lineI [OF rune_count_spaces [of n]] column_lineI [OF rune_count_pad_right [of h n]]
  show ?thesis using assms c by (simp add: status_block_def hm Let_def)
qed

section \<open>Properties\<close>

text \<open>With the verbose flag a block has the dump of the job at its end.\<close>

lemma status_block_verbose:
  "status_block sf v t n hm = status_block sf 0 t n hm @ (if 0 < v then [sf_job sf (tree_Host t (fst hm))] else [])"
  by (simp add: status_block_def Let_def split: prod.split)

lemma status_block_first: "hd (status_block sf 0 t n hm) = pad_right n (fst hm) @ ''  status            '' @ colorize (Status (snd hm))"
  by (simp add: status_block_def Let_def split: prod.split)

text \<open>C29: The columns of the status are aligned. Unless the verbose flag is given three times, when only the tree is
  dumped, the output consists of a block for each host that is wanted, in the order of the export, with the dump of the
  host's job after it if the flag is given at all. Every line of a block consists of a first column as wide (in
  runes) as the longest name shown is long (in bytes), two spaces and the rest, and the first column of its first
  line is the name of the host, padded.\<close>

theorem status_columns_aligned:
  "statusCmd sf dump v t args st =
     (if 2 < v then [dump t]
      else concat (map (\<lambda>hm. if wanted args (fst hm)
        then status_block sf 0 t (longest_name args (export st)) hm @ (if 0 < v then [sf_job sf (tree_Host t (fst hm))] else [])
        else []) (export st)))
   \<and> (\<forall>hm\<in>set (export st). wanted args (fst hm) \<longrightarrow>
        list_all (\<lambda>line. \<exists>name rest. line = name @ ''  '' @ rest \<and> rune_count name = longest_name args (export st))
          (status_block sf 0 t (longest_name args (export st)) hm)
        \<and> (\<exists>rest. hd (status_block sf 0 t (longest_name args (export st)) hm)
             = pad_right (longest_name args (export st)) (fst hm) @ ''  '' @ rest))"
proof (intro conjI ballI impI)
  let ?n = "longest_name args (export st)"
  show "statusCmd sf dump v t args st = (if 2 < v then [dump t]
      else concat (map (\<lambda>hm. if wanted args (fst hm)
        then status_block sf 0 t ?n hm @ (if 0 < v then [sf_job sf (tree_Host t (fst hm))] else []) else []) (export st)))"
    unfolding statusCmd_def status_lines_def status_block_verbose [of sf v] by simp
  fix hm
  assume hm: "hm \<in> set (export st)" "wanted args (fst hm)"
  show "list_all (\<lambda>line. \<exists>name rest. line = name @ ''  '' @ rest \<and> rune_count name = ?n) (status_block sf 0 t ?n hm)"
    using status_block_columns [OF le_trans [OF rune_count_le longest_name_ge [OF hm]], of sf t]
    by (simp add: column_line_def [abs_def])
  show "\<exists>rest. hd (status_block sf 0 t ?n hm) = pad_right ?n (fst hm) @ ''  '' @ rest"
    by (simp add: status_block_first)
qed

lemma status_columns_aligned_witness:
  "\<forall>sf. \<exists>m. (''a'', m) \<in> set (export ((initial_app (NewTree []))\<lparr>a_hosts := [(''a'', zero_metrics)]\<rparr>))
    \<and> (\<exists>rest. hd (status_block sf 0 (NewTree []) 1 (''a'', m)) = ''a'' @ ''  '' @ rest)"
proof
  fix sf :: status_fmt
  let ?st = "(initial_app (NewTree []))\<lparr>a_hosts := [(''a'', zero_metrics)]\<rparr>"
  have e: "export ?st = [(''a'', zero_metrics)]" by (simp add: export_eq zero_metrics_def)
  have "longest_name [] (export ?st) = 1" by (simp add: e longest_name_def wanted_def)
  moreover have "rune_count ''a'' = 1" using rune_count_ascii [of "''a''"] by simp
  ultimately show "\<exists>m. (''a'', m) \<in> set (export ?st) \<and> (\<exists>rest. hd (status_block sf 0 (NewTree []) 1 (''a'', m)) = ''a'' @ ''  '' @ rest)"
    using status_columns_aligned [of sf "\<lambda>_. []" 0 "NewTree []" "[]" ?st] by (simp add: e wanted_def pad_right_def)
qed

end
