(* ===== verification/Cmd_Line.thy ===== *)
theory Cmd_Line imports Cmd begin

text \<open>
  The command line: the commands and flags that the \<open>init\<close> functions of \<open>cmd/root.go\<close>,
  \<open>cmd/run.go\<close>, \<open>cmd/serve.go\<close> and \<open>cmd/status.go\<close> register, and the arguments \<open>injectHostArgs\<close> admits.
  The parser (cobra, pflag) is a parameter: of it the properties use what its documentation says of
  \<open>OnlyValidArgs\<close>, and that flags of the same name or shorthand are an error.
\<close>

section \<open>Commands and flags\<close>

datatype flag_default = StringFlag string | IntFlag int | CountFlag int

record flag =
  fl_name :: string
  fl_short :: string
  fl_default :: flag_default
  fl_usage :: string

datatype args_rule = DefaultArgs | NoArgs | OnlyValidArgs

record command =
  cm_Use :: string
  cm_Short :: string
  cm_Args :: args_rule
  cm_ValidArgs :: "string list"
  cm_flags :: "flag list"

definition listenAddress :: string where
  "listenAddress = ''127.0.0.1:3000''"

text \<open>The root command; its flags are persistent, every command inherits them.\<close>

definition rootCmd :: command where
  "rootCmd =
     \<lparr>cm_Use = ''zackup'', cm_Short = ''A small utility to backup remote hosts into local ZFS datasets.'',
      cm_Args = DefaultArgs, cm_ValidArgs = [], cm_flags = []\<rparr>"

definition root_init :: "cmd_state \<Rightarrow> command \<Rightarrow> command" where
  "root_init st cmd =
     cmd\<lparr>cm_flags := cm_flags cmd @
       [\<lparr>fl_name = ''root'', fl_short = ''r'', fl_default = StringFlag (c_treeRoot st),
          fl_usage = ''config root `directory`''\<rparr>,
        \<lparr>fl_name = ''verbose'', fl_short = ''v'', fl_default = CountFlag 0,
          fl_usage = ''increase log level (specify once for debug, twice for trace level messages)''\<rparr>,
        \<lparr>fl_name = ''gelf'', fl_short = [], fl_default = StringFlag (c_glEndpoint st),
          fl_usage = ''GELF UDP endpoint in `host:port` notation''\<rparr>]\<rparr>"

definition runCmd :: command where
  "runCmd =
     \<lparr>cm_Use = ''run [host [...]]'', cm_Short = ''Creates backups and stores them in a local per-host ZFS dataset'',
      cm_Args = DefaultArgs, cm_ValidArgs = [], cm_flags = []\<rparr>"

definition run_init :: "command \<Rightarrow> command" where
  "run_init cmd =
     cmd\<lparr>cm_flags := cm_flags cmd @
       [\<lparr>fl_name = ''parallel'', fl_short = ''P'', fl_default = IntFlag 0,
          fl_usage = ''Run at most `N` jobs parallel (overrides service config value, if > 0)''\<rparr>]\<rparr>"

definition serveCmd :: command where
  "serveCmd =
     \<lparr>cm_Use = ''serve'', cm_Short = ''Starts zackup as deamon.'', cm_Args = NoArgs, cm_ValidArgs = [], cm_flags = []\<rparr>"

definition serve_init_flags :: "command \<Rightarrow> command" where
  "serve_init_flags cmd =
     cmd\<lparr>cm_flags := cm_flags cmd @
       [\<lparr>fl_name = ''listen'', fl_short = ''l'', fl_default = StringFlag listenAddress,
          fl_usage = ''`address` to listen on''\<rparr>]\<rparr>"

definition statusCommand :: command where
  "statusCommand =
     \<lparr>cm_Use = ''status'', cm_Short = ''Prints a list of hosts and their backup status'',
      cm_Args = DefaultArgs, cm_ValidArgs = [], cm_flags = []\<rparr>"

text \<open>The flags a command takes: its own and those it inherits.\<close>

definition all_flags :: "cmd_state \<Rightarrow> command \<Rightarrow> flag list" where
  "all_flags st cmd = cm_flags cmd @ cm_flags (root_init st rootCmd)"

definition registered :: "command list" where
  "registered = [run_init runCmd, serve_init_flags serveCmd, statusCommand]"

text \<open>The hosts of the tree become the arguments of \<open>run\<close> and \<open>status\<close>.\<close>

definition injectHostArgs :: "string list \<Rightarrow> command \<Rightarrow> command" where
  "injectHostArgs hosts cmd = cmd\<lparr>cm_ValidArgs := hosts, cm_Args := OnlyValidArgs\<rparr>"

section \<open>What the parser can rely on\<close>

text \<open>No command has two flags of the same name or the same shorthand, inherited ones included: pflag,
  which panics on such flags, accepts the registration.\<close>

theorem flags_unambiguous:
  "list_all (\<lambda>cmd. distinct (map fl_name (all_flags st cmd))
      \<and> distinct (filter (\<lambda>s. s \<noteq> []) (map fl_short (all_flags st cmd)))) registered"
  by (simp add: registered_def all_flags_def run_init_def runCmd_def serve_init_flags_def serveCmd_def statusCommand_def
      root_init_def rootCmd_def)

text \<open>The defaults of the flags are the values the variables have before the command line is read.\<close>

theorem flag_defaults:
  "map (\<lambda>f. (fl_name f, fl_default f)) (all_flags (initial_cmd dir) (run_init runCmd)) =
     [(''parallel'', IntFlag (c_runParallel (initial_cmd dir))), (''root'', StringFlag dir),
      (''verbose'', CountFlag (c_verbosity (initial_cmd dir))), (''gelf'', StringFlag (c_glEndpoint (initial_cmd dir)))]"
  by (simp add: all_flags_def run_init_def runCmd_def root_init_def rootCmd_def initial_cmd_def)

text \<open>The documented contract of \<open>OnlyValidArgs\<close>: a command is only run on arguments among its valid ones.\<close>

definition accepts_contract :: "(command \<Rightarrow> string list \<Rightarrow> bool) \<Rightarrow> bool" where
  "accepts_contract accepts \<longleftrightarrow>
     (\<forall>cmd args. accepts cmd args \<and> cm_Args cmd = OnlyValidArgs \<longrightarrow> set args \<subseteq> set (cm_ValidArgs cmd))"

text \<open>After the set-up no argument of \<open>run\<close> is unknown: the branch that ignores a host is not reached,
  and a job is submitted for every argument.\<close>

theorem run_ignores_nothing:
  assumes "accepts_contract accepts" and "initConfig ce st0 = (InitDone, st)"
    and "accepts (injectHostArgs (c_validArgs st) (run_init runCmd)) args"
  shows "run_jobs (c_tree st) args = map (tree_Host (c_tree st)) (if args = [] then Hosts (c_tree st) else args)"
proof -
  have v: "c_validArgs st = Hosts (c_tree st)"
    using assms(2) by (auto simp: initConfig_def Let_def init_service_def split: prod.splits option.splits if_splits)
  have "set args \<subseteq> set (Hosts (c_tree st))"
    using assms(1,3) unfolding accepts_contract_def by (fastforce simp: injectHostArgs_def v)
  then have "h \<in> set (if args = [] then Hosts (c_tree st) else args) \<Longrightarrow> tree_Host (c_tree st) h \<noteq> None" for h
    using Hosts_known [of h "c_tree st"] by (auto split: if_splits)
  then show ?thesis by (auto simp: run_jobs_def filter_id_conv)
qed

lemma run_ignores_nothing_witness:
  "\<exists>st. initConfig example_cmd_env (initial_cmd ''/z'') = (InitDone, st)
    \<and> run_jobs (c_tree st) [''a''] = [tree_Host (c_tree st) ''a'']"
proof -
  let ?ok = "\<lambda>cmd args. cm_Args cmd = OnlyValidArgs \<longrightarrow> set args \<subseteq> set (cm_ValidArgs cmd)"
  obtain st where st: "initConfig example_cmd_env (initial_cmd ''/z'') = (InitDone, st)" "Hosts (c_tree st) = [''a'']"
    using example_init by blast
  then have v: "c_validArgs st = [''a'']"
    by (auto simp: initConfig_def Let_def init_service_def split: prod.splits option.splits if_splits)
  have "accepts_contract ?ok" by (simp add: accepts_contract_def)
  from run_ignores_nothing [OF this st(1), of "[''a'']"] show ?thesis
    using st(1) by (intro exI [of _ st]) (simp add: injectHostArgs_def v)
qed

end
