(* ===== verification/Main_Go.thy ===== *)
theory Main_Go imports Cmd begin

text \<open>
  \<open>main.go\<close>: the goroutine that dumps the stacks of all goroutines whenever SIGUSR1 arrives. Its
  channel has no buffer, and \<open>signal.Notify\<close> never blocks: a signal is handed over only while the
  goroutine waits for one. Before \<open>signal.Notify\<close> has run, the signal ends the process, as the
  runtime does by default. The last three fields count; they are not in the code.
\<close>

datatype usr_pc = UsrStarting | UsrReceiving | UsrDumping

record usr_handler =
  us_pc :: usr_pc
  us_killed :: bool
  us_signals :: nat
  us_dumps :: nat
  us_lost :: nat

datatype usr_event = UsrNotify | UsrSignal | UsrDumped

definition usr_start :: usr_handler where
  "usr_start = \<lparr>us_pc = UsrStarting, us_killed = False, us_signals = 0, us_dumps = 0, us_lost = 0\<rparr>"

fun handleSIGUSRx :: "usr_event \<Rightarrow> usr_handler \<Rightarrow> usr_handler option" where
  "handleSIGUSRx UsrNotify u =
     (if us_pc u = UsrStarting \<and> \<not> us_killed u then Some (u\<lparr>us_pc := UsrReceiving\<rparr>) else None)"
| "handleSIGUSRx UsrSignal u =
     (if us_killed u then None
      else let u = u\<lparr>us_signals := Suc (us_signals u)\<rparr>
           in case us_pc u of
                UsrStarting \<Rightarrow> Some (u\<lparr>us_killed := True\<rparr>)
              | UsrReceiving \<Rightarrow> Some (u\<lparr>us_pc := UsrDumping, us_dumps := Suc (us_dumps u)\<rparr>)
              | UsrDumping \<Rightarrow> Some (u\<lparr>us_lost := Suc (us_lost u)\<rparr>))"
| "handleSIGUSRx UsrDumped u =
     (if us_pc u = UsrDumping \<and> \<not> us_killed u then Some (u\<lparr>us_pc := UsrReceiving\<rparr>) else None)"

definition usr_step :: "usr_handler \<Rightarrow> usr_event \<Rightarrow> usr_handler \<Rightarrow> bool" where
  "usr_step u e u' \<longleftrightarrow> handleSIGUSRx e u = Some u'"

definition usr_init :: "usr_handler \<Rightarrow> bool" where
  "usr_init u \<longleftrightarrow> u = usr_start"

definition usr_ok :: "usr_handler \<Rightarrow> bool" where
  "usr_ok u \<longleftrightarrow> us_signals u = us_dumps u + us_lost u + (if us_killed u then 1 else 0)
     \<and> (us_pc u = UsrStarting \<longrightarrow> us_dumps u = 0 \<and> us_lost u = 0)
     \<and> (us_killed u \<longrightarrow> us_pc u = UsrStarting)"

interpretation usr_life: invariant_of usr_init usr_step usr_ok
proof
  fix u u' e
  assume "usr_ok u" and "usr_step u e u'"
  then show "usr_ok u'"
    by (cases e) (auto simp: usr_step_def usr_ok_def Let_def split: if_splits usr_pc.splits)
qed (simp add: usr_init_def usr_start_def usr_ok_def)

text \<open>Every signal gives a dump, is lost during one, or ends a process that does not listen yet; so a
  process that was not killed has dumped once for every signal that was not lost.\<close>

theorem signals_accounted:
  assumes "reachable usr_init usr_step u"
  shows "us_dumps u + us_lost u \<le> us_signals u \<and> (\<not> us_killed u \<longrightarrow> us_dumps u = us_signals u - us_lost u)
    \<and> (us_killed u \<longrightarrow> us_signals u = 1)"
  using usr_life.inv_reachable [OF assms] by (auto simp: usr_ok_def split: if_splits)

lemma signals_accounted_witness:
  "\<exists>u. run_of usr_step usr_start [UsrNotify, UsrSignal, UsrSignal, UsrDumped] u \<and> us_dumps u = 1 \<and> us_lost u = 1"
proof -
  let ?u = "usr_start\<lparr>us_pc := UsrReceiving, us_signals := Suc (Suc 0), us_dumps := Suc 0, us_lost := Suc 0\<rparr>"
  have r: "run_of usr_step usr_start [UsrNotify, UsrSignal, UsrSignal, UsrDumped] ?u"
    by (auto intro!: run_cons [where step = usr_step] run_nil simp: usr_step_def usr_start_def Let_def)
  have "reachable usr_init usr_step usr_start" by (rule reachable_init) (simp add: usr_init_def)
  from signals_accounted [OF run_of_reachable [OF r this]] show ?thesis using r by (intro exI [of _ ?u]) simp
qed

end
