(* ===== verification/App_Isolation.thy ===== *)
theory App_Isolation imports App_Runner begin

text \<open>
  What a backup may touch: every command of \<open>PerformBackup\<close> names the dataset, the directory or
  the address of its own host, and the names of two hosts never meet.
\<close>

section \<open>Commands on a host\<close>

definition with_slash :: "string \<Rightarrow> string" where
  "with_slash p = (if suffix ''/'' p then p else p @ ''/'')"

text \<open>A dataset or one of its snapshots; the mount point; the remote host.\<close>

definition own_action :: "app \<Rightarrow> string \<Rightarrow> action \<Rightarrow> bool" where
  "own_action st h a =
     (let ds = path_join [v_RootDataset st, h]
      in case a of
           AZfs args \<Rightarrow> last args = ds \<or> prefix (ds @ ''@'') (last args)
         | ATunnelStart argv \<Rightarrow> last argv = h
         | AExecStart argv \<Rightarrow> suffix [h, ''/bin/sh'', ''-esx''] argv
         | ARsyncStart argv \<Rightarrow>
             last argv = with_slash (path_join [v_MountBase st, h]) \<and> suffix (''@'' @ h @ '':/'') (last (butlast argv))
         | _ \<Rightarrow> True)"

text \<open>A piece of a backup that keeps the state and only emits such commands.\<close>

definition emits :: "(action \<Rightarrow> bool) \<Rightarrow> world \<Rightarrow> world \<Rightarrow> bool" where
  "emits P w w' \<longleftrightarrow> w_app w' = w_app w \<and> (\<exists>as. w_trace w' = w_trace w @ as \<and> list_all P as)"

lemma emits_refl [simp]: "emits P w w"
  by (simp add: emits_def)

lemma emits_trans: "emits P w w' \<Longrightarrow> emits P w' w'' \<Longrightarrow> emits P w w''"
  by (fastforce simp: emits_def)

lemma emits_act: "act os a w = (b, w') \<Longrightarrow> P a \<Longrightarrow> emits P w w'"
  by (auto simp: act_def emits_def)

lemma emits_snd_act: "P a \<Longrightarrow> emits P w (snd (act os a w))"
  by (simp add: act_def emits_def)

lemma emits_state: "emits P w w' \<Longrightarrow> w_app w' = w_app w"
  by (simp add: emits_def)

text \<open>Commands without a name of their own.\<close>

definition anonymous :: "action \<Rightarrow> bool" where
  "anonymous a = (case a of AZfs _ \<Rightarrow> False | ATunnelStart _ \<Rightarrow> False | AExecStart _ \<Rightarrow> False | ARsyncStart _ \<Rightarrow> False | _ \<Rightarrow> True)"

lemma anonymous_own [simp]: "anonymous a \<Longrightarrow> own_action st h a"
  by (cases a) (simp_all add: anonymous_def own_action_def)

lemma anonymous_simps [simp]:
  "anonymous ATunnelTerm" "anonymous ATunnelKill" "anonymous ATunnelWait" "anonymous (APipe s)" "anonymous (ASend l)"
  "anonymous AFlush" "anonymous ACloseStdin" "anonymous AExecWait" "anonymous ARsyncWait"
  by (simp_all add: anonymous_def)

lemma captureOutput_emits: "captureOutput os w = (e, w') \<Longrightarrow> emits (own_action st h) w w'"
  by (auto simp: captureOutput_def split: prod.splits bool.splits intro: emits_act emits_trans [OF emits_act emits_act])

lemma send_lines_emits: "send_lines os ls w = (e, w') \<Longrightarrow> emits (own_action st h) w w'"
proof (induction ls arbitrary: w)
  case (Cons l ls)
  obtain b w1 where a1: "act os (ASend (l @ [newline])) w = (b, w1)" by fastforce
  obtain b' w2 where a2: "act os AFlush w1 = (b', w2)" by fastforce
  have m1: "emits (own_action st h) w w1" using emits_act [OF a1] by simp
  have m2: "emits (own_action st h) w w2" using emits_trans [OF m1 emits_act [OF a2]] by simp
  show ?case using Cons a1 a2 m1 m2 emits_trans [OF m2] by (auto split: bool.splits)
qed simp

lemma execute_emits:
  assumes "execute os c ls w = (e, w')"
  shows "emits (own_action st (m_host c)) w w'"
proof -
  let ?P = "own_action st (m_host c)"
  obtain e0 w0 where c: "captureOutput os w = (e0, w0)" by fastforce
  obtain b1 w1 where a1: "act os (APipe ''stdin'') w0 = (b1, w1)" by fastforce
  obtain b2 w2 where a2: "act os (AExecStart (v_SSHPath (w_app w1) # execute_args c)) w1 = (b2, w2)" by fastforce
  obtain e3 w3 where s: "send_lines os ls w2 = (e3, w3)" by fastforce
  obtain b5 w5 where a5: "act os AExecWait (snd (act os ACloseStdin w3)) = (b5, w5)" by fastforce
  have start: "?P (AExecStart (p # execute_args c))" for p
    by (auto simp: own_action_def execute_args_def suffix_def)
  have m0: "emits ?P w w0" using captureOutput_emits [OF c] .
  have m1: "emits ?P w w1" using emits_trans [OF m0 emits_act [OF a1]] by simp
  have m2: "emits ?P w w2" using emits_trans [OF m1 emits_act [OF a2]] start by simp
  have m3: "emits ?P w w3" using emits_trans [OF m2 send_lines_emits [OF s]] .
  have stop: "emits ?P u (snd (act os ACloseStdin u))" for u by (rule emits_snd_act) simp
  have m5: "emits ?P w w5" using emits_trans [OF emits_trans [OF m3 stop] emits_act [OF a5]] by simp
  show ?thesis
    using assms c a1 a2 s a5 m0 m1 emits_trans [OF m2 stop] emits_trans [OF m3 stop] m5
    by (auto simp: execute_def split: option.splits bool.splits)
qed

lemma rsync_own:
  assumes "m_mountPath c = path_join [v_MountBase st, m_host c]"
  shows "own_action st (m_host c) (ARsyncStart (rsync_argv os c r st'))"
proof -
  have s: "\<not> suffix ''/'' (m_user c @ ''@'' @ m_host c @ '':'')" by (simp add: suffix_def)
  have "suffix (''@'' @ m_host c @ '':/'') (m_user c @ ''@'' @ m_host c @ '':/'')" by (auto simp: suffix_def)
  then show ?thesis
    using s assms by (simp add: own_action_def rsync_argv_def BuildArgVector_def Let_def with_slash_def butlast_append)
qed

lemma master_rsync_emits:
  assumes "master_rsync os c r w = (e, w')" and m: "m_mountPath c = path_join [v_MountBase st, m_host c]"
  shows "emits (own_action st (m_host c)) w w'"
proof -
  let ?P = "own_action st (m_host c)"
  obtain e0 w0 where c: "captureOutput os w = (e0, w0)" by fastforce
  obtain b1 w1 where a1: "act os (ARsyncStart (rsync_argv os c r (w_app w0))) w0 = (b1, w1)" by fastforce
  obtain b2 w2 where a2: "act os ARsyncWait w1 = (b2, w2)" by fastforce
  have m0: "emits ?P w w0" using captureOutput_emits [OF c] .
  have m1: "emits ?P w w1" using emits_trans [OF m0 emits_act [OF a1]] rsync_own [OF m] by simp
  have m2: "emits ?P w w2" using emits_trans [OF m1 emits_act [OF a2]] by simp
  show ?thesis using assms(1) c a1 a2 m0 m1 m2 by (auto simp: master_rsync_def split: option.splits bool.splits)
qed

lemma run_script_emits: "run_script os c s w = (r, w') \<Longrightarrow> emits (own_action st (m_host c)) w w'"
  by (auto simp: run_script_def split: if_splits prod.splits intro: execute_emits)

lemma run_rsync_emits:
  "run_rsync os c r w = (e, w') \<Longrightarrow> m_mountPath c = path_join [v_MountBase st, m_host c] \<Longrightarrow>
     emits (own_action st (m_host c)) w w'"
  by (auto simp: run_rsync_def split: option.splits prod.splits intro: master_rsync_emits)

lemma run_snapshot_emits:
  assumes "run_snapshot os ds w = (e, w')" and "ds_Name ds = path_join [v_RootDataset st, h]"
  shows "emits (own_action st h) w w'"
proof -
  have "own_action st h (AZfs [''snapshot'', snapshot_name ds t])" for t
    by (simp add: own_action_def snapshot_name_def assms(2) prefix_def)
  then show ?thesis
    using assms(1) emits_act by (fastforce simp: run_snapshot_def ds_snapshot_def zfs_cmd_def Let_def split: prod.splits bool.splits)
qed

lemma and_then_emits:
  assumes "and_then r f = (e, w')" and "emits P w (snd r)" and "\<And>u e' u'. f u = (e', u') \<Longrightarrow> emits P u u'"
  shows "emits P w w'"
  using assms(1)
proof (rule and_thenE)
  fix u
  assume "r = (Returned None, u)" "f u = (e, w')"
  then show ?thesis using emits_trans [OF assms(2)] assms(3) by simp
qed (use assms(2) in simp)

lemma run_connected_emits:
  assumes "run_connected os job ds c w = (r, w')"
    and m: "m_mountPath c = path_join [v_MountBase st, m_host c]" and d: "ds_Name ds = path_join [v_RootDataset st, m_host c]"
  shows "emits (own_action st (m_host c)) w w'"
  using assms(1) unfolding run_connected_def
proof (rule and_then_emits)
  have s: "emits (own_action st (m_host c)) u (snd (run_script os c s u))" for s u
    by (rule run_script_emits [of os c s u "fst (run_script os c s u)"]) simp
  have 2: "emits (own_action st (m_host c)) w (snd (and_then (run_script os c (PreScript job) w) (run_rsync os c (RSync job))))"
    by (rule and_then_emits [OF prod.collapse [symmetric] s]) (rule run_rsync_emits [OF _ m])
  show "emits (own_action st (m_host c)) w (snd (and_then (and_then (run_script os c (PreScript job) w)
      (run_rsync os c (RSync job))) (run_script os c (PostScript job))))"
    by (rule and_then_emits [OF prod.collapse [symmetric] 2]) (rule run_script_emits)
qed (rule run_snapshot_emits [OF _ d])

lemma close_emits: "emits (own_action st h) w (snd (close os c w))"
proof -
  have P: "emits (own_action st h) u (snd (act os a u))" if "anonymous a" for a u
    by (rule emits_snd_act) (simp add: that)
  obtain b1 w1 where a1: "act os ATunnelTerm w = (b1, w1)" by fastforce
  then have m1: "emits (own_action st h) w w1" using P [of ATunnelTerm w] by simp
  show ?thesis
    using a1 m1 emits_trans [OF m1 P [of ATunnelWait w1]] emits_trans [OF emits_trans [OF m1 P [of ATunnelKill w1]] P [of ATunnelWait]]
    by (auto simp: close_def Let_def split: prod.split)
qed

lemma run_tunnel_emits:
  assumes "run_tunnel os job ds w = (r, w')" and "ds_Name ds = path_join [v_RootDataset (w_app w), job_host job]"
  shows "emits (own_action (w_app w) (job_host job)) w w'"
proof (cases "SSH job")
  case None
  then show ?thesis using assms by (simp add: run_tunnel_def)
next
  case (Some cfg)
  let ?c = "newSSHMaster (w_app w) (job_host job) cfg" and ?P = "own_action (w_app w) (job_host job)"
  have c: "m_host ?c = job_host job" "m_mountPath ?c = path_join [v_MountBase (w_app w), job_host job]" "\<not> m_tunnel ?c"
    by (simp_all add: newSSHMaster_def)
  let ?a = "ATunnelStart (v_SSHPath (w_app w) # connect_args ?c)"
  have "?P ?a" by (simp add: own_action_def connect_args_def c)
  moreover obtain b w1 where a: "act os ?a w = (b, w1)" by fastforce
  ultimately have m1: "emits ?P w w1" using emits_act by blast
  show ?thesis
  proof (cases b)
    case False
    then show ?thesis using assms(1) Some c(3) a m1 by (simp add: run_tunnel_def connect_def)
  next
    case True
    let ?c' = "?c\<lparr>m_tunnel := True\<rparr>"
    obtain r' w2 where rc: "run_connected os job ds ?c' w1 = (r', w2)" by fastforce
    have "emits ?P w1 w2"
      using run_connected_emits [OF rc, of "w_app w"] assms(2) c by simp
    then have "emits ?P w (snd (close os ?c' w2))" using emits_trans [OF emits_trans [OF m1] close_emits] by blast
    then show ?thesis using assms(1) Some c(3) a True rc by (simp add: run_tunnel_def connect_def)
  qed
qed

lemma lifecycle_own:
  "list_all (own_action st h) (map AZfs (snd (start h t st)))"
  "list_all (own_action st h) (map AZfs (snd (success h t st)))"
  "list_all (own_action st h) (map AZfs (snd (failure h t st)))"
  by (simp_all add: start_def success_def failure_def Let_def storeStart_def storeResult_def own_action_def
      split: option.split)

lemma lifecycle_frame:
  "v_RootDataset (fst (start h t st)) = v_RootDataset st" "v_MountBase (fst (start h t st)) = v_MountBase st"
  by (simp_all add: start_def Let_def)

lemma own_action_frame:
  "v_RootDataset st = v_RootDataset st' \<Longrightarrow> v_MountBase st = v_MountBase st' \<Longrightarrow> own_action st = own_action st'"
  by (simp add: own_action_def fun_eq_iff cong: action.case_cong)

lemma PerformBackup_own:
  "\<exists>as. w_trace (snd (PerformBackup os (Some job) w)) = w_trace w @ as \<and> list_all (own_action (w_app w) (Host job)) as"
proof -
  let ?P = "own_action (w_app w) (Host job)" and ?ds = "newDataset (w_app w) (Host job)"
  have create: "?P (AZfs [''create'', ''-p'', ds_Name ?ds])" by (simp add: own_action_def newDataset_def)
  obtain r w' where b: "PerformBackup os (Some job) w = (r, w')" by fastforce
  then show ?thesis
  proof (cases rule: PerformBackup_cases)
    case (create w1)
    then show ?thesis using b \<open>?P _\<close> by (auto simp: act_def)
  next
    case (run w1 w2)
    let ?s = "lifecycle os (start (Host job)) w1"
    have w1: "w_app w1 = w_app w" "w_trace w1 = w_trace w @ [AZfs [''create'', ''-p'', ds_Name ?ds]]"
      using run(1) by (auto simp: act_def)
    have P: "own_action (w_app ?s) = own_action (w_app w)"
      by (rule own_action_frame) (simp_all add: lifecycle_app lifecycle_frame w1)
    have root: "v_RootDataset (w_app ?s) = v_RootDataset (w_app w)" by (simp add: lifecycle_app lifecycle_frame w1)
    then have "ds_Name ?ds = path_join [v_RootDataset (w_app ?s), job_host job]" by (simp add: newDataset_def Host_def)
    from run_tunnel_emits [OF run(2) this] have "emits ?P ?s w2" unfolding Host_def [symmetric] P .
    then obtain as where as: "w_app w2 = w_app ?s" "w_trace w2 = w_trace ?s @ as" "list_all ?P as"
      by (auto simp: emits_def)
    have "list_all ?P (map AZfs (snd (start (Host job) t (w_app w1))))" for t using lifecycle_own(1) w1 by simp
    moreover have "own_action (w_app w2) = own_action (w_app w)" using as(1) P by simp
    then have "list_all ?P (map AZfs (snd (success (Host job) t (w_app w2))))"
      "list_all ?P (map AZfs (snd (failure (Host job) t (w_app w2))))" for t
      using lifecycle_own(2,3) [where st = "w_app w2" and h = "Host job"] by simp_all
    moreover have "w_trace ?s = w_trace w @ AZfs [''create'', ''-p'', ds_Name ?ds]
        # map AZfs (snd (start (Host job) (os_now os (w_trace w1)) (w_app w1)))"
      by (simp add: lifecycle_trace w1)
    ultimately show ?thesis
      using b as(2,3) create run(3)
      by (auto simp: record_result_def lifecycle_trace split: ending.split option.split)
  qed
qed

section \<open>Hosts do not meet\<close>

lemma own_dataset_unique:
  assumes "v_RootDataset st = rel_path cs" and "cs \<noteq> []" and "list_all plain_comp cs" and "plain_comp h" and "plain_comp h'"
    and "CHR ''@'' \<notin> set h" and "CHR ''@'' \<notin> set h'"
    and "own_action st h (AZfs args)" and "own_action st h' (AZfs args)"
  shows "h = h'"
proof -
  have "path_join [v_RootDataset st, x] = rel_path cs @ ''/'' @ x" if "plain_comp x" for x
    using dataset_host(1) [OF assms(2,3) that] assms(1) by simp
  then have *: "\<exists>u. last args = (rel_path cs @ ''/'') @ x @ u \<and> takeWhile (\<lambda>c. c \<noteq> CHR ''@'') (x @ u) = x"
    if "plain_comp x" "CHR ''@'' \<notin> set x" "own_action st x (AZfs args)" for x
    using that by (fastforce simp: own_action_def Let_def prefix_def takeWhile_append)
  obtain u where u: "last args = (rel_path cs @ ''/'') @ h @ u" "takeWhile (\<lambda>c. c \<noteq> CHR ''@'') (h @ u) = h"
    using * [OF assms(4,6,8)] by blast
  obtain u' where u': "last args = (rel_path cs @ ''/'') @ h' @ u'" "takeWhile (\<lambda>c. c \<noteq> CHR ''@'') (h' @ u') = h'"
    using * [OF assms(5,7,9)] by blast
  have "h @ u = h' @ u'" using u(1) u'(1) by simp
  then show ?thesis using u(2) u'(2) by metis
qed

section \<open>Properties\<close>

text \<open>C15: A backup stays with its host: each of its commands works on the host's own dataset, mount point
  or address, and none of them on the dataset of another host, nor on a snapshot of it.\<close>

theorem backup_isolated:
  assumes "v_RootDataset (w_app w) = rel_path cs" and "cs \<noteq> []" and "list_all plain_comp cs"
    and "plain_comp (Host job)" and "plain_comp h'" and "CHR ''@'' \<notin> set (Host job)" and "CHR ''@'' \<notin> set h'"
    and "h' \<noteq> Host job"
  shows "\<exists>as. w_trace (snd (PerformBackup os (Some job) w)) = w_trace w @ as
    \<and> list_all (\<lambda>a. own_action (w_app w) (Host job) a
        \<and> (case a of AZfs args \<Rightarrow> \<not> own_action (w_app w) h' (AZfs args) | _ \<Rightarrow> True)) as"
proof -
  have "own_action (w_app w) (Host job) a \<Longrightarrow>
      case a of AZfs args \<Rightarrow> \<not> own_action (w_app w) h' (AZfs args) | _ \<Rightarrow> True" for a
    using own_dataset_unique [OF assms(1-7)] assms(8) by (cases a) auto
  then show ?thesis using PerformBackup_own [of os job w] by (fastforce elim: list.pred_mono_strong)
qed

lemma backup_isolated_witness:
  "\<exists>as. w_trace (snd (PerformBackup (example_os []) (Some example_job) example_world)) = as
    \<and> list_all (\<lambda>a. own_action (w_app example_world) ''a'' a) as \<and> ARsyncWait \<in> set as"
proof -
  have h: "Host example_job = ''a''" by (simp add: example_job_def Host_def new_job_def)
  have "v_RootDataset (w_app example_world) = rel_path [''zroot'']"
    by (simp add: example_world_def initial_app_def rel_path_def)
  from backup_isolated [OF this, of example_job "''b''" "example_os []"]
  have "\<exists>as. w_trace (snd (PerformBackup (example_os []) (Some example_job) example_world)) = w_trace example_world @ as
    \<and> list_all (\<lambda>a. own_action (w_app example_world) ''a'' a
        \<and> (case a of AZfs args \<Rightarrow> \<not> own_action (w_app example_world) ''b'' (AZfs args) | _ \<Rightarrow> True)) as"
    by (simp add: h plain_comp_def)
  moreover have "ARsyncWait \<in> set (w_trace (snd (PerformBackup (example_os []) (Some example_job) example_world)))"
    using example_backup(1) by fastforce
  moreover have "w_trace example_world = []" by (simp add: example_world_def)
  ultimately show ?thesis by (auto simp: list_all_iff)
qed

end
