(* ===== verification/App_Capture.thy ===== *)
theory App_Capture imports App_Ssh begin

text \<open>
  How a remote command is waited for (\<open>execute\<close>, \<open>rsync\<close> and \<open>captureOutput\<close> in \<open>app/ssh.go\<close>): the
  process writes its two streams into pipes, a goroutine per stream reads it line by line, and
  the caller waits for both readers, then for the process. \<open>App_Ssh\<close> takes this waiting as one
  action; here it is a transition system over the interleavings of the process, the readers and
  the caller. The process is given by what it writes, byte by byte, before it exits; a write to
  a full pipe blocks. The capacity of a pipe is a parameter.
\<close>

section \<open>The scanner, byte by byte\<close>

text \<open>A reader has the beginning of a line, or has stopped at the end of the stream or with an error.\<close>

datatype reader = Scanning string | Stopped "scan_error option"

text \<open>\<open>bufio.ScanLines\<close> on the next byte: the reader and the lines it traces.\<close>

definition scan_byte :: "string \<Rightarrow> char \<Rightarrow> reader \<times> string list" where
  "scan_byte l b =
     (if b = newline then (Scanning [], [drop_cr l])
      else if Suc (length l) < max_token then (Scanning (l @ [b]), [])
      else (Stopped (Some ErrTooLong), []))"

definition scan_eof :: "string \<Rightarrow> string list" where
  "scan_eof l = (if l = [] then [] else [drop_cr l])"

text \<open>What a reader traces of the rest of its stream, with its error, and what it leaves unread.\<close>

fun scan_from :: "reader \<Rightarrow> string \<Rightarrow> string list \<times> scan_error option" where
  "scan_from (Stopped e) bs = ([], e)"
| "scan_from (Scanning l) [] = (scan_eof l, None)"
| "scan_from (Scanning l) (b # bs) =
     (let (r, ls) = scan_byte l b; (ls', e) = scan_from r bs in (ls @ ls', e))"

fun unread :: "reader \<Rightarrow> string \<Rightarrow> string" where
  "unread (Stopped e) bs = bs"
| "unread (Scanning l) [] = []"
| "unread (Scanning l) (b # bs) = unread (fst (scan_byte l b)) bs"

definition reader_ok :: "reader \<Rightarrow> bool" where
  "reader_ok r \<longleftrightarrow> (case r of Scanning l \<Rightarrow> newline \<notin> set l \<and> length l < max_token | Stopped e \<Rightarrow> True)"

lemma scan_byte_ok: "reader_ok (Scanning l) \<Longrightarrow> reader_ok (fst (scan_byte l b))"
  by (auto simp: reader_ok_def scan_byte_def max_token_def)

lemma unread_length: "length (unread r bs) \<le> length bs"
  by (induction r bs rule: unread.induct) auto

section \<open>The scanner of the library\<close>

lemma scan_lines_line:
  assumes "newline \<notin> set l" and "length l < max_token"
  shows "scan_lines (l @ newline # bs) = (drop_cr l # fst (scan_lines bs), snd (scan_lines bs))"
proof -
  have "raw_lines (l @ newline # bs) = l # raw_lines bs"
    by (simp add: raw_lines_def Let_def split_on_append_sep [OF assms(1)])
  then show ?thesis using assms(2) by (simp add: scan_lines_def Let_def)
qed

lemma scan_lines_last:
  assumes "newline \<notin> set l" and "length l < max_token"
  shows "scan_lines l = (scan_eof l, None)"
  using assms by (simp add: scan_lines_def raw_lines_def split_on_no_sep scan_eof_def Let_def)

lemma raw_lines_long:
  assumes "newline \<notin> set l" and "l \<noteq> []"
  shows "\<exists>x xs. raw_lines (l @ bs) = (l @ x) # xs"
proof -
  obtain y ys where "split_on newline bs = y # ys" by (cases "split_on newline bs") auto
  then have "split_on newline (l @ bs) = (l @ y) # ys" using assms(1) by (induction l) auto
  then show ?thesis using assms(2) by (auto simp: raw_lines_def Let_def)
qed

lemma scan_lines_long:
  assumes "newline \<notin> set l" and "length l = max_token"
  shows "scan_lines (l @ bs) = ([], Some ErrTooLong)"
proof -
  have "l \<noteq> []" using assms(2) by (auto simp: max_token_def)
  then obtain x xs where "raw_lines (l @ bs) = (l @ x) # xs" using raw_lines_long [OF assms(1)] by blast
  then show ?thesis using assms(2) by (simp add: scan_lines_def Let_def)
qed

lemma scan_from_lines: "reader_ok (Scanning l) \<Longrightarrow> scan_from (Scanning l) bs = scan_lines (l @ bs)"
proof (induction bs arbitrary: l)
  case Nil
  then show ?case using scan_lines_last by (simp add: reader_ok_def)
next
  case (Cons b bs)
  have l: "newline \<notin> set l" "length l < max_token" using Cons.prems by (simp_all add: reader_ok_def)
  show ?case
  proof (cases "b = newline")
    case True
    have "reader_ok (Scanning [])" by (simp add: reader_ok_def max_token_def)
    then show ?thesis using True Cons.IH [of "[]"] scan_lines_line [OF l] by (simp add: scan_byte_def split: prod.split)
  next
    case False
    then have n: "newline \<notin> set (l @ [b])" using l(1) by auto
    show ?thesis
    proof (cases "Suc (length l) < max_token")
      case True
      then show ?thesis using False n Cons.IH [of "l @ [b]"] by (simp add: scan_byte_def reader_ok_def split: prod.split)
    next
      case long: False
      then have "length (l @ [b]) = max_token" using l(2) by simp
      then show ?thesis using False long scan_lines_long [OF n] by (simp add: scan_byte_def)
    qed
  qed
qed

corollary scan_from_captured: "scan_from (Scanning []) bs = captured bs"
  using scan_from_lines [of "[]"] by (simp add: captured_def reader_ok_def max_token_def)

section \<open>Waiting for a command\<close>

datatype stream = Stdout | Stderr

datatype wait_pc = InWgWait | InCmdWait | Collected

record capture =
  cp_todo :: "(stream \<times> char) list"
  cp_exited :: bool
  cp_pipe :: "stream \<Rightarrow> string"
  cp_reader :: "stream \<Rightarrow> reader"
  cp_log :: "(stream \<times> string) list"
  cp_wg :: int
  cp_pc :: wait_pc

text \<open>After \<open>captureOutput\<close> and \<open>cmd.Start\<close>, for a process that writes \<open>out\<close>.\<close>

definition capture_start :: "(stream \<times> char) list \<Rightarrow> capture" where
  "capture_start out =
     \<lparr>cp_todo = out, cp_exited = False, cp_pipe = (\<lambda>_. []), cp_reader = (\<lambda>_. Scanning []), cp_log = [],
      cp_wg = 2, cp_pc = InWgWait\<rparr>"

text \<open>A reader that has got somewhere; it calls \<open>wg.Done\<close> when it stops.\<close>

definition reader_moves :: "stream \<Rightarrow> reader \<times> string list \<Rightarrow> capture \<Rightarrow> capture" where
  "reader_moves s rl c =
     c\<lparr>cp_reader := (cp_reader c)(s := fst rl), cp_log := cp_log c @ map (Pair s) (snd rl),
       cp_wg := (case fst rl of Scanning l \<Rightarrow> cp_wg c | Stopped e \<Rightarrow> cp_wg c - 1)\<rparr>"

datatype capture_event = CWrite stream | CExit | CRead stream | CEof stream | CWgDone | CReaped

inductive capture_step :: "nat \<Rightarrow> capture \<Rightarrow> capture_event \<Rightarrow> capture \<Rightarrow> bool" for cap :: nat where
  cs_write:
    "cp_todo c = (s, b) # rest \<Longrightarrow> length (cp_pipe c s) < cap \<Longrightarrow>
       capture_step cap c (CWrite s) (c\<lparr>cp_todo := rest, cp_pipe := (cp_pipe c)(s := cp_pipe c s @ [b])\<rparr>)"
| cs_exit: "cp_todo c = [] \<Longrightarrow> \<not> cp_exited c \<Longrightarrow> capture_step cap c CExit (c\<lparr>cp_exited := True\<rparr>)"
| cs_read:
    "cp_reader c s = Scanning l \<Longrightarrow> cp_pipe c s = b # bs \<Longrightarrow>
       capture_step cap c (CRead s) (reader_moves s (scan_byte l b) (c\<lparr>cp_pipe := (cp_pipe c)(s := bs)\<rparr>))"
| cs_eof:
    "cp_reader c s = Scanning l \<Longrightarrow> cp_exited c \<Longrightarrow> cp_pipe c s = [] \<Longrightarrow>
       capture_step cap c (CEof s) (reader_moves s (Stopped None, scan_eof l) c)"
| cs_wg: "cp_pc c = InWgWait \<Longrightarrow> cp_wg c = 0 \<Longrightarrow> capture_step cap c CWgDone (c\<lparr>cp_pc := InCmdWait\<rparr>)"
| cs_reap: "cp_pc c = InCmdWait \<Longrightarrow> cp_exited c \<Longrightarrow> capture_step cap c CReaped (c\<lparr>cp_pc := Collected\<rparr>)"

inductive_cases capture_stepE: "capture_step cap c e c'"

text \<open>The bytes of a stream in what a process writes, and the lines of a stream in the log.\<close>

definition bytes_of :: "stream \<Rightarrow> (stream \<times> char) list \<Rightarrow> string" where
  "bytes_of s out = map snd (filter (\<lambda>(s', _). s' = s) out)"

definition lines_of :: "stream \<Rightarrow> capture \<Rightarrow> string list" where
  "lines_of s c = map snd (filter (\<lambda>(s', _). s' = s) (cp_log c))"

section \<open>The invariant\<close>

definition scanning :: "reader \<Rightarrow> nat" where
  "scanning r = (case r of Scanning l \<Rightarrow> 1 | Stopped e \<Rightarrow> 0)"

text \<open>What is to come on a stream completes what was traced to what the stream has.\<close>

definition stream_ok :: "nat \<Rightarrow> (stream \<times> char) list \<Rightarrow> capture \<Rightarrow> stream \<Rightarrow> bool" where
  "stream_ok cap out c s \<longleftrightarrow>
     (let r = cp_reader c s; rest = cp_pipe c s @ bytes_of s (cp_todo c)
      in reader_ok r \<and> length (cp_pipe c s) \<le> cap
         \<and> lines_of s c @ fst (scan_from r rest) = fst (captured (bytes_of s out))
         \<and> snd (scan_from r rest) = snd (captured (bytes_of s out))
         \<and> unread r rest = unread (Scanning []) (bytes_of s out))"

definition capture_ok :: "nat \<Rightarrow> (stream \<times> char) list \<Rightarrow> capture \<Rightarrow> bool" where
  "capture_ok cap out c \<longleftrightarrow> (\<forall>s. stream_ok cap out c s)
     \<and> cp_wg c = int (scanning (cp_reader c Stdout) + scanning (cp_reader c Stderr))
     \<and> (cp_pc c \<noteq> InWgWait \<longrightarrow> cp_wg c = 0) \<and> (cp_exited c \<longrightarrow> cp_todo c = []) \<and> (cp_pc c = Collected \<longrightarrow> cp_exited c)"

lemma capture_start_ok: "capture_ok cap out (capture_start out)"
  by (simp add: capture_ok_def stream_ok_def capture_start_def reader_ok_def max_token_def lines_of_def scan_from_captured
      scanning_def)

lemma bytes_of_Cons: "bytes_of s ((s', b) # out) = (if s' = s then b # bytes_of s out else bytes_of s out)"
  by (simp add: bytes_of_def)

lemma lines_of_moves:
  "lines_of s (reader_moves s' rl c) = lines_of s c @ (if s' = s then snd rl else [])"
  by (auto simp: lines_of_def reader_moves_def filter_map comp_def)

lemma reader_moves_fields [simp]:
  "cp_todo (reader_moves s rl c) = cp_todo c" "cp_exited (reader_moves s rl c) = cp_exited c"
  "cp_pipe (reader_moves s rl c) = cp_pipe c" "cp_pc (reader_moves s rl c) = cp_pc c"
  "cp_reader (reader_moves s rl c) = (cp_reader c)(s := fst rl)"
  by (simp_all add: reader_moves_def)

lemma reader_moves_wg:
  "cp_reader c s = Scanning l \<Longrightarrow> cp_wg c = int (scanning (cp_reader c Stdout) + scanning (cp_reader c Stderr)) \<Longrightarrow>
     cp_wg (reader_moves s rl c)
       = int (scanning (cp_reader (reader_moves s rl c) Stdout) + scanning (cp_reader (reader_moves s rl c) Stderr))"
  by (cases s) (auto simp: reader_moves_def scanning_def split: reader.split)

lemma stream_ok_other:
  "stream_ok cap out c s \<Longrightarrow> cp_reader c' s = cp_reader c s \<Longrightarrow> cp_pipe c' s = cp_pipe c s \<Longrightarrow>
     bytes_of s (cp_todo c') = bytes_of s (cp_todo c) \<Longrightarrow> lines_of s c' = lines_of s c \<Longrightarrow> stream_ok cap out c' s"
  by (simp add: stream_ok_def)

lemma capture_ok_scanning: "capture_ok cap out c \<Longrightarrow> cp_reader c s = Scanning l \<Longrightarrow> cp_pc c = InWgWait"
  by (cases s) (auto simp: capture_ok_def scanning_def split: reader.splits)

lemma capture_ok_step:
  assumes ok: "capture_ok cap out c" and st: "capture_step cap c e c'"
  shows "capture_ok cap out c'"
proof -
  have so: "stream_ok cap out c s" for s using ok by (simp add: capture_ok_def)
  have wg: "cp_wg c = int (scanning (cp_reader c Stdout) + scanning (cp_reader c Stderr))" using ok by (simp add: capture_ok_def)
  note other = stream_ok_other [OF so]
  from st show ?thesis
  proof cases
    case (cs_write s b rest)
    have "stream_ok cap out c' s'" for s'
    proof (cases "s' = s")
      case True
      then show ?thesis using so [of s] cs_write by (simp add: stream_ok_def bytes_of_Cons lines_of_def)
    next
      case False
      then show ?thesis using cs_write by (intro other) (simp_all add: bytes_of_Cons lines_of_def)
    qed
    then show ?thesis using ok cs_write by (auto simp: capture_ok_def)
  next
    case cs_exit
    have "stream_ok cap out c' s'" for s' using cs_exit by (intro other) (simp_all add: lines_of_def)
    then show ?thesis using ok cs_exit by (auto simp: capture_ok_def)
  next
    case (cs_read s l b bs)
    have "stream_ok cap out c' s'" for s'
    proof (cases "s' = s")
      case True
      have "reader_ok (fst (scan_byte l b))" using so [of s] cs_read(3) scan_byte_ok by (simp add: stream_ok_def Let_def)
      then show ?thesis using so [of s] cs_read True
        by (simp add: stream_ok_def lines_of_moves Let_def split_beta) (simp add: lines_of_def)
    next
      case False
      then show ?thesis using cs_read by (intro other) (simp_all add: lines_of_moves, simp add: lines_of_def)
    qed
    then show ?thesis using ok cs_read capture_ok_scanning [OF ok cs_read(3)]
        reader_moves_wg [of "c\<lparr>cp_pipe := (cp_pipe c)(s := bs)\<rparr>" s l "scan_byte l b"]
      by (simp add: capture_ok_def)
  next
    case (cs_eof s l)
    have t: "cp_todo c = []" using ok cs_eof(4) by (simp add: capture_ok_def)
    have "stream_ok cap out c' s'" for s'
    proof (cases "s' = s")
      case True
      then show ?thesis using so [of s] cs_eof t by (simp add: stream_ok_def lines_of_moves reader_ok_def bytes_of_def)
    next
      case False
      then show ?thesis using cs_eof by (intro other) (simp_all add: lines_of_moves)
    qed
    then show ?thesis using ok cs_eof capture_ok_scanning [OF ok cs_eof(3)] reader_moves_wg [OF cs_eof(3) wg]
      by (simp add: capture_ok_def)
  next
    case cs_wg
    have "stream_ok cap out c' s'" for s' using cs_wg by (intro other) (simp_all add: lines_of_def)
    then show ?thesis using ok cs_wg by (auto simp: capture_ok_def)
  next
    case cs_reap
    have "stream_ok cap out c' s'" for s' using cs_reap by (intro other) (simp_all add: lines_of_def)
    then show ?thesis using ok cs_reap by (auto simp: capture_ok_def)
  qed
qed

definition capture_init :: "(stream \<times> char) list \<Rightarrow> capture \<Rightarrow> bool" where
  "capture_init out c \<longleftrightarrow> c = capture_start out"

interpretation capture_life: invariant_of "capture_init out" "capture_step cap" "capture_ok cap out" for out cap
  by unfold_locales (simp_all add: capture_init_def capture_start_ok capture_ok_step)

section \<open>Every command comes to rest\<close>

definition capture_measure :: "capture \<Rightarrow> nat" where
  "capture_measure c =
     3 * length (cp_todo c) + 2 * (length (cp_pipe c Stdout) + length (cp_pipe c Stderr)) + (if cp_exited c then 0 else 1)
     + scanning (cp_reader c Stdout) + scanning (cp_reader c Stderr)
     + (case cp_pc c of InWgWait \<Rightarrow> 2 | InCmdWait \<Rightarrow> 1 | Collected \<Rightarrow> 0)"

lemma scanning_bounds: "scanning r \<le> 1" "scanning (Scanning l) = 1" "scanning (Stopped e) = 0"
  by (simp_all add: scanning_def split: reader.split)

lemma capture_decreases: "capture_step cap c e c' \<Longrightarrow> capture_measure c' < capture_measure c"
proof (erule capture_stepE)
  fix s l b bs
  assume a: "cp_reader c s = Scanning l" "cp_pipe c s = b # bs"
    "c' = reader_moves s (scan_byte l b) (c\<lparr>cp_pipe := (cp_pipe c)(s := bs)\<rparr>)"
  then show ?thesis
    using scanning_bounds(1) [of "fst (scan_byte l b)"] by (cases s) (simp_all add: capture_measure_def scanning_bounds)
next
  fix s l
  assume "cp_reader c s = Scanning l" "c' = reader_moves s (Stopped None, scan_eof l) c"
  then show ?thesis by (cases s) (simp_all add: capture_measure_def scanning_bounds)
next
  fix s b rest
  assume "cp_todo c = (s, b) # rest" "c' = c\<lparr>cp_todo := rest, cp_pipe := (cp_pipe c)(s := cp_pipe c s @ [b])\<rparr>"
  then show ?thesis by (cases s) (simp_all add: capture_measure_def)
qed (simp_all add: capture_measure_def)

lemma capture_run_bounded:
  "run_of (capture_step cap) c es c' \<Longrightarrow> length es + capture_measure c' \<le> capture_measure c"
proof (induction rule: run_of.induct)
  case (run_cons c e c1 es c')
  then show ?case using capture_decreases [OF run_cons.hyps(1)] by simp
qed simp

text \<open>A process can exit only if what the readers leave unread fits into the pipes; then it does.\<close>

definition fits :: "nat \<Rightarrow> (stream \<times> char) list \<Rightarrow> stream \<Rightarrow> bool" where
  "fits cap out s \<longleftrightarrow> length (unread (Scanning []) (bytes_of s out)) \<le> cap"

lemma capture_exited_fits:
  assumes "capture_ok cap out c" and "cp_exited c"
  shows "fits cap out s"
proof -
  have t: "cp_todo c = []" and so: "stream_ok cap out c s" using assms by (simp_all add: capture_ok_def)
  then have "unread (cp_reader c s) (cp_pipe c s) = unread (Scanning []) (bytes_of s out)" "length (cp_pipe c s) \<le> cap"
    by (simp_all add: stream_ok_def Let_def bytes_of_def)
  then show ?thesis using unread_length [of "cp_reader c s" "cp_pipe c s"] by (simp add: fits_def)
qed

lemma capture_progress:
  assumes ok: "capture_ok cap out c" and "0 < cap" and f: "\<And>s. fits cap out s" and pc: "cp_pc c \<noteq> Collected"
  shows "\<exists>e c'. capture_step cap c e c'"
proof (rule ccontr)
  assume "\<not> ?thesis"
  then have no: "\<not> capture_step cap c e c'" for e c' by blast
  have empty: "cp_pipe c s = []" if "cp_reader c s = Scanning l" for s l
    using no [of "CRead s"] cs_read [OF that] by (cases "cp_pipe c s") blast+
  have "cp_todo c = []"
  proof (rule ccontr)
    assume "cp_todo c \<noteq> []"
    then obtain s b rest where t: "cp_todo c = (s, b) # rest" by (metis list.exhaust surj_pair)
    then have full: "cap \<le> length (cp_pipe c s)" using no [of "CWrite s"] cs_write [OF t] by (metis not_le)
    then obtain e where e: "cp_reader c s = Stopped e" using empty [of s] \<open>0 < cap\<close> by (cases "cp_reader c s") auto
    have "stream_ok cap out c s" using ok by (simp add: capture_ok_def)
    then have "cp_pipe c s @ b # bytes_of s rest = unread (Scanning []) (bytes_of s out)"
      by (simp add: stream_ok_def e t bytes_of_Cons Let_def)
    from arg_cong [OF this, of length] show False using f [of s] full by (simp add: fits_def)
  qed
  then have x: "cp_exited c" using no [of CExit] cs_exit by blast
  have "False" if "cp_reader c s = Scanning l" for s l
    using no [of "CEof s"] cs_eof [OF that x empty [OF that]] by blast
  then have "scanning (cp_reader c s) = 0" for s by (cases "cp_reader c s") (auto simp: scanning_bounds)
  then have "cp_wg c = 0" using ok by (simp add: capture_ok_def)
  then show False using no [of CWgDone] no [of CReaped] cs_wg [of c] cs_reap [OF _ x] pc by (metis wait_pc.exhaust)
qed

lemma capture_collected:
  assumes ok: "capture_ok cap out c" and "cp_pc c = Collected"
  shows "lines_of s c = fst (captured (bytes_of s out)) \<and> cp_reader c s = Stopped (snd (captured (bytes_of s out)))"
proof -
  have "cp_pc c \<noteq> InWgWait" using assms(2) by simp
  then obtain e where "cp_reader c s = Stopped e"
    using capture_ok_scanning [OF ok] by (cases "cp_reader c s") blast+
  moreover have "stream_ok cap out c s" using ok by (simp add: capture_ok_def)
  ultimately show ?thesis by (simp add: stream_ok_def Let_def)
qed

lemma unread_long:
  assumes "newline \<notin> set l" and "length l = max_token"
  shows "unread (Scanning []) (l @ rest) = rest"
proof -
  have "unread (Scanning k) (l @ rest) = rest"
    if "newline \<notin> set l" "length k + length l = max_token" "l \<noteq> []" for k l
    using that
  proof (induction l arbitrary: k)
    case (Cons b l)
    have n: "b \<noteq> newline" "newline \<notin> set l" using Cons.prems(1) by auto
    show ?case
    proof (cases "l = []")
      case True
      then show ?thesis using n Cons.prems(2) by (simp add: scan_byte_def)
    next
      case False
      then have "0 < length l" by simp
      then have "Suc (length k) < max_token" using Cons.prems(2) by (simp del: length_greater_0_conv)
      then have "fst (scan_byte k b) = Scanning (k @ [b])" using n by (simp add: scan_byte_def)
      then show ?thesis using Cons.IH [OF n(2) _ False, of "k @ [b]"] Cons.prems(2) by simp
    qed
  qed simp
  moreover have "l \<noteq> []" using assms(2) by (auto simp: max_token_def)
  ultimately show ?thesis using assms by simp
qed

lemma collected_final:
  assumes ok: "capture_ok cap out c" and pc: "cp_pc c = Collected"
  shows "\<not> capture_step cap c e c'"
proof
  have x: "cp_exited c" "cp_todo c = []" using assms by (auto simp: capture_ok_def)
  have "cp_reader c s \<noteq> Scanning l" for s l using capture_ok_scanning [OF ok] pc by auto
  moreover assume "capture_step cap c e c'"
  ultimately show False using x pc by (auto elim: capture_stepE)
qed

section \<open>Properties\<close>

text \<open>C14: A command whose readers leave no more unread than the pipes hold is always collected: however the
  process, the readers and the caller interleave, they make finitely many moves, and when none
  is left the caller has the process, and of each stream exactly the lines the scanner finds in
  it were traced, in their order.\<close>

theorem command_is_collected:
  assumes "0 < cap" and "fits cap out Stdout" and "fits cap out Stderr"
    and "run_of (capture_step cap) (capture_start out) es c"
  shows "length es \<le> 3 * length out + 5
    \<and> ((\<exists>e c'. capture_step cap c e c')
       \<or> cp_pc c = Collected \<and> cp_exited c
         \<and> (\<forall>s. lines_of s c = fst (captured (bytes_of s out)) \<and> cp_reader c s = Stopped (snd (captured (bytes_of s out)))))"
proof -
  have ok: "capture_ok cap out c" using capture_life.inv_run [OF assms(4)] capture_start_ok by simp
  have "capture_measure (capture_start out) = 3 * length out + 5"
    by (simp add: capture_measure_def capture_start_def scanning_bounds)
  then have "length es \<le> 3 * length out + 5" using capture_run_bounded [OF assms(4)] by simp
  moreover have "fits cap out s" for s using assms(2,3) by (cases s) simp_all
  then have "(\<exists>e c'. capture_step cap c e c') \<or> cp_pc c = Collected" using capture_progress [OF ok assms(1)] by blast
  moreover have "cp_pc c = Collected \<Longrightarrow> cp_exited c" using ok by (simp add: capture_ok_def)
  ultimately show ?thesis using capture_collected [OF ok] by blast
qed

text \<open>A short line on one of the streams, with pipes of a single byte.\<close>

lemma command_is_collected_witness:
  "\<exists>c. run_of (capture_step 1) (capture_start [(Stdout, CHR ''a'')])
      [CWrite Stdout, CRead Stdout, CExit, CEof Stdout, CEof Stderr, CWgDone, CReaped] c
    \<and> lines_of Stdout c = [''a''] \<and> lines_of Stderr c = []"
proof -
  let ?b = "CHR ''a''"
  let ?c0 = "capture_start [(Stdout, ?b)]"
  let ?c1 = "?c0\<lparr>cp_todo := [], cp_pipe := (cp_pipe ?c0)(Stdout := cp_pipe ?c0 Stdout @ [?b])\<rparr>"
  let ?c2 = "reader_moves Stdout (scan_byte [] ?b) (?c1\<lparr>cp_pipe := (cp_pipe ?c1)(Stdout := [])\<rparr>)"
  let ?c3 = "?c2\<lparr>cp_exited := True\<rparr>"
  let ?c4 = "reader_moves Stdout (Stopped None, scan_eof [?b]) ?c3"
  let ?c5 = "reader_moves Stderr (Stopped None, scan_eof []) ?c4"
  let ?c6 = "?c5\<lparr>cp_pc := InCmdWait\<rparr>" let ?c7 = "?c6\<lparr>cp_pc := Collected\<rparr>"
  have b: "scan_byte [] ?b = (Scanning [?b], [])" by (simp add: scan_byte_def newline_def max_token_def)
  have 1: "capture_step 1 ?c0 (CWrite Stdout) ?c1" by (intro cs_write) (simp_all add: capture_start_def)
  have 2: "capture_step 1 ?c1 (CRead Stdout) ?c2" by (rule cs_read) (simp_all add: capture_start_def)
  have 3: "capture_step 1 ?c2 CExit ?c3" by (rule cs_exit) (simp_all add: capture_start_def)
  have 4: "capture_step 1 ?c3 (CEof Stdout) ?c4" by (rule cs_eof) (simp_all add: capture_start_def b)
  have 5: "capture_step 1 ?c4 (CEof Stderr) ?c5" by (rule cs_eof) (simp_all add: capture_start_def b)
  have 6: "capture_step 1 ?c5 CWgDone ?c6" by (rule cs_wg) (simp_all add: capture_start_def b reader_moves_def)
  have 7: "capture_step 1 ?c6 CReaped ?c7" by (rule cs_reap) (simp_all add: capture_start_def b)
  note c = run_cons [where step = "capture_step 1"]
  have "run_of (capture_step 1) ?c0 [CWrite Stdout, CRead Stdout, CExit, CEof Stdout, CEof Stderr, CWgDone, CReaped] ?c7"
    by (rule c [OF 1 c [OF 2 c [OF 3 c [OF 4 c [OF 5 c [OF 6 run_single [where step = "capture_step 1", OF 7]]]]]]])
  moreover have "cp_pc ?c7 = Collected" by simp
  ultimately obtain d where r: "run_of (capture_step 1) ?c0 [CWrite Stdout, CRead Stdout, CExit, CEof Stdout, CEof Stderr, CWgDone, CReaped] d"
    and pc: "cp_pc d = Collected" by blast
  have f: "fits 1 [(Stdout, ?b)] s" for s by (cases s) (simp_all add: fits_def bytes_of_def b)
  have "capture_ok 1 [(Stdout, ?b)] d" using capture_life.inv_run [OF r] capture_start_ok by simp
  then have "\<not> (\<exists>e c'. capture_step 1 d e c')" using collected_final pc by blast
  then have l: "lines_of s d = fst (captured (bytes_of s [(Stdout, ?b)]))" for s
    using command_is_collected [OF _ f f r] by simp
  have "captured ''a'' = ([''a''], None)" "captured [] = ([], None)"
    using scan_lines_last [of "''a''"] scan_lines_last [of "[]"]
    by (simp_all add: captured_def newline_def max_token_def scan_eof_def drop_cr_def)
  then show ?thesis using r l [of Stdout] l [of Stderr] by (intro exI [of _ d]) (simp add: bytes_of_def)
qed

text \<open>C34: A line that is too long can hang a backup: the reader gives up at it without draining the pipe. If
  the process writes more after that than the pipe holds, it never exits, and the caller waits for
  ever: no run collects it, and every run comes to rest before.\<close>

theorem long_line_hangs:
  assumes "newline \<notin> set l" and "length l = max_token" and "bytes_of s out = l @ rest" and "cap < length rest"
    and "run_of (capture_step cap) (capture_start out) es c"
  shows "length es \<le> 3 * length out + 5 \<and> \<not> cp_exited c \<and> cp_pc c \<noteq> Collected"
proof -
  have ok: "capture_ok cap out c" using capture_life.inv_run [OF assms(5)] capture_start_ok by simp
  have "\<not> fits cap out s" using unread_long [OF assms(1,2), of rest] assms(3,4) by (simp add: fits_def)
  then have "\<not> cp_exited c" using capture_exited_fits [OF ok] by blast
  moreover have "length es \<le> 3 * length out + 5"
    using capture_run_bounded [OF assms(5)] by (simp add: capture_measure_def capture_start_def scanning_bounds)
  ultimately show ?thesis using ok by (auto simp: capture_ok_def)
qed

lemma long_line_hangs_witness:
  "\<exists>c. run_of (capture_step 1) (capture_start (replicate (Suc (Suc max_token)) (Stderr, CHR ''x''))) [CWrite Stderr] c
    \<and> \<not> cp_exited c \<and> cp_pc c \<noteq> Collected"
proof -
  let ?out = "replicate (Suc (Suc max_token)) (Stderr, CHR ''x'')"
  have "bytes_of Stderr ?out = replicate (max_token + 2) (CHR ''x'')" by (simp add: bytes_of_def)
  then have b: "bytes_of Stderr ?out = replicate max_token (CHR ''x'') @ replicate 2 (CHR ''x'')"
    by (simp only: replicate_add)
  obtain c where r: "run_of (capture_step 1) (capture_start ?out) [CWrite Stderr] c"
    using run_single [where step = "capture_step 1", OF cs_write [of "capture_start ?out"]] by (simp add: capture_start_def)
  have "newline \<notin> set (replicate max_token (CHR ''x''))" by (simp add: newline_def)
  from long_line_hangs [OF this _ b _ r] show ?thesis using r by auto
qed

end
