(* ===== verification/App_Http.thy ===== *)
theory App_Http imports App_Web Graylog begin

text \<open>
  The web server of \<open>app/server.go\<close> around the page: its routes and the answer of the index
  handler, as the request log (\<open>graylog/mux.go\<close>) sees it. The template engine is a parameter:
  what it renders, or \<open>None\<close> when it fails. Matching a request to a route is the router's.
\<close>

datatype handler = PromHandler | IndexHandler

record http_server =
  hs_addr :: string
  hs_read_timeout :: duration
  hs_write_timeout :: duration
  hs_routes :: "(string \<times> string \<times> handler) list"

definition NewHTTP :: "string \<Rightarrow> http_server" where
  "NewHTTP listen =
     \<lparr>hs_addr = listen, hs_read_timeout = 90 * second, hs_write_timeout = 1 * second,
      hs_routes = [(''/-/metrics'', ''GET'', PromHandler), (''/'', ''GET'', IndexHandler)]\<rparr>"

text \<open>The headers set and what is written; \<open>http.Error\<close> adds a line feed to its message.\<close>

definition index_response :: "string option \<Rightarrow> (string \<times> string) list \<times> response_op list" where
  "index_response page =
     (case page of
        None \<Rightarrow>
          ([(''Content-Type'', ''text/plain; charset=utf-8''), (''X-Content-Type-Options'', ''nosniff'')],
           [WriteHeader 500, WriteBody (''error building status table'' @ [CHR 0x0A])])
      | Some html \<Rightarrow>
          ([(''Content-Type'', ''text/html; charset=utf-8''), (''Content-Length'', int_str (int (length html)))],
           [WriteHeader 200, WriteBody html]))"

text \<open>The log shows the status that was sent, and nothing is written before it.\<close>

lemma index_logged:
  "map_of (fst (log_request req (snd (index_response page)) dur)) ''status''
     = Some (if page = None then ''500'' else ''200'')"
proof -
  have "int_str 500 = ''500''" "int_str 200 = ''200''" by code_simp+
  then show ?thesis by (simp add: log_request_def index_response_def Let_def split: option.split)
qed

lemma index_length:
  assumes "snd (index_response page) = [WriteHeader 200, WriteBody body]"
  shows "map_of (fst (index_response page)) ''Content-Length'' = Some (int_str (int (length body)))"
  using assms by (auto simp: index_response_def split: option.splits)

end
