(* ===== verification/Go_Float.thy ===== *)
theory Go_Float imports Complex_Main "HOL-Library.Log_Nat" begin

text \<open>
  The arithmetic of \<open>float64\<close> on values that are not negative, as far as the program computes
  with it: every operation is the exact rational result rounded to 53 significant bits, to the
  nearest such number and to the even one in a tie. The numbers of the program are neither so
  small nor so large that a result is subnormal or infinite.
\<close>

section \<open>Rounding to an integer\<close>

definition round_even :: "rat \<Rightarrow> int" where
  "round_even y =
     (let q = \<lfloor>y\<rfloor>; r = y - of_int q
      in if r < 1 / 2 then q else if 1 / 2 < r then q + 1 else if even q then q else q + 1)"

lemma round_even_error: "\<bar>of_int (round_even y) - y\<bar> \<le> 1 / 2"
  using of_int_floor_le [of y] floor_correct [of y] by (auto simp: round_even_def Let_def abs_le_iff)

lemma round_even_floor: "\<lfloor>y\<rfloor> \<le> round_even y \<and> round_even y \<le> \<lfloor>y\<rfloor> + 1"
  by (simp add: round_even_def Let_def)

lemma round_even_of_int [simp]: "round_even (of_int i) = i"
  by (simp add: round_even_def)

lemma round_even_mono: "y \<le> z \<Longrightarrow> round_even y \<le> round_even z"
proof (cases "\<lfloor>y\<rfloor> = \<lfloor>z\<rfloor>")
  case True
  assume "y \<le> z"
  then show ?thesis using True by (auto simp: round_even_def Let_def)
next
  case False
  assume "y \<le> z"
  then have "\<lfloor>y\<rfloor> + 1 \<le> \<lfloor>z\<rfloor>" using False floor_mono [of y z] by linarith
  then show ?thesis using round_even_floor [of y] round_even_floor [of z] by linarith
qed

section \<open>Rounding to 53 bits\<close>

text \<open>The exponent of the leading bit.\<close>

definition expo :: "rat \<Rightarrow> int" where
  "expo x =
     (let (n, d) = quotient_of x; k = int (floorlog 2 (nat n)) - int (floorlog 2 (nat d))
      in if x < 2 powi k then k - 1 else k)"

definition fl :: "rat \<Rightarrow> rat" where
  "fl x = (if x \<le> 0 then 0 else of_int (round_even (x * 2 powi (52 - expo x))) * 2 powi (expo x - 52))"

lemma pow_less: "(2::rat) powi a < 2 powi b \<longleftrightarrow> a < b"
  using power_int_strict_increasing [of a b "2::rat"] power_int_increasing [of b a "2::rat"] by force

lemma pow_le: "(2::rat) powi a \<le> 2 powi b \<longleftrightarrow> a \<le> b"
  using pow_less [of b a] by (simp add: not_less [symmetric])

lemma expo_bounds:
  assumes "0 < x"
  shows "2 powi expo x \<le> x" and "x < 2 powi (expo x + 1)"
proof -
  obtain n d where q: "quotient_of x = (n, d)" by fastforce
  have d: "0 < d" using quotient_of_denom_pos [OF q] .
  have x: "x = of_int n / of_int d" using quotient_of_div [OF q] .
  then have n: "0 < n" using assms d by (simp add: zero_less_divide_iff)
  let ?a = "floorlog 2 (nat n)" and ?c = "floorlog 2 (nat d)"
  have ac: "0 < ?a" "0 < ?c" using n d by (simp_all add: floorlog_def)
  have bn: "2 ^ (?a - 1) \<le> nat n" "nat n < 2 ^ ?a" using floorlog_bounds [of "nat n" 2] n by simp_all
  have bd: "2 ^ (?c - 1) \<le> nat d" "nat d < 2 ^ ?c" using floorlog_bounds [of "nat d" 2] d by simp_all
  have rn: "(2::rat) ^ (?a - 1) \<le> of_int n" "of_int n < (2::rat) ^ ?a"
    using bn n by (metis of_nat_le_iff of_nat_less_iff of_nat_nat of_nat_numeral of_nat_power less_imp_le of_int_of_nat_eq)+
  have rd: "(2::rat) ^ (?c - 1) \<le> of_int d" "of_int d < (2::rat) ^ ?c"
    using bd d by (metis of_nat_le_iff of_nat_less_iff of_nat_nat of_nat_numeral of_nat_power less_imp_le of_int_of_nat_eq)+
  let ?k = "int ?a - int ?c"
  have p: "(2::rat) powi (?k - 1) = 2 ^ (?a - 1) / 2 ^ ?c" "(2::rat) powi (?k + 1) = 2 ^ ?a / 2 ^ (?c - 1)"
    using ac by (simp_all add: power_int_diff power_int_add flip: power_int_of_nat)
  have lo: "2 powi (?k - 1) \<le> x"
    unfolding p x using rn(1) rd(2) d n by (intro frac_le) simp_all
  have hi: "x < 2 powi (?k + 1)"
    unfolding p x using rn(2) rd(1) n by (intro frac_less) simp_all
  show "2 powi expo x \<le> x" "x < 2 powi (expo x + 1)"
    using lo hi q by (simp_all add: expo_def Let_def)
qed

lemma expo_unique:
  assumes "2 powi e \<le> x" and "x < 2 powi (e + 1)"
  shows "expo x = e"
proof -
  have x: "0 < x" using assms(1) by (rule less_le_trans [rotated]) simp
  have "(2::rat) powi expo x < 2 powi (e + 1)" "(2::rat) powi e < 2 powi (expo x + 1)"
    using expo_bounds [OF x] assms by linarith+
  then show ?thesis unfolding pow_less by simp
qed

lemma expo_mono: "0 < x \<Longrightarrow> x \<le> y \<Longrightarrow> expo x \<le> expo y"
proof -
  assume x: "0 < x" "x \<le> y"
  have "(2::rat) powi expo x < 2 powi (expo y + 1)"
    using expo_bounds(1) [OF x(1)] expo_bounds(2) [of y] x by linarith
  then show ?thesis unfolding pow_less by simp
qed

text \<open>The significand, before and after rounding.\<close>

lemma scaled_bounds:
  assumes "0 < x"
  shows "2 ^ 52 \<le> x * 2 powi (52 - expo x)" and "x * 2 powi (52 - expo x) < 2 ^ 53"
proof -
  have "2 powi expo x * 2 powi (52 - expo x) \<le> x * 2 powi (52 - expo x)"
    using expo_bounds(1) [OF assms] by (intro mult_right_mono) simp_all
  then show "2 ^ 52 \<le> x * 2 powi (52 - expo x)" by (simp flip: power_int_add)
  have "x * 2 powi (52 - expo x) < 2 powi (expo x + 1) * 2 powi (52 - expo x)"
    using expo_bounds(2) [OF assms] by (intro mult_strict_right_mono) simp_all
  then show "x * 2 powi (52 - expo x) < 2 ^ 53" by (simp flip: power_int_add)
qed

lemma fl_nonneg [simp]: "0 \<le> fl x"
proof (cases "0 < x")
  case True
  have "0 \<le> round_even (x * 2 powi (52 - expo x))"
    using round_even_mono [of 0 "x * 2 powi (52 - expo x)"] round_even_of_int [of 0] True by simp
  then show ?thesis by (simp add: fl_def)
qed (simp add: fl_def)

lemma fl_between:
  assumes "0 < x"
  shows "2 powi expo x \<le> fl x" and "fl x \<le> 2 powi (expo x + 1)"
proof -
  let ?y = "x * 2 powi (52 - expo x)"
  have r: "2 ^ 52 \<le> round_even ?y" "round_even ?y \<le> 2 ^ 53"
    using round_even_mono [of "of_int (2 ^ 52)" ?y] round_even_mono [of ?y "of_int (2 ^ 53)"] scaled_bounds [OF assms]
    unfolding round_even_of_int by simp_all
  have f: "fl x = of_int (round_even ?y) * 2 powi (expo x - 52)" using assms by (simp add: fl_def)
  have "(2::rat) ^ 52 \<le> of_int (round_even ?y)" "of_int (round_even ?y) \<le> (2::rat) ^ 53"
    using r by (simp_all add: of_int_le_iff [of "2 ^ 52", where 'a = rat, simplified] of_int_le_iff [of _ "2 ^ 53", where 'a = rat, simplified])
  then have "2 ^ 52 * 2 powi (expo x - 52) \<le> fl x" "fl x \<le> 2 ^ 53 * 2 powi (expo x - 52)"
    unfolding f by (intro mult_right_mono; simp)+
  moreover have "(2::rat) ^ 52 * 2 powi (expo x - 52) = 2 powi expo x" "(2::rat) ^ 53 * 2 powi (expo x - 52) = 2 powi (expo x + 1)"
    using power_int_add [of "2::rat" 52 "expo x - 52"] power_int_add [of "2::rat" 53 "expo x - 52"]
    by (simp_all add: add.commute)
  ultimately show "2 powi expo x \<le> fl x" "fl x \<le> 2 powi (expo x + 1)" by simp_all
qed

text \<open>Rounding keeps the order.\<close>

lemma fl_mono: "x \<le> y \<Longrightarrow> fl x \<le> fl y"
proof (cases "0 < x")
  case True
  assume xy: "x \<le> y"
  show ?thesis
  proof (cases "expo x = expo y")
    case e: True
    have "x * 2 powi (52 - expo y) \<le> y * 2 powi (52 - expo y)" using xy by (intro mult_right_mono) simp_all
    then have "round_even (x * 2 powi (52 - expo y)) \<le> round_even (y * 2 powi (52 - expo y))" by (rule round_even_mono)
    then show ?thesis using True xy by (simp add: fl_def e)
  next
    case False
    then have "(2::rat) powi (expo x + 1) \<le> 2 powi expo y" using expo_mono [OF True xy] unfolding pow_le by simp
    then show ?thesis using fl_between [OF True] fl_between [of y] True xy by linarith
  qed
next
  case False
  then show ?thesis using fl_nonneg [of y] by (simp add: fl_def)
qed

text \<open>The relative error is at most \<open>2 ^ - 53\<close>.\<close>

abbreviation unit_roundoff :: rat where
  "unit_roundoff \<equiv> 1 / 2 ^ 53"

lemma fl_error:
  assumes "0 \<le> x"
  shows "\<bar>fl x - x\<bar> \<le> x * unit_roundoff"
proof (cases "x = 0")
  case False
  let ?s = "2 powi (52 - expo x) :: rat" and ?t = "2 powi (expo x - 52) :: rat"
  have x: "0 < x" using False assms by simp
  have st: "?s * ?t = 1" by (simp flip: power_int_add)
  have "fl x - x = (of_int (round_even (x * ?s)) - x * ?s) * ?t"
    using x st by (simp add: fl_def algebra_simps)
  then have "\<bar>fl x - x\<bar> = \<bar>of_int (round_even (x * ?s)) - x * ?s\<bar> * ?t" by (simp add: abs_mult)
  also have "\<dots> \<le> 1 / 2 * ?t" using round_even_error by (intro mult_right_mono) simp_all
  also have "\<dots> = 2 powi expo x / 2 ^ 53" by (simp add: power_int_diff)
  also have "\<dots> \<le> x / 2 ^ 53" using expo_bounds(1) [OF x] by (intro divide_right_mono) simp_all
  finally show ?thesis by simp
qed (simp add: fl_def)

text \<open>Integers of at most 53 bits are not rounded.\<close>

lemma fl_exact:
  assumes "n < 2 ^ 53"
  shows "fl (of_nat n) = of_nat n"
proof (cases "n = 0")
  case False
  let ?x = "of_nat n :: rat"
  have x: "0 < ?x" using False by simp
  have "?x < 2 ^ 53" using assms by (metis of_nat_less_iff of_nat_numeral of_nat_power)
  then have "(2::rat) powi expo ?x < 2 powi 53" using expo_bounds(1) [OF x] by simp
  then have "expo ?x < 53" unfolding pow_less .
  then have "0 \<le> 52 - expo ?x" by simp
  then obtain k where k: "52 - expo ?x = int k" by (rule nonneg_int_cases)
  have "?x * 2 powi (52 - expo ?x) = of_int (int n * 2 ^ k)" by (simp add: k)
  then have "round_even (?x * 2 powi (52 - expo ?x)) = int n * 2 ^ k" by (simp only: round_even_of_int)
  moreover have "(2::rat) ^ k * 2 powi (expo ?x - 52) = 1"
  proof -
    have "int k + (expo ?x - 52) = 0" using k by simp
    then show ?thesis using power_int_add [of "2::rat" "int k" "expo ?x - 52"] by simp
  qed
  ultimately show ?thesis using x by (simp add: fl_def)
qed (simp add: fl_def)

end
