(* ===== verification/App_Page.thy ===== *)
theory App_Page imports App_Web Go_Float begin

text \<open>
  The rows of the overview page: what the template (\<open>app/static/index.html\<close>) shows of a host with the
  functions of \<open>app/server.go\<close>, and the bars of \<open>tplPercentUsage\<close>, the shares of a host's space in
  percent, cut to two digits, with the roundings of \<open>float64\<close>.
\<close>

section \<open>Rows\<close>

datatype percentage = Percent rat | PercentInf | PercentNaN

text \<open>The conversion of the operands, the three operations on them, and the cut.\<close>

definition tplPercentUsage :: "metrics \<Rightarrow> 64 word \<Rightarrow> percentage" where
  "tplPercentUsage m val =
     (let v = fl (of_int (uint val)); t = fl (of_int (uint (SpaceUsedTotal m)))
      in if t = 0 then (if v = 0 then PercentNaN else PercentInf)
         else (let r = fl (fl (100 * v) / t) in Percent (fl (of_int \<lfloor>fl (r * 100)\<rfloor> / 100))))"

definition tplHumanBytes :: "(64 word \<Rightarrow> string) \<Rightarrow> 64 word \<Rightarrow> string" where
  "tplHumanBytes bytes val = bytes val"

definition usage_bars :: "metrics \<Rightarrow> percentage list" where
  "usage_bars m =
     [tplPercentUsage m (SpaceUsedByDataset m), tplPercentUsage m (SpaceUsedBySnapshots m),
      tplPercentUsage m (SpaceUsedByChildren m), tplPercentUsage m (SpaceUsedByRefReservation m)]"

text \<open>The cells of a host that was started. The template's test of the schedule is always true: a time is a
  struct.\<close>

record page_cells =
  pc_started :: string
  pc_succeeded :: "(string \<times> string) option"
  pc_failed :: "(string \<times> string) option"
  pc_scheduled :: string
  pc_usage :: string
  pc_bars :: "percentage list"
  pc_total :: string
  pc_compression :: string

record page_row =
  pr_host :: string
  pr_class :: string
  pr_icon :: string
  pr_status :: string
  pr_cells :: "page_cells option"

definition page_row :: "page_fmt \<Rightarrow> (64 word \<Rightarrow> string) \<Rightarrow> (float64 \<Rightarrow> string) \<Rightarrow> string \<times> metrics \<Rightarrow> page_row" where
  "page_row pf bytes ratio hm =
     (let (h, m) = hm; tag = (\<lambda>t. fst (tplFmtTime pf (Some t) True))
      in \<lparr>pr_host = h, pr_class = tplStatusClass m, pr_icon = tplStatusIcon m, pr_status = status_String (Status m),
          pr_cells =
            (if is_zero (StartedAt m) then None
             else Some \<lparr>pc_started = tag (StartedAt m),
                        pc_succeeded = map_option (\<lambda>t. (tag t, tplFmtDuration (SuccessDuration m))) (SucceededAt m),
                        pc_failed = map_option (\<lambda>t. (tag t, tplFmtDuration (FailureDuration m))) (FailedAt m),
                        pc_scheduled = tag (ScheduledAt m), pc_usage = tplUsageDetails bytes m,
                        pc_bars = usage_bars m, pc_total = tplHumanBytes bytes (SpaceUsedTotal m),
                        pc_compression = ratio (CompressionFactor m)\<rparr>)\<rparr>)"

definition page_rows :: "page_fmt \<Rightarrow> (64 word \<Rightarrow> string) \<Rightarrow> (float64 \<Rightarrow> string) \<Rightarrow> app \<Rightarrow> page_row list" where
  "page_rows pf bytes ratio st = map (page_row pf bytes ratio) (export st)"

text \<open>One row per host, in the order of the names; showing the page again changes nothing more.\<close>

lemma page_rows_hosts: "app_ok st \<Longrightarrow> sorted (map pr_host (page_rows pf bytes ratio st)) \<and> distinct (map pr_host (page_rows pf bytes ratio st))"
proof -
  have "map pr_host (page_rows pf bytes ratio st) = map fst (export st)"
    by (simp add: page_rows_def page_row_def Let_def case_prod_beta)
  moreover have k: "map fst (map (\<lambda>(h, m). (h, m\<lparr>m_job := None\<rparr>)) (a_hosts st)) = map fst (a_hosts st)"
    by (simp add: case_prod_unfold comp_def)
  have "app_ok st \<Longrightarrow> distinct (map fst (export st))" unfolding app_ok_def export_eq distinct_map_sort_fst k .
  moreover have "sorted (map fst (export st))" by (simp add: export_eq)
  ultimately show "app_ok st \<Longrightarrow> ?thesis" by simp
qed

lemma handleIndex_settles: "handleIndex (handleIndex st) = handleIndex st"
proof -
  have "at_seconds (at_seconds t) = at_seconds t" for t by (simp add: at_seconds_def unix_def)
  then have "show_host (show_host m) = show_host m" for m
    by (simp add: show_host_def fmt_time_pointer_eq [abs_def] option.map_comp comp_def)
  then show ?thesis by (simp add: handleIndex_def case_prod_unfold comp_def)
qed

section \<open>The functions of the template\<close>

datatype tpl_func =
    TplFmtTime | TplFmtDuration | TplStatusClass | TplStatusIcon | TplUnavailable | TplHumanBytes | TplUsageDetails
  | TplPercentUsage

definition tpl :: "(string \<times> tpl_func) list" where
  "tpl =
     [(''fmtTime'', TplFmtTime), (''fmtDuration'', TplFmtDuration), (''statusClass'', TplStatusClass),
      (''statusIcon'', TplStatusIcon), (''na'', TplUnavailable), (''humanBytes'', TplHumanBytes),
      (''usageDetails'', TplUsageDetails), (''percentUsage'', TplPercentUsage)]"

text \<open>The functions \<open>index.html\<close> calls with the numbers of their arguments, in order.\<close>

definition template_calls :: "(string \<times> nat) list" where
  "template_calls =
     [(''fmtTime'', 2), (''statusClass'', 1), (''statusIcon'', 1), (''na'', 0), (''na'', 0), (''na'', 0), (''na'', 0),
      (''na'', 0), (''na'', 0), (''fmtTime'', 2), (''fmtTime'', 2), (''fmtDuration'', 1), (''na'', 0), (''fmtTime'', 2),
      (''fmtDuration'', 1), (''na'', 0), (''fmtTime'', 2), (''na'', 0), (''usageDetails'', 1), (''percentUsage'', 2),
      (''percentUsage'', 2), (''percentUsage'', 2), (''percentUsage'', 2), (''humanBytes'', 1), (''printf'', 2)]"

text \<open>How many arguments the Go functions have.\<close>

fun tpl_arity :: "tpl_func \<Rightarrow> nat" where
  "tpl_arity TplFmtTime = 2"
| "tpl_arity TplPercentUsage = 2"
| "tpl_arity TplUnavailable = 0"
| "tpl_arity f = 1"

text \<open>The template parses, or \<open>template.Must\<close> would panic: it calls only registered functions and the built-in
  \<open>printf\<close>, each registered once and called with as many arguments as it has.\<close>

theorem template_parses:
  "distinct (map fst tpl)
    \<and> list_all (\<lambda>(f, n). f = ''printf'' \<or> map_option tpl_arity (map_of tpl f) = Some n) template_calls"
  by (simp add: tpl_def template_calls_def)

section \<open>Errors\<close>

lemma fl_le: "0 \<le> x \<Longrightarrow> fl x \<le> x * (1 + unit_roundoff)"
  using abs_le_D1 [OF fl_error [of x]] unfolding distrib_left by linarith

lemma fl_ge: "0 \<le> x \<Longrightarrow> x * (1 - unit_roundoff) \<le> fl x"
  using abs_le_D2 [OF fl_error [of x]] unfolding right_diff_distrib by linarith

lemma fl_zero_iff: "0 \<le> x \<Longrightarrow> fl x = 0 \<longleftrightarrow> x = 0"
  using fl_ge [of x] by (auto simp: fl_def)

text \<open>The number before the cut: ten thousand times the share, up to an error far below one.\<close>

lemma usage_scaled:
  assumes "0 \<le> x" and "0 < y" and "x \<le> (y :: rat)"
  shows "fl (fl (fl (100 * fl x) / fl y) * 100) \<le> 10000 * (x / y) + 1 / 10 ^ 11"
    and "10000 * (x / y) - 1 / 10 ^ 11 \<le> fl (fl (fl (100 * fl x) / fl y) * 100)"
proof -
  let ?u = "unit_roundoff"
  let ?p = "fl (100 * fl x)" and ?t = "fl y"
  let ?r = "fl (?p / ?t)"
  have y: "0 < y * (1 - ?u)" "y * (1 - ?u) \<le> ?t" "?t \<le> y * (1 + ?u)" using fl_ge [of y] fl_le [of y] assms by simp_all
  then have t: "0 < ?t" by linarith
  let ?q = "x / y"
  have q: "0 \<le> ?q" "?q \<le> 1" using assms by (simp_all add: divide_le_eq)
  have "?p \<le> 100 * fl x * (1 + ?u)" using fl_le [of "100 * fl x"] by simp
  also have "\<dots> \<le> 100 * (x * (1 + ?u)) * (1 + ?u)" using fl_le [OF assms(1)] by (intro mult_right_mono mult_left_mono) simp_all
  finally have p: "?p \<le> 100 * x * ((1 + ?u) * (1 + ?u))" by (simp add: algebra_simps)
  have p0: "100 * x * ((1 - ?u) * (1 - ?u)) \<le> ?p"
  proof -
    have "100 * (x * (1 - ?u)) * (1 - ?u) \<le> 100 * fl x * (1 - ?u)"
      using fl_ge [OF assms(1)] by (intro mult_right_mono mult_left_mono) simp_all
    also have "\<dots> \<le> ?p" using fl_ge [of "100 * fl x"] by simp
    finally show ?thesis by (simp add: algebra_simps)
  qed
  have d: "?p / ?t \<le> 100 * ?q * ((1 + ?u) * (1 + ?u) / (1 - ?u))"
  proof -
    have "?p / ?t \<le> (100 * x * ((1 + ?u) * (1 + ?u))) / (y * (1 - ?u))"
      using p y t assms(1) by (intro frac_le) simp_all
    then show ?thesis by simp
  qed
  have d0: "100 * ?q * ((1 - ?u) * (1 - ?u) / (1 + ?u)) \<le> ?p / ?t"
  proof -
    have "(100 * x * ((1 - ?u) * (1 - ?u))) / (y * (1 + ?u)) \<le> ?p / ?t"
      using p0 y t assms(1) by (intro frac_le) simp_all
    then show ?thesis by simp
  qed
  have pt: "0 \<le> ?p / ?t" using t by simp
  have s: "fl (?r * 100) \<le> ?p / ?t * (1 + ?u) * 100 * (1 + ?u)"
  proof -
    have "fl (?r * 100) \<le> ?r * 100 * (1 + ?u)" using fl_le [of "?r * 100"] by simp
    also have "\<dots> \<le> ?p / ?t * (1 + ?u) * 100 * (1 + ?u)" using fl_le [OF pt] by (intro mult_right_mono) simp_all
    finally show ?thesis .
  qed
  have s0: "?p / ?t * (1 - ?u) * 100 * (1 - ?u) \<le> fl (?r * 100)"
  proof -
    have "?p / ?t * (1 - ?u) * 100 * (1 - ?u) \<le> ?r * 100 * (1 - ?u)" using fl_ge [OF pt] by (intro mult_right_mono) simp_all
    also have "\<dots> \<le> fl (?r * 100)" using fl_ge [of "?r * 100"] by simp
    finally show ?thesis .
  qed
  let ?A = "(1 + ?u) * (1 + ?u) / (1 - ?u) * (1 + ?u) * (1 + ?u)" and ?B = "(1 - ?u) * (1 - ?u) / (1 + ?u) * (1 - ?u) * (1 - ?u)"
  have "?p / ?t * (1 + ?u) * 100 * (1 + ?u) \<le> 100 * ?q * ((1 + ?u) * (1 + ?u) / (1 - ?u)) * (1 + ?u) * 100 * (1 + ?u)"
    using d by (intro mult_right_mono) simp_all
  also have "\<dots> = 10000 * ?q * ?A" by simp
  also have "\<dots> \<le> 10000 * ?q * (1 + 1 / 10 ^ 15)" using q by (intro mult_left_mono) simp_all
  also have "\<dots> \<le> 10000 * ?q + 1 / 10 ^ 11" using q by (simp add: algebra_simps)
  finally show "fl (?r * 100) \<le> 10000 * ?q + 1 / 10 ^ 11" using s by linarith
  have "10000 * ?q - 1 / 10 ^ 11 \<le> 10000 * ?q * (1 - 1 / 10 ^ 15)" using q by (simp add: algebra_simps)
  also have "\<dots> \<le> 10000 * ?q * ?B" using q by (intro mult_left_mono) simp_all
  also have "\<dots> = 100 * ?q * ((1 - ?u) * (1 - ?u) / (1 + ?u)) * (1 - ?u) * 100 * (1 - ?u)"
    by simp
  also have "\<dots> \<le> ?p / ?t * (1 - ?u) * 100 * (1 - ?u)" using d0 by (intro mult_right_mono) simp_all
  finally show "10000 * ?q - 1 / 10 ^ 11 \<le> fl (?r * 100)" using s0 by linarith
qed

lemma fl_percent: "x \<le> 100 \<Longrightarrow> fl x \<le> 100"
  using fl_mono [of x 100] fl_exact [of 100] by simp

text \<open>Cutting such a number to an integer, and the last division.\<close>

lemma cut_percent:
  assumes "fl z \<le> 10000 * q + 1 / 10 ^ 11" and "10000 * q - 1 / 10 ^ 11 \<le> fl z" and "q \<le> 1"
  shows "fl (of_int \<lfloor>fl z\<rfloor> / 100) \<le> 100 \<and> 100 * q - 1 / 100 - 1 / 10 ^ 9 \<le> fl (of_int \<lfloor>fl z\<rfloor> / 100)
    \<and> fl (of_int \<lfloor>fl z\<rfloor> / 100) \<le> 100 * q + 1 / 10 ^ 9"
proof -
  let ?f = "of_int \<lfloor>fl z\<rfloor> :: rat" and ?p = "fl (of_int \<lfloor>fl z\<rfloor> / 100)"
  have f: "?f \<le> fl z" "fl z < ?f + 1" "0 \<le> ?f" using floor_correct [of "fl z"] fl_nonneg by simp_all
  have "fl z < 10001" using assms(1,3) by simp
  then have "\<lfloor>fl z\<rfloor> \<le> 10000" by linarith
  then have f4: "?f \<le> 10000" by simp
  have e: "\<bar>?p - ?f / 100\<bar> \<le> ?f / 100 * unit_roundoff" using fl_error [of "?f / 100"] f(3) by simp
  have "?f / 100 * unit_roundoff \<le> 10000 / 100 * unit_roundoff"
    by (intro mult_right_mono divide_right_mono f4) simp_all
  also have "\<dots> \<le> 1 / 10 ^ 10" by simp
  finally have "?f / 100 * unit_roundoff \<le> 1 / 10 ^ 10" .
  then have "?p \<le> ?f / 100 + 1 / 10 ^ 10" "?f / 100 - 1 / 10 ^ 10 \<le> ?p" using e by (simp_all only: abs_le_iff) linarith+
  then have "?p \<le> fl z / 100 + 1 / 10 ^ 10" "fl z / 100 - 1 / 100 - 1 / 10 ^ 10 \<le> ?p" using f(1,2) by linarith+
  moreover have "?p \<le> 100" using f4 by (intro fl_percent) simp
  ultimately show ?thesis using f assms(1,2) by simp
qed

text \<open>One bar, as long as its size is at most the total.\<close>

lemma usage_in_percent:
  assumes "uint val \<le> uint (SpaceUsedTotal m)"
  shows "if SpaceUsedTotal m = 0 then tplPercentUsage m val = PercentNaN
    else \<exists>p. tplPercentUsage m val = Percent p \<and> 0 \<le> p \<and> p \<le> 100
      \<and> 100 * (of_int (uint val) / of_int (uint (SpaceUsedTotal m))) - 1 / 100 - 1 / 10 ^ 9 \<le> p
      \<and> p \<le> 100 * (of_int (uint val) / of_int (uint (SpaceUsedTotal m))) + 1 / 10 ^ 9"
proof (cases "SpaceUsedTotal m = 0")
  case True
  then have "uint val = 0" using assms by simp
  then show ?thesis using True by (simp add: tplPercentUsage_def fl_def)
next
  case False
  let ?x = "of_int (uint val) :: rat" and ?y = "of_int (uint (SpaceUsedTotal m)) :: rat"
  let ?s = "fl (fl (fl (100 * fl ?x) / fl ?y) * 100)" and ?q = "?x / ?y"
  have "uint (SpaceUsedTotal m) \<noteq> 0" using False by (simp add: unsigned_eq_0_iff)
  then have "0 < uint (SpaceUsedTotal m)" by (simp add: order_less_le)
  then have xy: "0 \<le> ?x" "0 < ?y" "?x \<le> ?y"
    using assms by (simp_all only: of_int_0_le_iff of_int_0_less_iff of_int_le_iff uint_ge_0)
  note s = usage_scaled [OF xy]
  have q: "0 \<le> ?q" "?q \<le> 1" using xy by (simp_all add: divide_le_eq)
  have "tplPercentUsage m val = Percent (fl (of_int \<lfloor>?s\<rfloor> / 100))"
    using xy(2) fl_zero_iff [of ?y] by (simp add: tplPercentUsage_def Let_def)
  then show ?thesis using False cut_percent [OF s q(2)] fl_nonneg by (simp only: if_False) blast
qed

section \<open>Properties\<close>

text \<open>The sum of the four sizes, where it does not wrap around.\<close>

definition sizes_fit :: "metrics \<Rightarrow> bool" where
  "sizes_fit m \<longleftrightarrow>
     uint (SpaceUsedByDataset m) + uint (SpaceUsedBySnapshots m) + uint (SpaceUsedByChildren m)
       + uint (SpaceUsedByRefReservation m) < 2 ^ 64"

lemma SpaceUsedTotal_fit:
  "sizes_fit m \<Longrightarrow> uint (SpaceUsedTotal m) = uint (SpaceUsedByDataset m) + uint (SpaceUsedBySnapshots m)
     + uint (SpaceUsedByChildren m) + uint (SpaceUsedByRefReservation m)"
proof -
  let ?s = "uint (SpaceUsedByDataset m) + uint (SpaceUsedBySnapshots m) + uint (SpaceUsedByChildren m)
    + uint (SpaceUsedByRefReservation m)"
  assume "sizes_fit m"
  then have "?s mod 2 ^ 64 = ?s" by (intro mod_pos_pos_trivial) (simp_all add: sizes_fit_def)
  moreover have "uint (SpaceUsedTotal m) = ?s mod 2 ^ 64"
    by (simp add: SpaceUsedTotal_def uint_word_ariths mod_simps add_ac)
  ultimately show ?thesis by simp
qed

text \<open>C28: The bars of a host on the page are a picture of its space, as long as the sum of its sizes does not
  wrap around. If it uses no space, all four are not numbers. Otherwise each is between 0 and 100, differs from its
  share in percent by no more than a hundredth and a billionth (it is cut to hundredths, and computed in
  floating point), and together they exceed 100 by no more than a hundred-millionth.\<close>

theorem bars_show_shares:
  assumes "sizes_fit m"
  shows "if SpaceUsedTotal m = 0 then usage_bars m = [PercentNaN, PercentNaN, PercentNaN, PercentNaN]
    else \<exists>a b c d. usage_bars m = map Percent [a, b, c, d] \<and> list_all (\<lambda>p. 0 \<le> p \<and> p \<le> 100) [a, b, c, d]
      \<and> list_all2 (\<lambda>p v. \<bar>p - 100 * (of_int (uint v) / of_int (uint (SpaceUsedTotal m)))\<bar> \<le> 1 / 100 + 1 / 10 ^ 9) [a, b, c, d]
          [SpaceUsedByDataset m, SpaceUsedBySnapshots m, SpaceUsedByChildren m, SpaceUsedByRefReservation m]
      \<and> a + b + c + d \<le> 100 + 1 / 10 ^ 8"
proof -
  let ?T = "uint (SpaceUsedTotal m)" and ?q = "\<lambda>v. of_int (uint v) / of_int (uint (SpaceUsedTotal m)) :: rat"
  let ?good = "\<lambda>v p. tplPercentUsage m v = Percent p \<and> 0 \<le> p \<and> p \<le> 100 \<and> 100 * ?q v - 1 / 100 - 1 / 10 ^ 9 \<le> p
      \<and> p \<le> 100 * ?q v + 1 / 10 ^ 9"
  note T = SpaceUsedTotal_fit [OF assms]
  let ?vs = "[SpaceUsedByDataset m, SpaceUsedBySnapshots m, SpaceUsedByChildren m, SpaceUsedByRefReservation m]"
  have le: "uint (SpaceUsedByDataset m) \<le> ?T" "uint (SpaceUsedBySnapshots m) \<le> ?T" "uint (SpaceUsedByChildren m) \<le> ?T"
    "uint (SpaceUsedByRefReservation m) \<le> ?T"
    unfolding T using uint_ge_0 by (smt (verit))+
  show ?thesis
  proof (cases "SpaceUsedTotal m = 0")
    case True
    then show ?thesis
      using usage_in_percent [OF le(1)] usage_in_percent [OF le(2)] usage_in_percent [OF le(3)] usage_in_percent [OF le(4)]
      by (simp add: usage_bars_def)
  next
    case False
    have bar: "\<exists>p. ?good v p" if "uint v \<le> ?T" for v using usage_in_percent [OF that] False by simp
    obtain a where a: "?good (SpaceUsedByDataset m) a" using bar [OF le(1)] by blast
    obtain b where b: "?good (SpaceUsedBySnapshots m) b" using bar [OF le(2)] by blast
    obtain c where c: "?good (SpaceUsedByChildren m) c" using bar [OF le(3)] by blast
    obtain d where d: "?good (SpaceUsedByRefReservation m) d" using bar [OF le(4)] by blast
    have near: "\<bar>p - 100 * ?q v\<bar> \<le> 1 / 100 + 1 / 10 ^ 9" if "?good v p" for v p
      using that unfolding abs_le_iff by (intro conjI) linarith+
    have "(of_int ?T :: rat) \<noteq> 0" using False by (simp only: of_int_eq_0_iff unsigned_eq_0_iff) simp
    then have "?q (SpaceUsedByDataset m) + ?q (SpaceUsedBySnapshots m) + ?q (SpaceUsedByChildren m)
        + ?q (SpaceUsedByRefReservation m) = 1"
      unfolding add_divide_distrib [symmetric] of_int_add [symmetric] T [symmetric] by (rule divide_self)
    then have "a + b + c + d \<le> 100 + 1 / 10 ^ 8" using a b c d by simp
    moreover have "usage_bars m = map Percent [a, b, c, d]" using a b c d by (simp add: usage_bars_def)
    moreover have "list_all (\<lambda>p. 0 \<le> p \<and> p \<le> 100) [a, b, c, d]" using a b c d by simp
    moreover have "list_all2 (\<lambda>p v. \<bar>p - 100 * ?q v\<bar> \<le> 1 / 100 + 1 / 10 ^ 9) [a, b, c, d] ?vs" using a b c d near by simp
    ultimately show ?thesis unfolding if_not_P [OF False] by blast
  qed
qed

lemma bars_show_shares_witness:
  "\<exists>a b c d. usage_bars (zero_metrics\<lparr>SpaceUsedByDataset := 1, SpaceUsedBySnapshots := 2\<rparr>) = map Percent [a, b, c, d]
    \<and> a + b + c + d \<le> 100 + 1 / 10 ^ 8"
  using bars_show_shares [of "zero_metrics\<lparr>SpaceUsedByDataset := 1, SpaceUsedBySnapshots := 2\<rparr>"]
  by (auto simp: SpaceUsedTotal_def zero_metrics_def sizes_fit_def)

end
