(* ===== verification/Cmd_Run.thy ===== *)
theory Cmd_Run imports Cmd begin

text \<open>
  Whether the command \<open>run\<close> (\<open>cmd/run.go\<close>) returns: as long as the queue has a worker that stays it
  always can, from wherever it got to; without one, which is what a configuration without a value
  for \<open>parallel\<close> leaves, it can wait for ever.
\<close>

section \<open>Clients of the queue\<close>

abbreviation submits_to :: "queue \<Rightarrow> job list \<Rightarrow> queue \<Rightarrow> bool" where
  "submits_to \<equiv> submits Enqueue_returned Enqueue queue_evolves"

lemma submits_append: "submits rdy enq ev q1 ks q2 \<Longrightarrow> submits rdy enq ev q js q1 \<Longrightarrow> submits rdy enq ev q (js @ ks) q2"
proof (induction rule: submits.induct)
  case (submits_job q ks q' j)
  then show ?case using submits.submits_job [where q = q' and enq = enq] by (metis append.assoc submits.submits_job)
qed (auto intro: submits_move)

lemma submits_run: "run_of queue_step q1 es q2 \<Longrightarrow> list_all internal es \<Longrightarrow> submits_to q js q1 \<Longrightarrow> submits_to q js q2"
proof (induction rule: run_of.induct)
  case (run_cons q1 e q3 es q2)
  have "queue_evolves q1 q3" using run_cons.hyps(1) run_cons.prems(1) by (auto simp: queue_evolves_def)
  then show ?case using run_cons submits_move by fastforce
qed

lemma submits_keeps:
  "submits_to q js q' \<Longrightarrow> queue_ok q \<Longrightarrow> visible (q_workers q) \<noteq> [] \<Longrightarrow> queue_ok q' \<and> visible (q_workers q') \<noteq> []"
proof (induction rule: submits.induct)
  case (submits_move q js q' q'')
  then show ?case using queue_ok_step internal_workers unfolding queue_evolves_def by blast
next
  case (submits_job q js q' j)
  then show ?case using queue_ok_step [OF _ step_enqueue] by (simp add: Enqueue_def)
qed simp

lemma submits_rest:
  assumes "queue_ok q" and "visible (q_workers q) \<noteq> []"
  shows "\<exists>q'. submits_to q js q' \<and> Wait_returns q'"
  using assms
proof (induction js arbitrary: q)
  case Nil
  obtain es q' where r: "run_of queue_step q es q'" "list_all internal es" "pending q' = []"
    using queue_empties [OF Nil] by blast
  have s: "submits_to q [] q'" using submits_run [OF r(1,2) submits_nil] .
  then show ?case using queue_done(1) submits_keeps [OF s Nil] r(3) by blast
next
  case (Cons j js)
  obtain es q1 where r: "run_of queue_step q es q1" "list_all internal es" "pending q1 = []"
    using queue_empties [OF Cons.prems] by blast
  have s: "submits_to q [] q1" using submits_run [OF r(1,2) submits_nil] .
  have "Enqueue_returned q1" using r(3) by (simp add: Enqueue_returned_def pending_def)
  then have s1: "submits_to q [j] (Enqueue j q1)" using submits_job [OF s] by simp
  obtain q' where "submits_to (Enqueue j q1) js q'" "Wait_returns q'"
    using Cons.IH submits_keeps [OF s1 Cons.prems] by blast
  then show ?case using submits_append [OF _ s1] by force
qed

text \<open>Without workers nothing that is submitted is finished.\<close>

lemma submits_no_workers:
  "submits_to q js q' \<Longrightarrow> q_live q = [] \<Longrightarrow> q_spawning q = 0 \<Longrightarrow>
     q_live q' = [] \<and> q_spawning q' = 0 \<and> q_jobGroup q' = q_jobGroup q + int (length js)"
proof (induction rule: submits.induct)
  case (submits_move q js q' q'')
  then obtain e where "queue_step q' e q''" "internal e" by (auto simp: queue_evolves_def)
  then show ?case using submits_move.IH submits_move.prems by (elim queue_stepE) (auto simp: internal_def)
next
  case (submits_job q js q' j)
  then show ?case by (simp add: Enqueue_def)
qed simp

section \<open>Properties\<close>

text \<open>From wherever it got to, \<open>run\<close> can still submit the rest of its jobs and return, as long as a worker
  is to stay.\<close>

theorem run_can_return:
  assumes "reachable queue_init queue_step q" and "visible (q_workers (run_resize par q)) \<noteq> []"
    and "run_jobs t args = js @ ks" and "submits_to (run_resize par q) js q1"
  shows "\<exists>q'. submits_to q1 ks q' \<and> run_command t par args q q'"
proof -
  have "queue_ok q" using queue_life.inv_reachable [OF assms(1)] .
  then have "queue_ok (run_resize par q)" using queue_ok_step [OF _ step_resize] by (simp add: run_resize_def)
  then obtain q' where q': "submits_to q1 ks q'" "Wait_returns q'"
    using submits_rest submits_keeps [OF assms(4) _ assms(2)] by blast
  then show ?thesis using submits_append [OF q'(1) assms(4)] assms(3) by (auto simp: run_command_def)
qed

lemma run_can_return_witness:
  "\<exists>q'. run_command example_tree 0 [] NewQueue q'"
  using run_can_return [OF NewQueue_reachable, of 0 example_tree "[]" "[]", OF _ _ submits_nil] visible_NewQueue
  by (fastforce simp: run_resize_def)

text \<open>C35: The command \<open>run\<close> can wait for ever: a configuration without a value for \<open>parallel\<close> resizes the queue
  to no workers before the command starts. Once the only worker has seen that, jobs are accepted
  but nobody takes them, and unless the flag asks for workers the command never returns.\<close>

theorem run_hangs_without_parallel:
  assumes "initConfig ce (initial_cmd dir) = (InitDone, st)" and "Service (c_tree st) = Some svc" and "Parallel svc = 0"
    and "par \<le> 0" and "run_jobs (c_tree st) args \<noteq> []"
  shows "\<exists>q. queue_step (c_queue st) (QQuit 0) q \<and> (\<forall>q'. \<not> run_command (c_tree st) par args q q')"
proof -
  have "c_queue st = Resize 0 NewQueue"
    using initConfig_after(2) [OF assms(1,2)] assms(3) by (simp add: initial_cmd_def)
  moreover let ?q = "(Resize 0 NewQueue)\<lparr>q_live := [], q_workerGroup := q_workerGroup (Resize 0 NewQueue) - 1\<rparr>"
  have q: "q_live (Resize 0 NewQueue) = [] @ (0, Idle) # []" "q_closed (Resize 0 NewQueue) = [0]"
    "q_spawning (Resize 0 NewQueue) = 0" "q_jobGroup (Resize 0 NewQueue) = 0"
    using visible_NewQueue by (simp_all add: Resize_def Let_def clamp_size_def maxParallelity_def NewQueue_fields)
  then have "queue_step (Resize 0 NewQueue) (QQuit 0) ?q" using step_quit [OF q(1)] by simp
  moreover have "\<not> run_command (c_tree st) par args ?q q'" for q'
  proof
    assume "run_command (c_tree st) par args ?q q'"
    then have "submits_to ?q (run_jobs (c_tree st) args) q'" "Wait_returns q'"
      using assms(4) by (simp_all add: run_command_def run_resize_def)
    then show False using submits_no_workers [of ?q] q assms(5) by (simp add: Wait_returns_def)
  qed
  ultimately show ?thesis by metis
qed

lemma run_hangs_without_parallel_witness:
  "\<exists>st q. initConfig example_cmd_env (initial_cmd ''/z'') = (InitDone, st) \<and> queue_step (c_queue st) (QQuit 0) q
    \<and> (\<forall>q'. \<not> run_command (c_tree st) 0 [] q q')"
proof -
  obtain st where st: "initConfig example_cmd_env (initial_cmd ''/z'') = (InitDone, st)"
      "Service (c_tree st) = Some zero_service" "Hosts (c_tree st) = [''a'']"
    using example_init by blast
  have "run_jobs (c_tree st) [] \<noteq> []" using st(3) Hosts_known [of "''a''" "c_tree st"] by (simp add: run_jobs_def)
  then show ?thesis using run_hangs_without_parallel [OF st(1,2), of 0 "[]"] st(1) by (auto simp: zero_service_def)
qed

end
