(* ===== verification/Cmd_Serve.thy ===== *)
theory Cmd_Serve imports Cmd begin

text \<open>
  The command \<open>serve\<close> (\<open>cmd/serve.go\<close>): the scheduler, the HTTP server and the queue run side
  by side until a signal arrives; then the scheduler is stopped and waited for, then the HTTP
  server, and the process ends. The queue is not waited for. Of the HTTP server
  (\<open>Start\<close>, \<open>Stop\<close> in \<open>app/server.go\<close>) the model has whether it listens.
\<close>

section \<open>The processes\<close>

datatype http_phase = HttpNew | HttpListening | HttpClosed

datatype serve_pc = SvWaiting | SvStopping | SvShutdown | SvExited

record serve =
  sv_sched :: sched
  sv_queue :: queue
  sv_http :: http_phase
  sv_pc :: serve_pc

definition serve_start :: "queue \<Rightarrow> serve" where
  "serve_start q = \<lparr>sv_sched = NewScheduler, sv_queue = q, sv_http = HttpNew, sv_pc = SvWaiting\<rparr>"

definition alive :: "serve \<Rightarrow> bool" where
  "alive s \<longleftrightarrow> \<not> s_crashed (sv_sched s) \<and> sv_pc s \<noteq> SvExited"

definition http_Stop :: "http_phase \<Rightarrow> http_phase" where
  "http_Stop h = HttpClosed"

text \<open>\<open>ListenAndServe\<close> returns at once when the server was shut down before.\<close>

definition http_Start :: "http_phase \<Rightarrow> http_phase" where
  "http_Start h = (if h = HttpNew then HttpListening else h)"

datatype serve_event =
    SvSched sched_event
  | SvEnqueue job
  | SvQueue qevent
  | SvListen
  | SvSignal
  | SvStopped
  | SvExit

text \<open>
  The scheduler enqueues during its poll, and blocks in \<open>Enqueue\<close> until the job is sent: the
  poll ends only when nothing is blocked. It is the only client of the queue.
\<close>

inductive serve_step :: "serve \<Rightarrow> serve_event \<Rightarrow> serve \<Rightarrow> bool" where
  sv_sched_move:
    "alive s \<Longrightarrow> sched_step (sv_sched s) e c \<Longrightarrow> e \<in> {EvStart, EvTimer, EvRunDone, EvQuit} \<Longrightarrow>
       (e = EvRunDone \<longrightarrow> q_blocked (sv_queue s) = []) \<Longrightarrow> serve_step s (SvSched e) (s\<lparr>sv_sched := c\<rparr>)"
| sv_enqueue:
    "alive s \<Longrightarrow> s_phase (sv_sched s) = InRun \<Longrightarrow> q_blocked (sv_queue s) = [] \<Longrightarrow>
       serve_step s (SvEnqueue j) (s\<lparr>sv_queue := Enqueue j (sv_queue s)\<rparr>)"
| sv_queue_move:
    "alive s \<Longrightarrow> internal e \<Longrightarrow> queue_step (sv_queue s) e q \<Longrightarrow> serve_step s (SvQueue e) (s\<lparr>sv_queue := q\<rparr>)"
| sv_listen: "alive s \<Longrightarrow> serve_step s SvListen (s\<lparr>sv_http := http_Start (sv_http s)\<rparr>)"
| sv_signal:
    "alive s \<Longrightarrow> sv_pc s = SvWaiting \<Longrightarrow> sched_step (sv_sched s) EvStop c \<Longrightarrow>
       serve_step s SvSignal (s\<lparr>sv_sched := c, sv_pc := SvStopping\<rparr>)"
| sv_stopped:
    "alive s \<Longrightarrow> sv_pc s = SvStopping \<Longrightarrow> sched_step (sv_sched s) EvStopReturns c \<Longrightarrow>
       serve_step s SvStopped (s\<lparr>sv_sched := c, sv_pc := SvShutdown\<rparr>)"
| sv_exit:
    "alive s \<Longrightarrow> sv_pc s = SvShutdown \<Longrightarrow> serve_step s SvExit (s\<lparr>sv_http := http_Stop (sv_http s), sv_pc := SvExited\<rparr>)"

declare serve_step.intros [step_defs]

inductive_cases serve_stepE: "serve_step s e s'"

section \<open>The invariant\<close>

definition serve_init :: "serve \<Rightarrow> bool" where
  "serve_init s \<longleftrightarrow> (\<exists>q. queue_ok q \<and> s = serve_start q)"

definition serve_ok :: "serve \<Rightarrow> bool" where
  "serve_ok s \<longleftrightarrow> sched_ok (sv_sched s) \<and> queue_ok (sv_queue s)
     \<and> (sv_pc s = SvWaiting \<longrightarrow> s_quit (sv_sched s) \<noteq> Shut \<and> s_phase (sv_sched s) \<noteq> Returned)
     \<and> (s_crashed (sv_sched s) \<longleftrightarrow> sv_pc s = SvStopping \<and> s_phase (sv_sched s) = NotStarted)
     \<and> (sv_pc s = SvStopping \<and> \<not> s_crashed (sv_sched s) \<longrightarrow> 0 < s_waiting (sv_sched s))
     \<and> (sv_pc s = SvShutdown \<or> sv_pc s = SvExited \<longrightarrow> s_phase (sv_sched s) = Returned)"

lemma sched_move_keeps:
  "sched_step c e c' \<Longrightarrow> e \<in> {EvStart, EvTimer, EvRunDone, EvQuit} \<Longrightarrow>
     (s_quit c' = Shut \<longrightarrow> s_quit c = Shut) \<and> s_waiting c' = s_waiting c \<and> s_crashed c' = s_crashed c
       \<and> (s_phase c = Returned \<longrightarrow> s_phase c' = Returned) \<and> s_phase c' \<noteq> NotStarted \<and> \<not> s_crashed c
       \<and> (s_phase c' = Returned \<longrightarrow> s_quit c = Shut)"
  by (erule sched_stepE) (auto simp: sched_Start_def sched_leave_def)

lemma serve_ok_step:
  assumes ok: "serve_ok s" and st: "serve_step s e s'"
  shows "serve_ok s'"
proof -
  have c: "sched_ok (sv_sched s)" "queue_ok (sv_queue s)" using ok by (simp_all add: serve_ok_def)
  note inv = sched_life.inv_step [OF c(1)] and qinv = queue_ok_step [OF c(2)]
  from st show ?thesis
  proof cases
    case (sv_sched_move e' c')
    then show ?thesis using inv [OF sv_sched_move(4)] sched_move_keeps [OF sv_sched_move(4,5)] ok
      by (auto simp: serve_ok_def)
  next
    case (sv_signal c')
    have o: "s_quit (sv_sched s) = Open \<longleftrightarrow> s_phase (sv_sched s) \<noteq> NotStarted"
      using c(1) ok sv_signal(4) by (cases "s_quit (sv_sched s)") (auto simp: sched_ok_def serve_ok_def)
    have c': "c' = sched_Stop (sv_sched s)" "sched_ok c'" "\<not> s_crashed (sv_sched s)"
      using sv_signal(3,5) inv [OF sv_signal(5)] by (auto simp: alive_def elim: sched_stepE)
    show ?thesis using c' o c(2) sv_signal(2)
      by (cases "s_quit (sv_sched s) = Open") (simp_all add: serve_ok_def sched_Stop_def Let_def)
  next
    case (sv_stopped c')
    have "s_phase c' = Returned \<and> \<not> s_crashed c'"
      using sv_stopped(5) c(1) by (auto simp: sched_ok_def elim!: sched_stepE split: if_splits)
    then show ?thesis using inv [OF sv_stopped(5)] sv_stopped ok by (simp add: serve_ok_def)
  qed (use ok qinv [OF step_enqueue] qinv in \<open>auto simp: serve_ok_def\<close>)
qed

interpretation serve_life: invariant_of serve_init serve_step serve_ok
proof
  show "serve_init s \<Longrightarrow> serve_ok s" for s
    using sched_life.inv_init [of NewScheduler]
    by (auto simp: serve_init_def serve_ok_def serve_start_def sched_init_def NewScheduler_def)
qed (rule serve_ok_step)

section \<open>A signal before the scheduler has started\<close>

text \<open>\<open>Stop\<close> closes the channel that only \<open>Start\<close> makes: a signal that comes first makes it panic.\<close>

definition early_signal :: "serve_event list \<Rightarrow> bool" where
  "early_signal es \<longleftrightarrow> SvSignal \<in> set (takeWhile (\<lambda>e. e \<noteq> SvSched EvStart) es)"

lemma serve_started: "serve_step s e s' \<Longrightarrow> s_phase (sv_sched s) \<noteq> NotStarted \<Longrightarrow> s_phase (sv_sched s') \<noteq> NotStarted"
  by (erule serve_stepE) (auto simp: sched_Start_def sched_leave_def sched_Stop_def Let_def elim!: sched_stepE split: if_splits)

lemma serve_run_started:
  "run_of serve_step s es s' \<Longrightarrow> s_phase (sv_sched s) \<noteq> NotStarted \<Longrightarrow> s_phase (sv_sched s') \<noteq> NotStarted"
  by (induction rule: run_of.induct) (auto dest: serve_started)

lemma serve_dead: "run_of serve_step s es s' \<Longrightarrow> \<not> alive s \<Longrightarrow> s' = s"
  by (erule run_of.cases) (auto elim: serve_stepE)

lemma serve_first_step:
  assumes "serve_step s e s'" and "serve_ok s" and "sv_pc s = SvWaiting" and "s_phase (sv_sched s) = NotStarted"
  shows "e = SvSched EvStart \<and> s_phase (sv_sched s') \<noteq> NotStarted
    \<or> e = SvSignal \<and> s_crashed (sv_sched s')
    \<or> e \<noteq> SvSched EvStart \<and> e \<noteq> SvSignal \<and> sv_pc s' = SvWaiting \<and> s_phase (sv_sched s') = NotStarted"
  using assms
  by (elim serve_stepE) (auto simp: serve_ok_def sched_ok_def sched_Start_def sched_Stop_def elim!: sched_stepE)

lemma serve_crash:
  "run_of serve_step s es s' \<Longrightarrow> serve_ok s \<Longrightarrow> sv_pc s = SvWaiting \<Longrightarrow> s_phase (sv_sched s) = NotStarted \<Longrightarrow>
     s_crashed (sv_sched s') \<longleftrightarrow> early_signal es"
proof (induction rule: run_of.induct)
  case (run_nil s)
  then show ?case by (simp add: early_signal_def serve_ok_def)
next
  case (run_cons s e s1 es s')
  note ok1 = serve_ok_step [OF run_cons.prems(1) run_cons.hyps(1)]
  from serve_first_step [OF run_cons.hyps(1) run_cons.prems] show ?case
  proof (elim disjE)
    assume a: "e = SvSched EvStart \<and> s_phase (sv_sched s1) \<noteq> NotStarted"
    then have "s_phase (sv_sched s') \<noteq> NotStarted" using serve_run_started [OF run_cons.hyps(2)] by blast
    moreover have "serve_ok s'" using serve_life.inv_run [OF run_cons.hyps(2) ok1] .
    ultimately show ?thesis using a by (simp add: serve_ok_def early_signal_def)
  next
    assume a: "e = SvSignal \<and> s_crashed (sv_sched s1)"
    then show ?thesis using serve_dead [OF run_cons.hyps(2)] by (simp add: alive_def early_signal_def)
  next
    assume a: "e \<noteq> SvSched EvStart \<and> e \<noteq> SvSignal \<and> sv_pc s1 = SvWaiting \<and> s_phase (sv_sched s1) = NotStarted"
    then show ?thesis using run_cons.IH ok1 by (auto simp: early_signal_def)
  qed
qed

section \<open>Shutting down\<close>

lemma queue_unblocks:
  assumes "queue_ok q" and "visible (q_workers q) \<noteq> []"
  shows "\<exists>es q'. run_of queue_step q es q' \<and> list_all internal es \<and> q_blocked q' = [] \<and> length es \<le> queue_measure q"
  using queue_empties [OF assms] by (auto simp: pending_def)

lemma serve_queue_run:
  "run_of queue_step q es q' \<Longrightarrow> list_all internal es \<Longrightarrow> alive s \<Longrightarrow> sv_queue s = q \<Longrightarrow>
     run_of serve_step s (map SvQueue es) (s\<lparr>sv_queue := q'\<rparr>)"
proof (induction arbitrary: s rule: run_of.induct)
  case (run_nil q)
  then have "s\<lparr>sv_queue := q\<rparr> = s" by simp
  then show ?case using run_of.run_nil [of serve_step s] by simp
next
  case (run_cons q e q1 es q')
  have "serve_step s (SvQueue e) (s\<lparr>sv_queue := q1\<rparr>)"
    using run_cons.prems run_cons.hyps(1) by (intro sv_queue_move) simp_all
  moreover have "run_of serve_step (s\<lparr>sv_queue := q1\<rparr>) (map SvQueue es) (s\<lparr>sv_queue := q1, sv_queue := q'\<rparr>)"
    using run_cons.IH [of "s\<lparr>sv_queue := q1\<rparr>"] run_cons.prems by (simp add: alive_def)
  ultimately show ?case using run_of.run_cons [where step = serve_step] by simp
qed

lemmas serve_run_cons = run_cons [where step = serve_step]

text \<open>Once the scheduler is to stop and the poll is not blocked, the process ends in four steps.\<close>

definition ending_event :: "serve_event \<Rightarrow> bool" where
  "ending_event e \<longleftrightarrow> e \<in> {SvSched EvRunDone, SvSched EvQuit, SvStopped, SvExit}"

lemma ending_events [simp]:
  "ending_event (SvSched EvRunDone)" "ending_event (SvSched EvQuit)" "ending_event SvStopped" "ending_event SvExit"
  by (simp_all add: ending_event_def)

lemma serve_ends:
  assumes ok: "serve_ok s" and a: "alive s" "sv_pc s = SvStopping" and b: "q_blocked (sv_queue s) = []"
  shows "\<exists>es s'. run_of serve_step s es s' \<and> sv_pc s' = SvExited \<and> length es \<le> 4 \<and> sv_queue s' = sv_queue s
    \<and> list_all ending_event es"
proof -
  have fin: "\<exists>s'. run_of serve_step u [SvStopped, SvExit] s' \<and> sv_pc s' = SvExited \<and> sv_queue s' = sv_queue u"
    if u: "alive u" "sv_pc u = SvStopping" "s_phase (sv_sched u) = Returned" "serve_ok u" for u
  proof -
    let ?c = "(sv_sched u)\<lparr>s_waiting := s_waiting (sv_sched u) - 1\<rparr>"
    have "sched_step (sv_sched u) EvStopReturns ?c"
      using u by (intro sched_stop_returns) (auto simp: serve_ok_def alive_def sched_ok_def)
    then have "serve_step u SvStopped (u\<lparr>sv_sched := ?c, sv_pc := SvShutdown\<rparr>)" using u(1,2) by (intro sv_stopped)
    moreover have "serve_step (u\<lparr>sv_sched := ?c, sv_pc := SvShutdown\<rparr>) SvExit
        (u\<lparr>sv_sched := ?c, sv_http := HttpClosed, sv_pc := SvExited\<rparr>)"
      using sv_exit [of "u\<lparr>sv_sched := ?c, sv_pc := SvShutdown\<rparr>"] u(1) by (simp add: alive_def http_Stop_def)
    ultimately show ?thesis using serve_run_cons [OF _ serve_run_cons [OF _ run_nil]] by fastforce
  qed
  have quit: "\<exists>s'. run_of serve_step u [SvSched EvQuit, SvStopped, SvExit] s' \<and> sv_pc s' = SvExited
      \<and> sv_queue s' = sv_queue u"
    if u: "alive u" "sv_pc u = SvStopping" "s_phase (sv_sched u) = Polling" "serve_ok u" for u
  proof -
    have "s_quit (sv_sched u) = Shut" using u by (auto simp: serve_ok_def alive_def sched_ok_def)
    then have "sched_step (sv_sched u) EvQuit (sched_leave (sv_sched u))"
      using u by (intro sched_quit) (simp_all add: alive_def)
    then have m: "serve_step u (SvSched EvQuit) (u\<lparr>sv_sched := sched_leave (sv_sched u)\<rparr>)"
      using u(1) by (intro sv_sched_move) simp_all
    then have "serve_ok (u\<lparr>sv_sched := sched_leave (sv_sched u)\<rparr>)" using serve_ok_step u(4) by blast
    then obtain s' where "run_of serve_step (u\<lparr>sv_sched := sched_leave (sv_sched u)\<rparr>) [SvStopped, SvExit] s'"
        "sv_pc s' = SvExited" "sv_queue s' = sv_queue u"
      using fin [of "u\<lparr>sv_sched := sched_leave (sv_sched u)\<rparr>"] u by (auto simp: alive_def sched_leave_def)
    then show ?thesis using serve_run_cons [OF m] by fastforce
  qed
  show ?thesis
  proof (cases "s_phase (sv_sched s)")
    case NotStarted
    then show ?thesis using ok a by (auto simp: serve_ok_def alive_def sched_ok_def)
  next
    case Polling
    then obtain s' where "run_of serve_step s [SvSched EvQuit, SvStopped, SvExit] s'" "sv_pc s' = SvExited"
        "sv_queue s' = sv_queue s"
      using quit [OF a Polling ok] by blast
    then show ?thesis by (intro exI [of _ "[SvSched EvQuit, SvStopped, SvExit]"] exI [of _ s']) simp
  next
    case InRun
    let ?u = "s\<lparr>sv_sched := (sv_sched s)\<lparr>s_phase := Polling\<rparr>\<rparr>"
    have m: "serve_step s (SvSched EvRunDone) ?u"
      using a(1) b InRun by (intro sv_sched_move sched_run_done) (simp_all add: alive_def)
    obtain s' where r: "run_of serve_step ?u [SvSched EvQuit, SvStopped, SvExit] s'" "sv_pc s' = SvExited"
        "sv_queue s' = sv_queue s"
      using quit [of ?u] serve_ok_step [OF ok m] a by (auto simp: alive_def)
    show ?thesis
      using serve_run_cons [OF m r(1)] r(2,3)
      by (intro exI [of _ "[SvSched EvRunDone, SvSched EvQuit, SvStopped, SvExit]"] exI [of _ s']) simp
  next
    case Returned
    then obtain s' where "run_of serve_step s [SvStopped, SvExit] s'" "sv_pc s' = SvExited" "sv_queue s' = sv_queue s"
      using fin [OF a Returned ok] by blast
    then show ?thesis by (intro exI [of _ "[SvStopped, SvExit]"] exI [of _ s']) simp
  qed
qed

section \<open>Properties\<close>

text \<open>After the signal the process can always end, as long as one worker is to stay: the number of
  steps it needs is bounded by the jobs in the queue, and neither a poll in progress nor a full
  queue can keep it from ending.\<close>

theorem serve_shuts_down:
  assumes "reachable serve_init serve_step s" and "alive s" and "sv_pc s = SvStopping"
    and "visible (q_workers (sv_queue s)) \<noteq> []"
  shows "\<exists>es s'. run_of serve_step s es s' \<and> sv_pc s' = SvExited \<and> length es \<le> queue_measure (sv_queue s) + 4"
proof -
  have ok: "serve_ok s" using serve_life.inv_reachable [OF assms(1)] .
  then obtain es q' where r: "run_of queue_step (sv_queue s) es q'" "list_all internal es" "q_blocked q' = []"
      "length es \<le> queue_measure (sv_queue s)"
    using queue_unblocks [OF _ assms(4)] by (auto simp: serve_ok_def)
  have r1: "run_of serve_step s (map SvQueue es) (s\<lparr>sv_queue := q'\<rparr>)"
    using serve_queue_run [OF r(1,2) assms(2) refl] .
  have ok1: "serve_ok (s\<lparr>sv_queue := q'\<rparr>)" using serve_life.inv_run [OF r1 ok] .
  have "\<exists>fs s'. run_of serve_step (s\<lparr>sv_queue := q'\<rparr>) fs s' \<and> sv_pc s' = SvExited \<and> length fs \<le> 4"
    using serve_ends [OF ok1] assms(2,3) r(3) by (auto simp: alive_def)
  then obtain fs s' where f: "run_of serve_step (s\<lparr>sv_queue := q'\<rparr>) fs s'" "sv_pc s' = SvExited" "length fs \<le> 4"
    by blast
  show ?thesis
    using run_of_append [OF r1 f(1)] f(2,3) r(4) by (intro exI [of _ "map SvQueue es @ fs"] exI [of _ s']) simp
qed

definition busy_serve :: "job \<Rightarrow> serve" where
  "busy_serve j = (serve_start NewQueue)\<lparr>sv_sched := (sched_Start NewScheduler)\<lparr>s_phase := InRun\<rparr>,
     sv_queue := NewQueue\<lparr>q_jobGroup := 1, q_accepted := [j], q_live := [(0, Busy j)]\<rparr>\<rparr>"

lemma busy_serve_run:
  "run_of serve_step (serve_start NewQueue)
     [SvSched EvStart, SvSched EvTimer, SvEnqueue j, SvQueue (QSend j), SvQueue (QTake 0 j)] (busy_serve j)"
proof -
  let ?s0 = "serve_start NewQueue"
  let ?s1 = "?s0\<lparr>sv_sched := sched_Start NewScheduler\<rparr>"
  let ?s2 = "?s1\<lparr>sv_sched := (sched_Start NewScheduler)\<lparr>s_phase := InRun\<rparr>\<rparr>"
  let ?s3 = "?s2\<lparr>sv_queue := Enqueue j NewQueue\<rparr>"
  let ?q4 = "(Enqueue j NewQueue)\<lparr>q_blocked := [], q_jobs := [j]\<rparr>"
  let ?s4 = "?s3\<lparr>sv_queue := ?q4\<rparr>"
  let ?s5 = "?s4\<lparr>sv_queue := ?q4\<lparr>q_live := [(0, Busy j)], q_jobs := []\<rparr>\<rparr>"
  have "sched_step NewScheduler EvStart (sched_Start NewScheduler)"
    by (rule sched_start) (simp_all add: NewScheduler_def)
  then have 1: "serve_step ?s0 (SvSched EvStart) ?s1"
    by (intro sv_sched_move) (simp_all add: serve_start_def alive_def NewScheduler_def)
  have 2: "serve_step ?s1 (SvSched EvTimer) (?s1\<lparr>sv_sched := (sched_Start NewScheduler)\<lparr>s_phase := InRun\<rparr>\<rparr>)"
    by (rule sv_sched_move) (use sched_timer [of "sched_Start NewScheduler"] in
      \<open>simp_all add: serve_start_def alive_def NewScheduler_def sched_Start_def\<close>)
  have 3: "serve_step ?s2 (SvEnqueue j) ?s3"
    using sv_enqueue [of ?s2 j] by (simp add: serve_start_def alive_def NewScheduler_def sched_Start_def NewQueue_def newWorker_def)
  have "queue_step (Enqueue j NewQueue) (QSend j) ?q4"
    using step_send [of "Enqueue j NewQueue" "[]" j "[]"]
    by (simp add: Enqueue_def NewQueue_def newWorker_def jobQueueSize_def)
  then have 4: "serve_step ?s3 (SvQueue (QSend j)) ?s4"
    using sv_queue_move [of ?s3 "QSend j" ?q4]
    by (simp add: serve_start_def alive_def NewScheduler_def sched_Start_def internal_def)
  have "queue_step ?q4 (QTake 0 j) (?q4\<lparr>q_live := [(0, Busy j)], q_jobs := []\<rparr>)"
    using step_take [of ?q4 "[]" 0 "[]" j "[]"] by (simp add: Enqueue_def NewQueue_fields)
  then have 5: "serve_step ?s4 (SvQueue (QTake 0 j)) ?s5"
    using sv_queue_move [of ?s4 "QTake 0 j" "?q4\<lparr>q_live := [(0, Busy j)], q_jobs := []\<rparr>"]
    by (simp add: serve_start_def alive_def NewScheduler_def sched_Start_def internal_def)
  have "?s5 = busy_serve j"
    by (simp add: busy_serve_def serve_start_def Enqueue_def NewQueue_def newWorker_def)
  then show ?thesis
    using serve_run_cons [OF 1 serve_run_cons [OF 2 serve_run_cons [OF 3 serve_run_cons [OF 4 serve_run_cons [OF 5 run_nil]]]]]
    by simp
qed

lemma busy_serve_fields:
  "alive (busy_serve j)" "sv_pc (busy_serve j) = SvWaiting" "s_phase (sv_sched (busy_serve j)) = InRun"
  "q_blocked (sv_queue (busy_serve j)) = []" "running (sv_queue (busy_serve j)) = [j]"
  "visible (q_workers (sv_queue (busy_serve j))) \<noteq> []" "s_quit (sv_sched (busy_serve j)) = Open"
  using visible_NewQueue
  by (simp_all add: busy_serve_def alive_def serve_start_def sched_Start_def NewScheduler_def running_def
      NewQueue_def newWorker_def)

lemma busy_serve_reachable: "reachable serve_init serve_step (busy_serve j)"
  by (rule run_of_reachable [OF busy_serve_run], rule reachable_init)
    (use NewQueue_ok in \<open>auto simp: serve_init_def\<close>)

lemma serve_shuts_down_witness:
  "\<exists>s es s'. serve_step (busy_serve None) SvSignal s \<and> run_of serve_step s es s' \<and> sv_pc s' = SvExited"
proof -
  let ?b = "busy_serve None"
  let ?s = "?b\<lparr>sv_sched := sched_Stop (sv_sched ?b), sv_pc := SvStopping\<rparr>"
  have "sched_step (sv_sched ?b) EvStop (sched_Stop (sv_sched ?b))"
    using busy_serve_fields(1) [of None] by (intro sched_stop) (simp add: alive_def)
  then have st: "serve_step ?b SvSignal ?s" using busy_serve_fields [of None] by (intro sv_signal)
  have "alive ?s" using busy_serve_fields [of None] by (simp add: alive_def sched_Stop_def)
  then show ?thesis
    using serve_shuts_down [OF reachable_step [where step = serve_step, OF busy_serve_reachable st]] st
      busy_serve_fields(6) [of None] by fastforce
qed

text \<open>C37: The process does not wait for its backups: whatever is in the queue when the signal arrives can
  be left there, jobs that are running included.\<close>

theorem serve_abandons_jobs:
  assumes "reachable serve_init serve_step s" and "alive s" and "sv_pc s = SvWaiting"
    and "s_phase (sv_sched s) = Polling \<or> s_phase (sv_sched s) = InRun" and "q_blocked (sv_queue s) = []"
  shows "\<exists>es s'. run_of serve_step s (SvSignal # es) s' \<and> sv_pc s' = SvExited \<and> sv_queue s' = sv_queue s"
proof -
  let ?s = "s\<lparr>sv_sched := sched_Stop (sv_sched s), sv_pc := SvStopping\<rparr>"
  have ok: "serve_ok s" using serve_life.inv_reachable [OF assms(1)] .
  have "sched_step (sv_sched s) EvStop (sched_Stop (sv_sched s))"
    using assms(2) by (intro sched_stop) (simp add: alive_def)
  then have st: "serve_step s SvSignal ?s" using assms(2,3) by (intro sv_signal)
  have "s_quit (sv_sched s) = Open"
    using ok assms(3,4) by (cases "s_quit (sv_sched s)") (auto simp: serve_ok_def sched_ok_def)
  then have "alive ?s" using assms(2) by (simp add: alive_def sched_Stop_def)
  then obtain es s' where "run_of serve_step ?s es s'" "sv_pc s' = SvExited" "sv_queue s' = sv_queue s"
    using serve_ends [OF serve_ok_step [OF ok st]] assms(5) by auto
  then show ?thesis using serve_run_cons [OF st] by blast
qed

lemma serve_abandons_jobs_witness:
  "\<exists>es s. run_of serve_step (serve_start NewQueue) es s \<and> sv_pc s = SvExited \<and> running (sv_queue s) = [Some example_job]"
proof -
  let ?b = "busy_serve (Some example_job)"
  obtain es s where "run_of serve_step ?b (SvSignal # es) s" "sv_pc s = SvExited" "sv_queue s = sv_queue ?b"
    using serve_abandons_jobs [OF busy_serve_reachable busy_serve_fields(1,2) _ busy_serve_fields(4), of "Some example_job"]
      busy_serve_fields(3) by auto
  then show ?thesis using run_of_append [OF busy_serve_run] busy_serve_fields(5) by fastforce
qed

end
