(* ===== verification/App_Life.thy ===== *)
theory App_Life imports App_Web begin

text \<open>
  All operations on the application state together: the life cycle of backups, the planning of
  the scheduler, initialisation and the page. Which of them keep a running backup running,
  and what that means for the scheduler.
\<close>

section \<open>Operations\<close>

datatype app_op =
    LStart string time
  | LSuccess string time
  | LFailure string time
  | LReschedule string time
  | LIndex
  | LInit

inductive app_step :: "app \<Rightarrow> app_op \<Rightarrow> app \<Rightarrow> bool" where
  life_start: "app_step st (LStart h t) (fst (start h t st))"
| life_success: "app_step st (LSuccess h t) (fst (success h t st))"
| life_failure: "app_step st (LFailure h t) (fst (failure h t st))"
| life_reschedule: "reschedule rnd h t st = Some st' \<Longrightarrow> app_step st (LReschedule h t) st'"
| life_index: "app_step st LIndex (handleIndex st)"
| life_init: "InitializeState pf zfs rnd now t st = Some (st', err) \<Longrightarrow> app_step st LInit st'"

declare app_step.intros [step_defs]

inductive_cases app_stepE: "app_step st op st'"

definition app_init :: "app \<Rightarrow> bool" where
  "app_init st \<longleftrightarrow> a_hosts st = []"

lemma handleIndex_keys: "map fst (a_hosts (handleIndex st)) = map fst (a_hosts st)"
  by (simp add: handleIndex_def case_prod_unfold comp_def)

lemma InitializeState_ok: "InitializeState pf zfs rnd now t st = Some (st', err) \<Longrightarrow> app_ok st'"
  by (auto simp: InitializeState_def load_def split: option.splits elim!: load_loop_app_ok [rotated])
    (simp_all add: app_ok_def)

interpretation app_life: invariant_of app_init app_step app_ok
proof
  fix st st' :: app and op
  show "app_init st \<Longrightarrow> app_ok st" by (simp add: app_init_def app_ok_def)
  assume "app_ok st" "app_step st op st'"
  then show "app_ok st'"
    by (elim app_stepE) (auto simp: lifecycle_app_ok InitializeState_ok, simp add: app_ok_def handleIndex_keys)
qed

section \<open>A running backup\<close>

definition runs :: "string \<Rightarrow> app \<Rightarrow> bool" where
  "runs h st \<longleftrightarrow> (\<exists>m. map_of (a_hosts st) h = Some m \<and> Status m = StatusRunning)"

text \<open>Operations that leave the backup of a host alone.\<close>

definition spares :: "string \<Rightarrow> app_op \<Rightarrow> bool" where
  "spares h op = (case op of
     LStart h' _ \<Rightarrow> h' \<noteq> h | LSuccess h' _ \<Rightarrow> h' \<noteq> h | LFailure h' _ \<Rightarrow> h' \<noteq> h | LInit \<Rightarrow> False | _ \<Rightarrow> True)"

lemma show_host_keeps_running: "Status m = StatusRunning \<Longrightarrow> Status (show_host m) = StatusRunning"
proof -
  have "at_seconds t \<le> t" for t
    using div_mult_mod_eq [of t second] pos_mod_sign [of second t] by (simp add: at_seconds_def unix_def)
  then show "Status m = StatusRunning \<Longrightarrow> Status (show_host m) = StatusRunning"
    by (auto simp: Status_Running still_running_def show_host_def fmt_time_pointer_eq intro: le_less_trans)
qed

lemma reschedule_runs: "reschedule rnd h' t st = Some st' \<Longrightarrow> runs h st \<Longrightarrow> runs h st'"
  by (auto simp: reschedule_def runs_def split: option.splits)

lemma app_step_runs:
  assumes "app_step st op st'" and "spares h op" and "runs h st"
  shows "runs h st'"
  using assms
  by (elim app_stepE)
    (auto simp: runs_def spares_def start_def success_def failure_def Let_def handleIndex_entry show_host_keeps_running
      split: option.splits dest: reschedule_runs [unfolded runs_def])

lemma app_run_runs: "run_of app_step st ops st' \<Longrightarrow> list_all (spares h) ops \<Longrightarrow> runs h st \<Longrightarrow> runs h st'"
  by (induction rule: run_of.induct) (auto dest: app_step_runs)

text \<open>What happens while the scheduler waits, as far as one host is concerned.\<close>

definition others_act :: "string \<Rightarrow> (app \<Rightarrow> app) \<Rightarrow> bool" where
  "others_act h f \<longleftrightarrow> (\<forall>st. \<exists>ops. list_all (spares h) ops \<and> run_of app_step st ops (f st))"

lemma others_act_runs: "others_act h f \<Longrightarrow> runs h st \<Longrightarrow> runs h (f st)"
  using app_run_runs by (fastforce simp: others_act_def)

lemma others_act_id [simp]: "others_act h (\<lambda>st. st)"
  by (auto simp: others_act_def intro!: exI [of _ "[]"] run_nil)

lemma sched_visit_moves:
  assumes "sched_visit h' k st = Some (st', r)"
  shows "\<exists>st1. (st1 = st \<or> (\<exists>rnd t. reschedule rnd h' t st = Some st1))
    \<and> (st' = st1 \<and> r = None
       \<or> (\<exists>rnd t. \<not> runs h' st1 \<and> reschedule rnd h' t (k_meanwhile k st1) = Some st'))"
proof (cases "map_of (a_hosts st) h'")
  case None
  then show ?thesis using assms by (auto simp: sched_visit_def)
next
  case (Some m)
  obtain st1 where st1: "(if is_zero (ScheduledAt m) then reschedule (k_rnd k) h' (k_now k) st else Some st) = Some st1"
    using assms Some by (auto simp: sched_visit_def split: option.splits)
  then have a: "st1 = st \<or> (\<exists>rnd t. reschedule rnd h' t st = Some st1)" by (auto split: if_splits)
  have "map_of (a_hosts st1) h' \<noteq> None" using st1 Some by (auto simp: reschedule_def split: if_splits option.splits)
  then obtain m1 where m1: "map_of (a_hosts st1) h' = Some m1" by auto
  have "st' = st1 \<and> r = None \<or>
      Status m1 \<noteq> StatusRunning \<and> reschedule (k_rnd2 k) h' (k_later k) (k_meanwhile k st1) = Some st'"
    using assms Some st1 m1 by (auto simp: sched_visit_def Let_def split: if_splits option.splits)
  then show ?thesis using a m1 unfolding runs_def by (metis option.inject)
qed

lemma sched_visit_runs:
  assumes "sched_visit h' k st = Some (st', r)" and "runs h st" and "others_act h (k_meanwhile k)"
  shows "runs h st' \<and> (h' = h \<longrightarrow> r = None)"
proof -
  obtain st1 where a: "st1 = st \<or> (\<exists>rnd t. reschedule rnd h' t st = Some st1)"
    and b: "st' = st1 \<and> r = None \<or> (\<exists>rnd t. \<not> runs h' st1 \<and> reschedule rnd h' t (k_meanwhile k st1) = Some st')"
    using sched_visit_moves [OF assms(1)] by blast
  have r1: "runs h st1" using a assms(2) reschedule_runs by blast
  then have "runs h (k_meanwhile k st1)" using others_act_runs assms(3) by blast
  then show ?thesis using b r1 reschedule_runs by blast
qed

lemma sched_run_runs:
  assumes "sched_run visits st = Some (st', es)" and "runs h st"
    and "list_all (\<lambda>(_, k). others_act h (k_meanwhile k)) visits"
  shows "runs h st' \<and> h \<notin> fst ` set es"
  using assms
proof (induction visits arbitrary: st es)
  case (Cons v rest)
  obtain h' k where v: "v = (h', k)" by fastforce
  show ?case
  proof (cases "k_stop k")
    case False
    obtain st1 j where s: "sched_visit h' k st = Some (st1, j)"
      using Cons.prems(1) v False by (auto split: option.splits)
    obtain es1 where r: "sched_run rest st1 = Some (st', es1)" "es = (case j of None \<Rightarrow> es1 | Some j \<Rightarrow> (h', j) # es1)"
      using Cons.prems(1) v False s by (auto split: option.splits)
    have "runs h st1 \<and> (h' = h \<longrightarrow> j = None)"
      using sched_visit_runs [OF s Cons.prems(2)] Cons.prems(3) v by simp
    then show ?thesis using Cons.IH [OF r(1)] Cons.prems(3) r(2) by (cases j) auto
  qed (use Cons.prems v in simp)
qed simp

end
