(* ===== verification/App_Hosts.thy ===== *)
theory App_Hosts imports App_Life begin

text \<open>
  The state seen from one host. The operations on the map of hosts are an interleaving of
  machines, one per host: what happens to the entry of a host depends on the operations on
  that host only. So backups of several hosts can run side by side as if each were alone.
\<close>

section \<open>The machine of a host\<close>

datatype host_op = HStart time | HSuccess time | HFailure time | HPlan | HShow | HReset

inductive host_step :: "metrics option \<Rightarrow> host_op \<Rightarrow> metrics option \<Rightarrow> bool" where
  host_start:
    "host_step v (HStart t) (Some ((case v of Some m \<Rightarrow> m | None \<Rightarrow> zero_metrics)\<lparr>StartedAt := t\<rparr>))"
| host_success:
    "host_step v (HSuccess t) (map_option (\<lambda>m. m\<lparr>SucceededAt := Some t, SuccessDuration := run_time t m\<rparr>) v)"
| host_failure:
    "host_step v (HFailure t) (map_option (\<lambda>m. m\<lparr>FailedAt := Some t, FailureDuration := run_time t m\<rparr>) v)"
| host_plan: "host_step v HPlan (map_option (\<lambda>m. m\<lparr>ScheduledAt := next\<rparr>) v)"
| host_show: "host_step v HShow (map_option show_host v)"
| host_reset: "host_step v HReset v'"

inductive_cases host_stepE: "host_step v op v'"

definition host_view :: "string \<Rightarrow> app \<Rightarrow> metrics option" where
  "host_view h st = map_of (a_hosts st) h"

fun host_obs :: "string \<Rightarrow> app_op \<Rightarrow> host_op list" where
  "host_obs h (LStart h' t) = (if h' = h then [HStart t] else [])"
| "host_obs h (LSuccess h' t) = (if h' = h then [HSuccess t] else [])"
| "host_obs h (LFailure h' t) = (if h' = h then [HFailure t] else [])"
| "host_obs h (LReschedule h' t) = (if h' = h then [HPlan] else [])"
| "host_obs h LIndex = [HShow]"
| "host_obs h LInit = [HReset]"

lemma host_run_single: "host_step v op v' \<Longrightarrow> run_of host_step v [op] v'"
  by (rule run_single)

lemma start_view:
  "host_view h (fst (start h' t st)) =
     (if h' = h then Some ((case host_view h st of Some m \<Rightarrow> m | None \<Rightarrow> zero_metrics)\<lparr>StartedAt := t\<rparr>) else host_view h st)"
  by (simp add: host_view_def start_def Let_def split: option.split)

lemma success_view:
  "host_view h (fst (success h' t st)) =
     (if h' = h then map_option (\<lambda>m. m\<lparr>SucceededAt := Some t, SuccessDuration := run_time t m\<rparr>) (host_view h st)
      else host_view h st)"
  by (simp add: host_view_def success_def Let_def split: option.split)

lemma failure_view:
  "host_view h (fst (failure h' t st)) =
     (if h' = h then map_option (\<lambda>m. m\<lparr>FailedAt := Some t, FailureDuration := run_time t m\<rparr>) (host_view h st)
      else host_view h st)"
  by (simp add: host_view_def failure_def Let_def split: option.split)

lemma reschedule_view:
  "reschedule rnd h' t st = Some st' \<Longrightarrow>
     \<exists>n. host_view h st' = (if h' = h then map_option (\<lambda>m. m\<lparr>ScheduledAt := n\<rparr>) (host_view h st) else host_view h st)"
  by (auto simp: host_view_def reschedule_def split: option.splits)

lemmas views = start_view success_view failure_view

interpretation host_machine: refines app_init app_step app_ok host_step "host_view h" "host_obs h" for h :: string
proof
  fix st st' :: app and op
  assume "app_step st op st'"
  then show "run_of host_step (host_view h st) (host_obs h op) (host_view h st')"
  proof cases
    case (life_reschedule rnd h' t)
    then show ?thesis using reschedule_view [OF life_reschedule(2), of h]
      using host_plan [of "host_view h st", THEN host_run_single] run_nil [of host_step "host_view h st"]
      by (auto split: if_splits)
  next
    case life_index
    then show ?thesis by (auto simp: host_view_def handleIndex_entry intro: host_run_single host_show)
  qed (auto simp: views intro: run_nil host_run_single host_start host_success host_failure host_reset)
qed

section \<open>Backups side by side\<close>

text \<open>The start and the results of the backups of a host.\<close>

definition own :: "string \<Rightarrow> app_op \<Rightarrow> bool" where
  "own h op = (case op of LStart h' _ \<Rightarrow> h' = h | LSuccess h' _ \<Rightarrow> h' = h | LFailure h' _ \<Rightarrow> h' = h | _ \<Rightarrow> False)"

inductive_cases start_opE: "app_step st (LStart h t) st'"
inductive_cases success_opE: "app_step st (LSuccess h t) st'"
inductive_cases failure_opE: "app_step st (LFailure h t) st'"

text \<open>
  What the other operations leave of an entry. \<open>seen\<close> reads it; \<open>plans\<close> and \<open>shown\<close> say whether the
  scheduler may plan the host and whether the page may be visited meanwhile.
\<close>

locale entry_reading =
  fixes seen :: "metrics \<Rightarrow> 'a" and plans shown :: bool
  assumes seen_start: "seen m = seen n \<Longrightarrow> seen (m\<lparr>StartedAt := t\<rparr>) = seen (n\<lparr>StartedAt := t\<rparr>)"
    and seen_success: "seen m = seen n \<Longrightarrow>
      seen (m\<lparr>SucceededAt := Some t, SuccessDuration := run_time t m\<rparr>)
        = seen (n\<lparr>SucceededAt := Some t, SuccessDuration := run_time t n\<rparr>)"
    and seen_failure: "seen m = seen n \<Longrightarrow>
      seen (m\<lparr>FailedAt := Some t, FailureDuration := run_time t m\<rparr>)
        = seen (n\<lparr>FailedAt := Some t, FailureDuration := run_time t n\<rparr>)"
    and seen_plan: "plans \<Longrightarrow> seen (m\<lparr>ScheduledAt := t\<rparr>) = seen m"
    and seen_shown: "shown \<Longrightarrow> seen (show_host m) = seen m"
begin

definition quiet :: "string \<Rightarrow> app_op \<Rightarrow> bool" where
  "quiet h op \<longleftrightarrow> op \<noteq> LInit \<and> (op = LIndex \<longrightarrow> shown) \<and> ((\<exists>t. op = LReschedule h t) \<longrightarrow> plans)"

definition seen_at :: "string \<Rightarrow> app \<Rightarrow> 'a option" where
  "seen_at h st = map_option seen (host_view h st)"

lemma other_step:
  assumes "app_step st op st'" and "quiet h op" and "\<not> own h op"
  shows "seen_at h st' = seen_at h st"
  using assms(1)
proof cases
  case (life_reschedule rnd h' t)
  then obtain n where
    "host_view h st' = (if h' = h then map_option (\<lambda>m. m\<lparr>ScheduledAt := n\<rparr>) (host_view h st) else host_view h st)"
    using reschedule_view by blast
  then show ?thesis using assms(2) life_reschedule(1)
    by (cases "host_view h st") (auto simp: seen_at_def quiet_def seen_plan)
next
  case life_index
  then show ?thesis using assms(2)
    by (cases "map_of (a_hosts st) h") (simp_all add: seen_at_def host_view_def handleIndex_entry seen_shown quiet_def)
qed (use assms(2,3) in \<open>simp_all add: seen_at_def views own_def quiet_def\<close>)

lemma own_step:
  assumes "app_step st op st'" and "app_step u op u'" and "own h op" and "seen_at h st = seen_at h u"
  shows "seen_at h st' = seen_at h u'"
  using assms(1)
proof cases
  case (life_start h' t)
  have "u' = fst (start h' t u)" by (rule start_opE [OF assms(2) [unfolded life_start]])
  then show ?thesis using life_start assms(3,4)
    by (auto simp: seen_at_def views own_def intro: seen_start split: option.split)
next
  case (life_success h' t)
  have "u' = fst (success h' t u)" by (rule success_opE [OF assms(2) [unfolded life_success]])
  then show ?thesis using life_success assms(3,4)
    by (cases "host_view h st"; cases "host_view h u") (auto simp: seen_at_def views own_def intro: seen_success)
next
  case (life_failure h' t)
  have "u' = fst (failure h' t u)" by (rule failure_opE [OF assms(2) [unfolded life_failure]])
  then show ?thesis using life_failure assms(3,4)
    by (cases "host_view h st"; cases "host_view h u") (auto simp: seen_at_def views own_def intro: seen_failure)
qed (use assms(3) in \<open>simp_all add: own_def\<close>)

lemma own_runs_agree:
  assumes "run_of app_step st ops st'" and "list_all (quiet h) ops"
    and "run_of app_step u (filter (own h) ops) u'" and "seen_at h st = seen_at h u"
  shows "seen_at h st' = seen_at h u'"
  using assms
proof (induction arbitrary: u rule: run_of.induct)
  case (run_nil st)
  then show ?case by (auto elim: run_of.cases)
next
  case (run_cons st op st1 ops st')
  show ?case
  proof (cases "own h op")
    case True
    then obtain u1 where u1: "app_step u op u1" "run_of app_step u1 (filter (own h) ops) u'"
      using run_cons.prems(2) by (auto elim: run_of.cases)
    then show ?thesis using run_cons.IH [OF _ u1(2)] run_cons.prems(1)
      own_step [OF run_cons.hyps(1) u1(1) True run_cons.prems(3)] by simp
  next
    case False
    then show ?thesis using run_cons other_step [OF run_cons.hyps(1) _ False] by simp
  qed
qed

lemma agree:
  assumes "run_of app_step st ops st1" and "run_of app_step st (filter (own h) ops) st2"
    and "LInit \<notin> set ops" and "LIndex \<in> set ops \<longrightarrow> shown" and "(\<exists>t. LReschedule h t \<in> set ops) \<longrightarrow> plans"
  shows "map_option seen (map_of (a_hosts st1) h) = map_option seen (map_of (a_hosts st2) h)"
  using own_runs_agree [OF assms(1) _ assms(2)] assms(3-)
  by (auto simp: seen_at_def host_view_def list_all_iff quiet_def)

end

text \<open>
  The three readings: an entry up to the plan and to what the page shortens, namely the times of the
  results to full seconds; an entry up to the plan, without the page; the plan alone, as long as the
  host is not planned.
\<close>

definition to_the_second :: "metrics \<Rightarrow> metrics" where
  "to_the_second m = m\<lparr>SucceededAt := map_option at_seconds (SucceededAt m), FailedAt := map_option at_seconds (FailedAt m)\<rparr>"

definition unplanned :: "metrics \<Rightarrow> metrics" where
  "unplanned m = m\<lparr>ScheduledAt := zero_time\<rparr>"

lemma at_seconds_twice [simp]: "at_seconds (at_seconds t) = at_seconds t"
  by (simp add: at_seconds_def unix_def)

lemma unplanned_eq:
  "unplanned m = unplanned n \<longleftrightarrow>
     m_job m = m_job n \<and> StartedAt m = StartedAt n
     \<and> SucceededAt m = SucceededAt n \<and> SuccessDuration m = SuccessDuration n
     \<and> FailedAt m = FailedAt n \<and> FailureDuration m = FailureDuration n
     \<and> SpaceUsedBySnapshots m = SpaceUsedBySnapshots n \<and> SpaceUsedByDataset m = SpaceUsedByDataset n
     \<and> SpaceUsedByChildren m = SpaceUsedByChildren n \<and> SpaceUsedByRefReservation m = SpaceUsedByRefReservation n
     \<and> CompressionFactor m = CompressionFactor n"
  by (cases m; cases n) (auto simp: unplanned_def)

interpretation unshown_entry: entry_reading unplanned True False
  by unfold_locales (simp_all add: unplanned_eq run_time_def)

interpretation shown_entry: entry_reading "\<lambda>m. unplanned (to_the_second m)" True True
proof
  show "unplanned (to_the_second (show_host m)) = unplanned (to_the_second m)" for m
    by (simp add: unplanned_eq to_the_second_def show_host_def fmt_time_pointer_eq [abs_def] option.map_comp comp_def)
qed (simp_all add: unplanned_eq to_the_second_def run_time_def)

interpretation planned_time: entry_reading ScheduledAt False True
  by unfold_locales simp_all

text \<open>The operations of one backup: none if the dataset could not be created, else a start and a result.\<close>

definition backup_ops :: "string \<Rightarrow> app_op list \<Rightarrow> bool" where
  "backup_ops h ops \<longleftrightarrow> ops = [] \<or> (\<exists>t u. ops = [LStart h t, LSuccess h u] \<or> ops = [LStart h t, LFailure h u])"

lemma backup_ops_own: "backup_ops h ops \<Longrightarrow> filter (own h) ops = ops"
  by (auto simp: backup_ops_def own_def)

lemma backup_run:
  "run_of app_step st [LStart h t, LFailure h u] (fst (failure h u (fst (start h t st))))"
  "run_of app_step st [LStart h t, LSuccess h u] (fst (success h u (fst (start h t st))))"
  by (rule run_cons [where step = app_step, OF life_start run_single], rule life_failure life_success)+

lemma run_tunnel_not_create: "run_tunnel os job ds w = (r, w') \<Longrightarrow> r \<noteq> ending.Returned (Some (ErrCreate n))"
  by (auto simp: run_tunnel_def run_connected_def and_then_def run_script_def run_rsync_def run_snapshot_def ds_snapshot_def
      Let_def split: option.splits prod.splits ending.splits if_splits bool.splits)

lemma PerformBackup_ops:
  assumes "PerformBackup os (Some job) w = (r, w')"
  shows "\<exists>ops. backup_ops (Host job) ops \<and> run_of app_step (w_app w) ops (w_app w')
    \<and> (ops = [] \<longleftrightarrow> (\<exists>n. r = ending.Returned (Some (ErrCreate n))))
    \<and> ((\<exists>t u. ops = [LStart (Host job) t, LFailure (Host job) u]) \<longleftrightarrow> ops \<noteq> [] \<and> (\<exists>e. r = ending.Returned (Some e)))"
  using assms
proof (cases rule: PerformBackup_cases)
  case (create w1)
  then show ?thesis by (intro exI [of _ "[]"]) (auto simp: backup_ops_def act_def run_nil)
next
  case (run w1 w2)
  let ?s = "lifecycle os (start (Host job)) w1" and ?h = "Host job"
  let ?t = "os_now os (w_trace w1)" and ?u = "os_now os (w_trace w2)"
  have w1: "w_app w1 = w_app w" using run(1) by (auto simp: act_def)
  have w2: "w_app w2 = fst (start ?h ?t (w_app w))"
    using run_tunnel_app [OF run(2)] by (simp add: lifecycle_app w1)
  have nc: "r \<noteq> ending.Returned (Some (ErrCreate n))" for n
    using run_tunnel_not_create [OF run(2)] .
  show ?thesis
  proof (cases "\<exists>e. r = ending.Returned (Some e)")
    case True
    then have "w_app w' = fst (failure ?h ?u (fst (start ?h ?t (w_app w))))"
      using run(3) w2 by (auto simp: record_result_def lifecycle_app)
    then show ?thesis using True nc by (intro exI [of _ "[LStart ?h ?t, LFailure ?h ?u]"]) (auto simp: backup_ops_def backup_run)
  next
    case False
    then have "w_app w' = fst (success ?h ?u (fst (start ?h ?t (w_app w))))"
      using run(3) w2 by (auto simp: record_result_def lifecycle_app split: ending.split option.split)
    then show ?thesis using False nc by (intro exI [of _ "[LStart ?h ?t, LSuccess ?h ?u]"]) (auto simp: backup_ops_def backup_run)
  qed
qed

section \<open>Properties\<close>

text \<open>C12: The state is an interleaving of machines, one per host: in every sequence of operations the entry
  of a host goes through the steps of its own machine, one for each operation on it, and through
  no others.\<close>

theorem state_refines_hosts:
  assumes "reachable app_init app_step st" and "run_of app_step st ops st'"
  shows "run_of host_step (map_of (a_hosts st) h) (concat (map (host_obs h) ops)) (map_of (a_hosts st') h)"
  using host_machine.run_refines [OF assms(2) app_life.inv_reachable [OF assms(1)], of h] by (simp add: host_view_def)

lemma state_refines_hosts_witness:
  "run_of host_step None [HStart 5] (Some (zero_metrics\<lparr>StartedAt := 5\<rparr>))"
proof -
  let ?i = "initial_app (NewTree [])"
  have i: "reachable app_init app_step ?i" by (rule reachable_init) (simp add: app_init_def initial_app_def)
  let ?s = "fst (start ''a'' 5 ?i)"
  have r: "run_of app_step ?i [LStart ''a'' 5, LStart ''b'' 7] (fst (start ''b'' 7 ?s))"
    by (rule run_cons [where step = app_step, OF life_start run_single]) (rule life_start)
  from state_refines_hosts [OF i r, of "''a''"] show ?thesis by (simp add: start_def initial_app_def Let_def)
qed

text \<open>C7: Backups of different hosts can run side by side. A backup performs one start and one result on the
  state, or nothing if its dataset could not be created. Take any sequence of operations on the state,
  initialisation aside, in which the starts and results of the host are those of this backup: whatever is
  done for other hosts before, between and after them, however often the scheduler plans hosts and the page
  is shown, the entry of the host ends up as if the backup had run alone, up to the planned time and to
  what the page shortens to full seconds. Without the page it is exactly the same up to the planned time,
  and the planned time is the same too as long as this host itself is not planned.\<close>

theorem backups_side_by_side:
  assumes "PerformBackup os (Some job) w = (r, w')"
  shows "\<exists>mine. backup_ops (Host job) mine
    \<and> (mine = [] \<longleftrightarrow> (\<exists>n. r = ending.Returned (Some (ErrCreate n))))
    \<and> ((\<exists>t u. mine = [LStart (Host job) t, LFailure (Host job) u]) \<longleftrightarrow> mine \<noteq> [] \<and> (\<exists>e. r = ending.Returned (Some e)))
    \<and> (\<forall>ops st. run_of app_step (w_app w) ops st \<longrightarrow> LInit \<notin> set ops \<longrightarrow> filter (own (Host job)) ops = mine \<longrightarrow>
        (let alone = map_of (a_hosts (w_app w')) (Host job); together = map_of (a_hosts st) (Host job) in
          map_option (\<lambda>m. unplanned (to_the_second m)) together = map_option (\<lambda>m. unplanned (to_the_second m)) alone
          \<and> (LIndex \<notin> set ops \<longrightarrow> map_option unplanned together = map_option unplanned alone)
          \<and> ((\<nexists>t. LReschedule (Host job) t \<in> set ops) \<longrightarrow>
               map_option ScheduledAt together = map_option ScheduledAt alone)))"
proof -
  obtain mine where m: "backup_ops (Host job) mine" "run_of app_step (w_app w) mine (w_app w')"
    "mine = [] \<longleftrightarrow> (\<exists>n. r = ending.Returned (Some (ErrCreate n)))"
    "(\<exists>t u. mine = [LStart (Host job) t, LFailure (Host job) u]) \<longleftrightarrow> mine \<noteq> [] \<and> (\<exists>e. r = ending.Returned (Some e))"
    using PerformBackup_ops [OF assms] by (elim exE conjE) (rule that)
  show ?thesis
  proof (intro exI [of _ mine] conjI allI impI)
    fix ops st
    assume "run_of app_step (w_app w) ops st" "LInit \<notin> set ops" "filter (own (Host job)) ops = mine"
    then show "let alone = map_of (a_hosts (w_app w')) (Host job); together = map_of (a_hosts st) (Host job) in
          map_option (\<lambda>m. unplanned (to_the_second m)) together = map_option (\<lambda>m. unplanned (to_the_second m)) alone
          \<and> (LIndex \<notin> set ops \<longrightarrow> map_option unplanned together = map_option unplanned alone)
          \<and> ((\<nexists>t. LReschedule (Host job) t \<in> set ops) \<longrightarrow>
               map_option ScheduledAt together = map_option ScheduledAt alone)"
      using shown_entry.agree [of "w_app w" ops st "Host job" "w_app w'"]
        unshown_entry.agree [of "w_app w" ops st "Host job" "w_app w'"]
        planned_time.agree [of "w_app w" ops st "Host job" "w_app w'"] m(2)
      by (auto simp: Let_def)
  qed (use m(1,3,4) in auto)
qed

text \<open>The two hosts interleave, the page is shown in between.\<close>

lemma backups_side_by_side_witness:
  "\<exists>t u st. run_of app_step (w_app example_world)
      [LStart ''b'' 1, LStart ''a'' t, LIndex, LFailure ''b'' 2, LSuccess ''a'' u] st \<and>
    map_option (\<lambda>m. unplanned (to_the_second m)) (map_of (a_hosts st) ''a'')
    = map_option (\<lambda>m. unplanned (to_the_second m))
        (map_of (a_hosts (w_app (snd (PerformBackup (example_os []) (Some example_job) example_world)))) ''a'')"
proof -
  have h: "Host example_job = ''a''" by (simp add: example_job_def Host_def new_job_def)
  let ?r = "PerformBackup (example_os []) (Some example_job) example_world"
  let ?see = "\<lambda>st. map_option (\<lambda>m. unplanned (to_the_second m)) (map_of (a_hosts st) ''a'')"
  have r: "?r = (ending.Returned None, snd ?r)" using example_backup(2) by (metis prod.collapse)
  obtain mine where o: "backup_ops ''a'' mine" "mine \<noteq> []" "\<not> (\<exists>t u. mine = [LStart ''a'' t, LFailure ''a'' u])"
      "\<And>ops st. \<lbrakk>run_of app_step (w_app example_world) ops st; LInit \<notin> set ops; filter (own ''a'') ops = mine\<rbrakk>
         \<Longrightarrow> ?see st = ?see (w_app (snd ?r))"
    using backups_side_by_side [OF r] unfolding h Let_def
    by (elim exE conjE) (metis ending.inject option.distinct(1))
  obtain t u where "mine = [LStart ''a'' t, LSuccess ''a'' u]" using o(1-3) by (auto simp: backup_ops_def)
  moreover have "\<exists>st. run_of app_step s [LStart ''b'' 1, LStart ''a'' t, LIndex, LFailure ''b'' 2, LSuccess ''a'' u] st" for s
    by (rule exI) ((rule run_cons [where step = app_step], rule life_start life_success life_failure life_index)+, rule run_nil)
  ultimately show ?thesis using o(4) by (fastforce simp: own_def)
qed

end
