(* ===== verification/Daemon.thy ===== *)
theory Daemon imports Cmd_Serve App_Hosts begin

text \<open>
  The whole daemon: the processes of \<open>serve\<close> (\<open>Cmd_Serve\<close>) and the state of the application in one
  transition system. A step is labelled with the event of the processes and the operations on
  the state that make it up, so that both are projections of the daemon. The scheduler's poll is
  cut where it may wait, a backup where it touches the state: before the dataset is created,
  between start and result, and between the result and the moment the worker is done with its job.
\<close>

section \<open>The pieces of a poll\<close>

text \<open>
  A round of \<open>run\<close> up to \<open>Enqueue\<close>: the job to enqueue, if any; \<open>None\<close> is a panic.
\<close>

definition visit_check :: "string \<Rightarrow> (int \<Rightarrow> int) \<Rightarrow> time \<Rightarrow> app \<Rightarrow> (app \<times> job option) option" where
  "visit_check host rnd now st =
     (case map_of (a_hosts st) host of
        None \<Rightarrow> Some (st, None)
      | Some m \<Rightarrow>
          (case (if is_zero (ScheduledAt m) then reschedule rnd host now st else Some st) of
             None \<Rightarrow> None
           | Some st \<Rightarrow>
               (let m = (case map_of (a_hosts st) host of Some m' \<Rightarrow> m' | None \<Rightarrow> m)
                in Some (st, if Status m = StatusRunning \<or> now < ScheduledAt m then None else Some (m_job m)))))"

text \<open>The round as a whole: the check, what happens while the job is sent, and the new plan.\<close>

lemma sched_visit_pieces:
  "sched_visit h k st =
     (case visit_check h (k_rnd k) (k_now k) st of
        None \<Rightarrow> None
      | Some (st, None) \<Rightarrow> Some (st, None)
      | Some (st, Some j) \<Rightarrow>
          map_option (\<lambda>st. (st, Some j)) (reschedule (k_rnd2 k) h (k_later k) (k_meanwhile k st)))"
  by (simp add: sched_visit_def visit_check_def Let_def split: option.split)

section \<open>The daemon\<close>

datatype poll = NotPolling | Polling "string list" | Sending string "string list"

text \<open>
  Where a worker is in \<open>PerformBackup\<close>: before \<open>state.start\<close>, between start and result, and from the
  result on (or the failed creation of the dataset) until \<open>jobGroup.Done\<close>.
\<close>

datatype stage = NoBackup | Creating | Working | Ended

record daemon =
  d_serve :: serve
  d_app :: app
  d_poll :: poll
  d_stage :: "nat \<Rightarrow> stage"
  d_panicked :: bool

definition live_workers :: "daemon \<Rightarrow> (nat \<times> work) list" where
  "live_workers d = q_live (sv_queue (d_serve d))"

definition stopping :: "daemon \<Rightarrow> bool" where
  "stopping d \<longleftrightarrow> s_stop (sv_sched (d_serve d))"

text \<open>A job that \<open>PerformBackup\<close> can run to its end.\<close>

definition complete_job :: "job_config \<Rightarrow> bool" where
  "complete_job j \<longleftrightarrow> SSH j \<noteq> None \<and> RSync j \<noteq> None"

type_synonym daemon_label = "serve_event list \<times> app_op list"

text \<open>
  A poll visits the hosts it finds when it begins, in any order. The page is shown while the
  server listens. A panic in any goroutine ends the process: that of a poll, of a backup, and that
  of \<open>Stop\<close> when it closes the channel \<open>Start\<close> has not made yet. The result of a backup and the
  end of its job are separate steps: in between the host does not count as running any more.
\<close>

inductive daemon_step :: "daemon \<Rightarrow> daemon_label \<Rightarrow> daemon \<Rightarrow> bool" where
  dm_process:
    "\<not> d_panicked d \<Longrightarrow> serve_step (d_serve d) e s \<Longrightarrow>
       e \<in> {SvSched EvStart, SvSched EvQuit, SvListen, SvSignal, SvStopped, SvExit}
         \<or> (\<exists>j c. e \<in> {SvQueue (QSend j), SvQueue (QQuit c), SvQueue QSpawn}) \<Longrightarrow>
       daemon_step d ([e], []) (d\<lparr>d_serve := s, d_panicked := s_crashed (sv_sched s)\<rparr>)"
| dm_timer:
    "\<not> d_panicked d \<Longrightarrow> serve_step (d_serve d) (SvSched EvTimer) s \<Longrightarrow>
       distinct todo \<Longrightarrow> set todo = fst ` set (a_hosts (d_app d)) \<Longrightarrow>
       daemon_step d ([SvSched EvTimer], []) (d\<lparr>d_serve := s, d_poll := Polling todo\<rparr>)"
| dm_skip:
    "\<not> d_panicked d \<Longrightarrow> alive (d_serve d) \<Longrightarrow> d_poll d = Polling (h # hs) \<Longrightarrow> \<not> stopping d \<Longrightarrow>
       visit_check h rnd now (d_app d) = Some (st, None) \<Longrightarrow> run_of app_step (d_app d) ops st \<Longrightarrow>
       list_all (\<lambda>op. \<exists>t. op = LReschedule h t) ops \<Longrightarrow>
       daemon_step d ([], ops) (d\<lparr>d_app := st, d_poll := Polling hs\<rparr>)"
| dm_enqueue:
    "\<not> d_panicked d \<Longrightarrow> d_poll d = Polling (h # hs) \<Longrightarrow> \<not> stopping d \<Longrightarrow>
       visit_check h rnd now (d_app d) = Some (st, Some j) \<Longrightarrow> run_of app_step (d_app d) ops st \<Longrightarrow>
       list_all (\<lambda>op. \<exists>t. op = LReschedule h t) ops \<Longrightarrow>
       serve_step (d_serve d) (SvEnqueue j) s \<Longrightarrow>
       daemon_step d ([SvEnqueue j], ops) (d\<lparr>d_serve := s, d_app := st, d_poll := Sending h hs\<rparr>)"
| dm_plan:
    "\<not> d_panicked d \<Longrightarrow> alive (d_serve d) \<Longrightarrow> d_poll d = Sending h hs \<Longrightarrow> q_blocked (sv_queue (d_serve d)) = [] \<Longrightarrow>
       reschedule rnd h t (d_app d) = Some st \<Longrightarrow>
       daemon_step d ([], [LReschedule h t]) (d\<lparr>d_app := st, d_poll := Polling hs\<rparr>)"
| dm_poll_panics:
    "\<not> d_panicked d \<Longrightarrow> alive (d_serve d) \<Longrightarrow>
       d_poll d = Polling (h # hs) \<and> \<not> stopping d \<and> visit_check h rnd t (d_app d) = None
         \<or> d_poll d = Sending h hs \<and> q_blocked (sv_queue (d_serve d)) = [] \<and> reschedule rnd h t (d_app d) = None \<Longrightarrow>
       daemon_step d ([], []) (d\<lparr>d_panicked := True\<rparr>)"
| dm_poll_ends:
    "\<not> d_panicked d \<Longrightarrow> serve_step (d_serve d) (SvSched EvRunDone) s \<Longrightarrow>
       d_poll d = Polling hs \<Longrightarrow> hs = [] \<or> stopping d \<Longrightarrow>
       daemon_step d ([SvSched EvRunDone], []) (d\<lparr>d_serve := s, d_poll := NotPolling\<rparr>)"
| dm_take:
    "\<not> d_panicked d \<Longrightarrow> serve_step (d_serve d) (SvQueue (QTake c j)) s \<Longrightarrow>
       daemon_step d ([SvQueue (QTake c j)], [])
         (d\<lparr>d_serve := s, d_stage := (d_stage d)(c := Creating), d_panicked := (j = None)\<rparr>)"
| dm_create_fails:
    "\<not> d_panicked d \<Longrightarrow> alive (d_serve d) \<Longrightarrow> d_stage d c = Creating \<Longrightarrow> (c, Busy j) \<in> set (live_workers d) \<Longrightarrow>
       daemon_step d ([], []) (d\<lparr>d_stage := (d_stage d)(c := Ended)\<rparr>)"
| dm_begin:
    "\<not> d_panicked d \<Longrightarrow> alive (d_serve d) \<Longrightarrow> d_stage d c = Creating \<Longrightarrow> (c, Busy (Some job)) \<in> set (live_workers d) \<Longrightarrow>
       daemon_step d ([], [LStart (Host job) t])
         (d\<lparr>d_app := fst (start (Host job) t (d_app d)), d_stage := (d_stage d)(c := Working)\<rparr>)"
| dm_succeeds:
    "\<not> d_panicked d \<Longrightarrow> alive (d_serve d) \<Longrightarrow> d_stage d c = Working \<Longrightarrow> (c, Busy (Some job)) \<in> set (live_workers d) \<Longrightarrow>
       daemon_step d ([], [LSuccess (Host job) t])
         (d\<lparr>d_app := fst (success (Host job) t (d_app d)), d_stage := (d_stage d)(c := Ended)\<rparr>)"
| dm_fails:
    "\<not> d_panicked d \<Longrightarrow> alive (d_serve d) \<Longrightarrow> d_stage d c = Working \<Longrightarrow> (c, Busy (Some job)) \<in> set (live_workers d) \<Longrightarrow>
       daemon_step d ([], [LFailure (Host job) t])
         (d\<lparr>d_app := fst (failure (Host job) t (d_app d)), d_stage := (d_stage d)(c := Ended)\<rparr>)"
| dm_finish:
    "\<not> d_panicked d \<Longrightarrow> d_stage d c = Ended \<Longrightarrow> serve_step (d_serve d) (SvQueue (QFinish c j)) s \<Longrightarrow>
       daemon_step d ([SvQueue (QFinish c j)], []) (d\<lparr>d_serve := s, d_stage := (d_stage d)(c := NoBackup)\<rparr>)"
| dm_backup_panics:
    "\<not> d_panicked d \<Longrightarrow> alive (d_serve d) \<Longrightarrow> d_stage d c = Working \<Longrightarrow> (c, Busy (Some job)) \<in> set (live_workers d) \<Longrightarrow>
       \<not> complete_job job \<Longrightarrow>
       daemon_step d ([], [LSuccess (Host job) t])
         (d\<lparr>d_app := fst (success (Host job) t (d_app d)), d_panicked := True\<rparr>)"
| dm_page:
    "\<not> d_panicked d \<Longrightarrow> alive (d_serve d) \<Longrightarrow> sv_http (d_serve d) = HttpListening \<Longrightarrow>
       daemon_step d ([], [LIndex]) (d\<lparr>d_app := handleIndex (d_app d)\<rparr>)"

inductive_cases daemon_stepE: "daemon_step d l d'"

text \<open>Only a signal crashes the scheduler; what else moves the processes leaves the rest as it is.\<close>

lemma serve_not_crashed: "serve_step s e s' \<Longrightarrow> e \<noteq> SvSignal \<Longrightarrow> \<not> s_crashed (sv_sched s) \<and> \<not> s_crashed (sv_sched s')"
  by (erule serve_stepE) (auto simp: alive_def sched_Start_def sched_leave_def elim!: sched_stepE)

lemma dm_move:
  assumes "\<not> d_panicked d" and "serve_step (d_serve d) e s"
    and "e \<in> {SvSched EvStart, SvSched EvQuit, SvListen, SvStopped, SvExit}
      \<or> (\<exists>j c. e \<in> {SvQueue (QSend j), SvQueue (QQuit c), SvQueue QSpawn})"
  shows "daemon_step d ([e], []) (d\<lparr>d_serve := s\<rparr>)"
proof -
  have "\<not> s_crashed (sv_sched s)" using serve_not_crashed [OF assms(2)] assms(3) by auto
  then have "d\<lparr>d_serve := s, d_panicked := s_crashed (sv_sched s)\<rparr> = d\<lparr>d_serve := s\<rparr>" using assms(1) by (cases d) simp
  then show ?thesis using dm_process [OF assms(1,2)] assms(3) by auto
qed

text \<open>The daemon of \<open>serve\<close> after the set-up left \<open>st\<close> and \<open>q\<close>.\<close>

definition daemon_start :: "app \<Rightarrow> queue \<Rightarrow> daemon" where
  "daemon_start st q =
     \<lparr>d_serve = serve_start q, d_app = st, d_poll = NotPolling, d_stage = (\<lambda>_. NoBackup), d_panicked = False\<rparr>"

text \<open>How a backup touches the state is what the runner does: \<open>PerformBackup\<close> panics only on an
  incomplete job, and its operations are those of the stages.\<close>

lemma PerformBackup_complete:
  assumes "PerformBackup os (Some job) w = (r, w')" and "complete_job job"
  shows "r \<noteq> Panicked"
  using assms(1)
proof (cases rule: PerformBackup_cases)
  case (run w1 w2)
  then show ?thesis using run_tunnel_panicked [of os job] assms(2) by (auto simp: complete_job_def)
qed simp

section \<open>The invariant\<close>

abbreviation keys_of :: "app \<Rightarrow> string set" where
  "keys_of st \<equiv> fst ` set (a_hosts st)"

definition hosts_complete :: "app \<Rightarrow> bool" where
  "hosts_complete st \<longleftrightarrow> Service (a_tree st) \<noteq> None
     \<and> (\<forall>h m. map_of (a_hosts st) h = Some m \<longrightarrow> (\<exists>j. m_job m = Some j \<and> Host j = h \<and> complete_job j))"

definition jobs_known :: "job list \<Rightarrow> app \<Rightarrow> bool" where
  "jobs_known js st \<longleftrightarrow> (\<forall>j\<in>set js. \<exists>job. j = Some job \<and> complete_job job \<and> Host job \<in> keys_of st)"

definition poll_known :: "poll \<Rightarrow> app \<Rightarrow> bool" where
  "poll_known p st = (case p of NotPolling \<Rightarrow> True | Polling hs \<Rightarrow> set hs \<subseteq> keys_of st
     | Sending h hs \<Rightarrow> set (h # hs) \<subseteq> keys_of st)"

definition daemon_ok :: "daemon \<Rightarrow> bool" where
  "daemon_ok d \<longleftrightarrow> serve_ok (d_serve d) \<and> app_ok (d_app d) \<and> hosts_complete (d_app d)
     \<and> jobs_known (pending (sv_queue (d_serve d))) (d_app d) \<and> poll_known (d_poll d) (d_app d)
     \<and> (d_panicked d \<longleftrightarrow> s_crashed (sv_sched (d_serve d)))"

definition daemon_init :: "daemon \<Rightarrow> bool" where
  "daemon_init d \<longleftrightarrow> (\<exists>st q. d = daemon_start st q \<and> queue_ok q \<and> pending q = [] \<and> app_ok st \<and> hosts_complete st)"

text \<open>Operations on known hosts keep the hosts and their jobs.\<close>

definition same_jobs :: "app \<Rightarrow> app \<Rightarrow> bool" where
  "same_jobs st st' \<longleftrightarrow> a_tree st' = a_tree st
     \<and> (\<forall>h. map_option m_job (map_of (a_hosts st') h) = map_option m_job (map_of (a_hosts st) h))"

lemma same_jobs_keys: "same_jobs st st' \<Longrightarrow> keys_of st' = keys_of st"
proof -
  assume "same_jobs st st'"
  then have "map_of (a_hosts st') h = None \<longleftrightarrow> map_of (a_hosts st) h = None" for h
    unfolding same_jobs_def by (metis map_option_is_None)
  then show ?thesis by (auto simp: map_of_eq_None_keys set_eq_iff)
qed

lemma same_jobs_complete: "same_jobs st st' \<Longrightarrow> hosts_complete st \<Longrightarrow> hosts_complete st'"
  unfolding hosts_complete_def same_jobs_def by (metis (no_types, lifting) map_option_eq_Some)

lemma same_jobs_known: "same_jobs st st' \<Longrightarrow> jobs_known js st \<Longrightarrow> jobs_known js st'"
  by (simp add: jobs_known_def same_jobs_keys)

lemma same_jobs_poll: "same_jobs st st' \<Longrightarrow> poll_known p st \<Longrightarrow> poll_known p st'"
  by (simp add: poll_known_def same_jobs_keys split: poll.splits)

lemma same_jobs_refl [simp]: "same_jobs st st"
  by (simp add: same_jobs_def)

lemma same_jobs_trans: "same_jobs st st' \<Longrightarrow> same_jobs st' st'' \<Longrightarrow> same_jobs st st''"
  by (simp add: same_jobs_def)

lemma start_same: "h \<in> keys_of st \<Longrightarrow> same_jobs st (fst (start h t st))"
  by (auto simp: same_jobs_def start_def Let_def map_of_eq_None_keys split: option.split)

lemma result_same: "same_jobs st (fst (success h t st))" "same_jobs st (fst (failure h t st))"
  by (auto simp: same_jobs_def success_def failure_def Let_def split: option.split)

lemma reschedule_same: "reschedule rnd h t st = Some st' \<Longrightarrow> same_jobs st st'"
  by (auto simp: same_jobs_def reschedule_def split: option.splits)

lemma handleIndex_same: "same_jobs st (handleIndex st)"
  by (auto simp: same_jobs_def handleIndex_entry handleIndex_def option.map_comp comp_def map_of_map)

section \<open>The invariant is kept\<close>

lemma internal_pending: "queue_step q e q' \<Longrightarrow> internal e \<Longrightarrow> set (pending q') \<subseteq> set (pending q)"
  by (erule queue_stepE) (auto simp: internal_def pending_def running_def newWorker_def)

lemma pending_Enqueue: "set (pending (Enqueue j q)) = insert j (set (pending q))"
  by (auto simp: pending_def running_def Enqueue_def)

lemma serve_pending:
  "serve_step s e s' \<Longrightarrow> set (pending (sv_queue s')) \<subseteq> set (pending (sv_queue s)) \<union> {j. e = SvEnqueue j}"
  by (erule serve_stepE) (auto simp: pending_Enqueue dest: subsetD [OF internal_pending, rotated 2])

lemma jobs_known_serve:
  "serve_step s e s' \<Longrightarrow> (\<And>j. e \<noteq> SvEnqueue j) \<Longrightarrow> jobs_known (pending (sv_queue s)) st
     \<Longrightarrow> jobs_known (pending (sv_queue s')) st"
  using serve_pending [of s e s'] unfolding jobs_known_def by blast

lemma live_pending: "(c, Busy j) \<in> set (q_live q) \<Longrightarrow> j \<in> set (pending q)"
  by (force simp: pending_def running_def)

lemma take_pending: "serve_step s (SvQueue (QTake c j)) s' \<Longrightarrow> j \<in> set (pending (sv_queue s))"
  by (elim serve_stepE queue_stepE) (auto simp: pending_def)

lemma visit_check_same: "visit_check h rnd now st = Some (st', r) \<Longrightarrow> same_jobs st st'"
  unfolding visit_check_def Let_def
  by (split option.split_asm, simp) (auto split: option.splits if_splits dest: reschedule_same)

lemma visit_check_enqueues:
  assumes "visit_check h rnd now st = Some (st', Some j)" and "hosts_complete st"
  shows "\<exists>job. j = Some job \<and> Host job = h \<and> complete_job job \<and> h \<in> keys_of st"
proof -
  obtain m where m: "map_of (a_hosts st) h = Some m" using assms(1) by (auto simp: visit_check_def split: option.splits)
  have same: "same_jobs st st'" using visit_check_same [OF assms(1)] .
  have "map_option m_job (map_of (a_hosts st') h) = Some (m_job m)" using same m by (simp add: same_jobs_def)
  then obtain m' where m': "map_of (a_hosts st') h = Some m'" "m_job m' = m_job m" by auto
  then have "j = m_job m"
    using assms(1) m by (auto simp: visit_check_def Let_def split: option.splits if_splits)
  moreover obtain job where "m_job m = Some job" "Host job = h" "complete_job job"
    using assms(2) m unfolding hosts_complete_def by blast
  moreover have "h \<in> keys_of st" using m by (metis map_of_eq_None_keys option.distinct(1))
  ultimately show ?thesis by simp
qed

lemma visit_check_job: "visit_check h rnd now st = Some (st', Some j) \<Longrightarrow> hosts_complete st \<Longrightarrow> jobs_known [j] st"
  using visit_check_enqueues by (fastforce simp: jobs_known_def)

lemma reschedule_total: "Service (a_tree st) \<noteq> None \<Longrightarrow> reschedule rnd h t st \<noteq> None"
  by (auto simp: reschedule_def split: option.split)

lemma visit_check_total: "Service (a_tree st) \<noteq> None \<Longrightarrow> visit_check h rnd now st \<noteq> None"
  using reschedule_total [of st rnd h now] by (auto simp: visit_check_def Let_def split: option.split)

text \<open>A step on known hosts keeps what the daemon relies on.\<close>

lemma daemon_ok_frame:
  assumes "daemon_ok d" and "same_jobs (d_app d) st" and "app_ok st" and "serve_ok s"
    and "jobs_known (pending (sv_queue s)) (d_app d)" and "poll_known p (d_app d)"
  shows "daemon_ok \<lparr>d_serve = s, d_app = st, d_poll = p, d_stage = f, d_panicked = s_crashed (sv_sched s)\<rparr>"
  using assms same_jobs_known [OF assms(2,5)] same_jobs_complete [OF assms(2)] same_jobs_poll [OF assms(2,6)]
  by (simp add: daemon_ok_def)

lemma serve_step_ok: "daemon_ok d \<Longrightarrow> serve_step (d_serve d) e s \<Longrightarrow> serve_ok s"
  unfolding daemon_ok_def using serve_ok_step by blast

lemma daemon_ok_serve:
  assumes "daemon_ok d" and "serve_step (d_serve d) e s" and "\<And>j. e \<noteq> SvEnqueue j"
  shows "jobs_known (pending (sv_queue s)) (d_app d)"
  using jobs_known_serve [OF assms(2,3)] assms(1) by (simp add: daemon_ok_def)

lemmas frame = daemon_ok_frame [OF _ same_jobs_refl]

lemma live_known:
  "daemon_ok d \<Longrightarrow> (c, Busy (Some job)) \<in> set (live_workers d) \<Longrightarrow> complete_job job \<and> Host job \<in> keys_of (d_app d)"
  using live_pending [of c "Some job" "sv_queue (d_serve d)"]
  by (auto simp: daemon_ok_def jobs_known_def live_workers_def)

lemma daemon_ok_step:
  assumes ok: "daemon_ok d" and st: "daemon_step d l d'"
  shows "daemon_ok d'"
proof -
  have np: "\<not> d_panicked d" using st by cases simp_all
  have app: "app_ok (d_app d)" and svc: "Service (a_tree (d_app d)) \<noteq> None" and nc: "\<not> s_crashed (sv_sched (d_serve d))"
    and poll: "poll_known (d_poll d) (d_app d)" and sv: "serve_ok (d_serve d)"
    and jobs: "jobs_known (pending (sv_queue (d_serve d))) (d_app d)" and hc: "hosts_complete (d_app d)"
    using ok np by (simp_all add: daemon_ok_def hosts_complete_def)
  note sok = serve_step_ok [OF ok] and js = daemon_ok_serve [OF ok]
  have D: "d\<lparr>d_serve := s, d_app := a, d_poll := p, d_stage := f\<rparr>
      = \<lparr>d_serve = s, d_app = a, d_poll = p, d_stage = f, d_panicked = s_crashed (sv_sched s)\<rparr>"
    if "\<not> s_crashed (sv_sched s)" for s a p f
    using np that by simp
  note nc' = D [OF serve_not_crashed [THEN conjunct2]]
  from st show ?thesis
  proof cases
    case (dm_process e s)
    have "daemon_ok \<lparr>d_serve = s, d_app = d_app d, d_poll = d_poll d, d_stage = d_stage d, d_panicked = s_crashed (sv_sched s)\<rparr>"
      using dm_process js [OF dm_process(4)] by (intro frame [OF ok app] sok poll) auto
    then show ?thesis using dm_process by (cases d) simp
  next
    case (dm_timer s todo)
    have "daemon_ok (d\<lparr>d_serve := s, d_app := d_app d, d_poll := Polling todo, d_stage := d_stage d\<rparr>)"
      unfolding nc' [OF dm_timer(4), simplified] using dm_timer js [OF dm_timer(4)] by (intro frame [OF ok app] sok) (auto simp: poll_known_def)
    then show ?thesis using dm_timer by simp
  next
    case (dm_skip h hs rnd now a ops)
    have "daemon_ok (d\<lparr>d_serve := d_serve d, d_app := a, d_poll := Polling hs, d_stage := d_stage d\<rparr>)"
      unfolding D [OF nc] using dm_skip visit_check_same [OF dm_skip(7)] poll
      by (intro daemon_ok_frame [OF ok] app_life.inv_run [OF _ app] sv jobs) (auto simp: poll_known_def)
    then show ?thesis using dm_skip by simp
  next
    case (dm_enqueue h hs rnd now a j ops s)
    have "jobs_known [j] (d_app d)" using visit_check_job [OF dm_enqueue(6) hc] .
    then have "jobs_known (pending (sv_queue s)) (d_app d)"
      using serve_pending [OF dm_enqueue(9)] jobs by (auto simp: jobs_known_def)
    then have "daemon_ok (d\<lparr>d_serve := s, d_app := a, d_poll := Sending h hs, d_stage := d_stage d\<rparr>)"
      unfolding nc' [OF dm_enqueue(9), simplified] using dm_enqueue visit_check_same [OF dm_enqueue(6)] poll
      by (intro daemon_ok_frame [OF ok] app_life.inv_run [OF _ app] sok) (auto simp: poll_known_def)
    then show ?thesis using dm_enqueue by simp
  next
    case (dm_plan h hs rnd t a)
    have "daemon_ok (d\<lparr>d_serve := d_serve d, d_app := a, d_poll := Polling hs, d_stage := d_stage d\<rparr>)"
      unfolding D [OF nc] using dm_plan reschedule_same [OF dm_plan(7)] poll lifecycle_app_ok(4) [OF app dm_plan(7)]
      by (intro daemon_ok_frame [OF ok] sv jobs) (auto simp: poll_known_def)
    then show ?thesis using dm_plan by simp
  next
    case (dm_poll_panics h hs rnd t)
    then show ?thesis using visit_check_total [OF svc] reschedule_total [OF svc] by blast
  next
    case (dm_poll_ends s hs)
    have "daemon_ok (d\<lparr>d_serve := s, d_app := d_app d, d_poll := NotPolling, d_stage := d_stage d\<rparr>)"
      unfolding nc' [OF dm_poll_ends(4), simplified] using dm_poll_ends js [OF dm_poll_ends(4)] by (intro frame [OF ok app] sok) (auto simp: poll_known_def)
    then show ?thesis using dm_poll_ends by simp
  next
    case (dm_take c j s)
    have "j \<noteq> None" using take_pending [OF dm_take(4)] jobs by (auto simp: jobs_known_def)
    have "daemon_ok (d\<lparr>d_serve := s, d_app := d_app d, d_poll := d_poll d, d_stage := (d_stage d)(c := Creating)\<rparr>)"
      unfolding nc' [OF dm_take(4), simplified] using dm_take js [OF dm_take(4)] by (intro frame [OF ok app] sok poll) auto
    then show ?thesis using dm_take \<open>j \<noteq> None\<close> np by (cases d) simp
  next
    case (dm_create_fails c j)
    have "daemon_ok (d\<lparr>d_serve := d_serve d, d_app := d_app d, d_poll := d_poll d, d_stage := (d_stage d)(c := Ended)\<rparr>)"
      unfolding D [OF nc] by (intro frame [OF ok app] sv jobs poll)
    then show ?thesis using dm_create_fails by simp
  next
    case (dm_begin c job t)
    have "Host job \<in> keys_of (d_app d)" using live_known [OF ok dm_begin(6)] by blast
    then have "daemon_ok (d\<lparr>d_serve := d_serve d, d_app := fst (start (Host job) t (d_app d)), d_poll := d_poll d,
        d_stage := (d_stage d)(c := Working)\<rparr>)"
      unfolding D [OF nc] by (intro daemon_ok_frame [OF ok start_same] lifecycle_app_ok(1) app sv jobs poll)
    then show ?thesis using dm_begin by simp
  next
    case (dm_succeeds c job t)
    have "daemon_ok (d\<lparr>d_serve := d_serve d, d_app := fst (success (Host job) t (d_app d)), d_poll := d_poll d,
        d_stage := (d_stage d)(c := Ended)\<rparr>)"
      unfolding D [OF nc] by (intro daemon_ok_frame [OF ok result_same(1)] lifecycle_app_ok(2) app sv jobs poll)
    then show ?thesis using dm_succeeds by simp
  next
    case (dm_fails c job t)
    have "daemon_ok (d\<lparr>d_serve := d_serve d, d_app := fst (failure (Host job) t (d_app d)), d_poll := d_poll d,
        d_stage := (d_stage d)(c := Ended)\<rparr>)"
      unfolding D [OF nc] by (intro daemon_ok_frame [OF ok result_same(2)] lifecycle_app_ok(3) app sv jobs poll)
    then show ?thesis using dm_fails by simp
  next
    case (dm_finish c j s)
    have "daemon_ok (d\<lparr>d_serve := s, d_app := d_app d, d_poll := d_poll d, d_stage := (d_stage d)(c := NoBackup)\<rparr>)"
      unfolding nc' [OF dm_finish(5), simplified] using dm_finish js [OF dm_finish(5)] by (intro frame [OF ok app] sok poll) auto
    then show ?thesis using dm_finish by simp
  next
    case (dm_backup_panics c job t)
    then show ?thesis using live_known [OF ok dm_backup_panics(6)] by blast
  next
    case dm_page
    have a: "app_ok (handleIndex (d_app d))" using app_life.inv_step [OF app life_index] .
    have "daemon_ok (d\<lparr>d_serve := d_serve d, d_app := handleIndex (d_app d), d_poll := d_poll d, d_stage := d_stage d\<rparr>)"
      unfolding D [OF nc] by (intro daemon_ok_frame [OF ok handleIndex_same] a sv jobs poll)
    then show ?thesis using dm_page by simp
  qed
qed

interpretation daemon_life: invariant_of daemon_init daemon_step daemon_ok
proof
  show "daemon_init d \<Longrightarrow> daemon_ok d" for d
    using serve_life.inv_init
    by (auto simp: daemon_init_def daemon_ok_def daemon_start_def serve_init_def serve_start_def jobs_known_def poll_known_def
        NewScheduler_def)
qed (rule daemon_ok_step)

section \<open>The daemon, its processes and its state\<close>

interpretation daemon_serve: refines daemon_init daemon_step daemon_ok serve_step d_serve fst
proof
  fix d l d'
  assume "daemon_step d l d'"
  then show "run_of serve_step (d_serve d) (fst l) (d_serve d')"
    by cases (auto intro: run_nil run_single [where step = serve_step])
qed

interpretation daemon_app: refines daemon_init daemon_step daemon_ok app_step d_app snd
proof
  fix d l d'
  assume "daemon_step d l d'"
  then show "run_of app_step (d_app d) (snd l) (d_app d')"
    by cases (auto intro: run_nil run_single [where step = app_step] app_step.intros)
qed

section \<open>The scheduler in its loop\<close>

text \<open>The processes with the scheduler in its loop.\<close>

abbreviation serving :: "sched_phase \<Rightarrow> queue \<Rightarrow> serve" where
  "serving p q \<equiv> (serve_start q)\<lparr>sv_sched := (sched_Start NewScheduler)\<lparr>s_phase := p\<rparr>\<rparr>"

lemma serving_steps:
  "serve_step (serve_start q) (SvSched EvStart) (serving sched_phase.Polling q)"
  "serve_step (serving sched_phase.Polling q) (SvSched EvTimer) (serving InRun q)"
  "q_blocked q = [] \<Longrightarrow> serve_step (serving InRun q) (SvSched EvRunDone) (serving sched_phase.Polling q)"
  "q_blocked q = [] \<Longrightarrow> serve_step (serving InRun q) (SvEnqueue j) (serving InRun (Enqueue j q))"
  "internal e \<Longrightarrow> queue_step q e q' \<Longrightarrow> serve_step (serving p q) (SvQueue e) (serving p q')"
proof -
  have a: "alive (serving p q)" "alive (serve_start q)" for p q
    by (simp_all add: alive_def serve_start_def NewScheduler_def sched_Start_def)
  have "sched_step NewScheduler EvStart (sched_Start NewScheduler)"
    by (rule sched_start) (simp_all add: NewScheduler_def)
  then show "serve_step (serve_start q) (SvSched EvStart) (serving sched_phase.Polling q)"
    using sv_sched_move [OF a(2), of q EvStart "sched_Start NewScheduler"] by (simp add: serve_start_def sched_Start_def)
  show "serve_step (serving sched_phase.Polling q) (SvSched EvTimer) (serving InRun q)"
    using sv_sched_move [OF a(1), of sched_phase.Polling q EvTimer] sched_timer [of "(sched_Start NewScheduler)\<lparr>s_phase := sched_phase.Polling\<rparr>"]
    by (simp add: serve_start_def NewScheduler_def sched_Start_def)
  show "q_blocked q = [] \<Longrightarrow> serve_step (serving InRun q) (SvSched EvRunDone) (serving sched_phase.Polling q)"
    using sv_sched_move [OF a(1), of InRun q EvRunDone] sched_run_done [of "(sched_Start NewScheduler)\<lparr>s_phase := InRun\<rparr>"]
    by (simp add: serve_start_def NewScheduler_def sched_Start_def)
  show "q_blocked q = [] \<Longrightarrow> serve_step (serving InRun q) (SvEnqueue j) (serving InRun (Enqueue j q))"
    using sv_enqueue [OF a(1), of InRun q j] by (simp add: serve_start_def)
  show "internal e \<Longrightarrow> queue_step q e q' \<Longrightarrow> serve_step (serving p q) (SvQueue e) (serving p q')"
    using sv_queue_move [OF a(1), of e p q q'] by (simp add: serve_start_def)
qed

lemma serving_fields [simp]:
  "alive (serving p q)" "\<not> s_stop (sched_Start NewScheduler)" "sv_queue (serving p q) = q"
  "\<not> s_crashed (sched_Start NewScheduler)"
  by (simp_all add: alive_def serve_start_def NewScheduler_def sched_Start_def)

abbreviation daemon_at :: "serve \<Rightarrow> app \<Rightarrow> poll \<Rightarrow> daemon" where
  "daemon_at s st p \<equiv> \<lparr>d_serve = s, d_app = st, d_poll = p, d_stage = (\<lambda>_. NoBackup), d_panicked = False\<rparr>"

end
