(* ===== verification/Daemon_Safety.thy ===== *)
theory Daemon_Safety imports Daemon begin

text \<open>
  The daemon after a set-up. With a clean root dataset and complete jobs the set-up leaves exactly
  the hosts of the tree, each with its job, and the daemon panics only when it is stopped before its scheduler
  has started. With a
  trailing slash in the root dataset it leaves an entry without a job, and the daemon dies when
  the entry is due.
\<close>

section \<open>What a load leaves\<close>

lemma load_line_keys:
  "trim_prefix ds rds = h \<Longrightarrow> fst ` set (load_line pf ds rds hs l) \<subseteq> insert h (fst ` set hs)"
  by (auto simp: load_line_def Let_def split: option.split)

lemma load_lines_keys:
  "trim_prefix ds rds = h \<Longrightarrow> fst ` set (foldl (load_line pf ds rds) hs ls) \<subseteq> insert h (fst ` set hs)"
proof (induction ls arbitrary: hs)
  case (Cons l ls)
  show ?case
    using subset_trans [OF Cons.IH [OF Cons.prems] insert_mono [OF load_line_keys [OF Cons.prems, of pf hs l]]] by simp
qed auto

lemma loadHost_keys:
  assumes "loadHost pf zfs h st = (st', err)"
    and "v_RootDataset st = rel_path cs" and "cs \<noteq> []" and "list_all plain_comp cs" and "plain_comp h"
  shows "keys_of st' \<subseteq> insert h (keys_of st)"
proof -
  have "keys_of st' = keys_of st \<or>
      (\<exists>ls. a_hosts st' = foldl (load_line pf (path_join [rel_path cs, h]) (rel_path cs @ ''/'')) (a_hosts st) ls)"
    using assms(1,2) by (auto simp: loadHost_def Let_def split: prod.splits bool.splits)
  then show ?thesis using load_lines_keys [OF dataset_host(2) [OF assms(3-5)], of pf "a_hosts st"] by (metis subset_insertI)
qed

lemma load_host_entry_keys: "keys_of (load_host_entry h n st) \<subseteq> insert h (keys_of st)"
  by (auto simp: load_host_entry_def Let_def split: option.split)

lemma load_loop_keys:
  assumes "load_loop pf zfs n hs st = (st', err)"
    and "v_RootDataset st = rel_path cs" and "cs \<noteq> []" and "list_all plain_comp cs" and "list_all plain_comp hs"
  shows "keys_of st' \<subseteq> set hs \<union> keys_of st"
  using assms(1,2,5)
proof (induction hs arbitrary: st)
  case (Cons h hs)
  obtain st1 e1 where l: "loadHost pf zfs h (load_host_entry h (n h) st) = (st1, e1)" by fastforce
  have k: "keys_of st1 \<subseteq> insert h (keys_of st)"
    using loadHost_keys [OF l _ assms(3,4)] load_host_entry_keys [of h "n h" st] Cons.prems by auto
  show ?case
  proof (cases e1)
    case None
    then show ?thesis using Cons.IH [of st1] Cons.prems l k loadHost_frame [OF l] by auto
  next
    case (Some e)
    then show ?thesis using Cons.prems(1) l k by auto
  qed
qed simp

text \<open>The hosts after a complete initialisation are those of the tree, each with its job.\<close>

lemma InitializeState_hosts:
  assumes "InitializeState pf zfs rnd now t st = Some (st', None)" and "Service t = Some svc"
    and "RootDataset svc = rel_path cs" and "cs \<noteq> []" and "list_all plain_comp cs" and "list_all plain_comp (Hosts t)"
  shows "keys_of st' = set (Hosts t)" and "a_tree st' = t"
    and "map_of (a_hosts st') h = Some m \<Longrightarrow> m_job m = tree_Host t h"
proof -
  let ?a = "st\<lparr>a_hosts := [], a_tree := t, v_RootDataset := RootDataset svc, v_MountBase := MountBase svc,
     v_RSyncPath := (if RSyncPath svc \<noteq> [] then RSyncPath svc else v_RSyncPath st),
     v_SSHPath := (if SSHPath svc \<noteq> [] then SSHPath svc else v_SSHPath st)\<rparr>"
  let ?n = "\<lambda>h. NextSchedule (rnd h) svc now"
  have l: "load_loop pf zfs ?n (Hosts t) ?a = (st', None)"
    using assms(1,2) by (simp add: InitializeState_def load_def)
  show "a_tree st' = t" using load_loop_frame [OF l] by simp
  have covers: "\<exists>m. map_of (a_hosts st') h = Some m \<and> m_job m = tree_Host t h" if "h \<in> set (Hosts t)" for h
    using load_loop_covers [OF l that] that Hosts_known by fastforce
  have "keys_of st' \<subseteq> set (Hosts t)" using load_loop_keys [OF l _ assms(4-6)] assms(3) by simp
  moreover have "set (Hosts t) \<subseteq> keys_of st'" using covers by (metis map_of_eq_None_keys option.distinct(1) subsetI)
  ultimately show k: "keys_of st' = set (Hosts t)" by blast
  assume m: "map_of (a_hosts st') h = Some m"
  then have "h \<in> keys_of st'" by (metis map_of_eq_None_keys option.distinct(1))
  then show "m_job m = tree_Host t h" using covers k m by force
qed

definition jobs_complete :: "tree \<Rightarrow> bool" where
  "jobs_complete t \<longleftrightarrow> list_all (\<lambda>h. case tree_Host t h of Some j \<Rightarrow> complete_job j | None \<Rightarrow> True) (Hosts t)"

lemma jobs_completeD: "jobs_complete t \<Longrightarrow> tree_Host t h = Some j \<Longrightarrow> complete_job j"
  using Hosts_known [of h t] by (force simp: jobs_complete_def list_all_iff)

lemma hosts_complete_start:
  assumes "InitializeState pf zfs rnd now t st = Some (st', None)" and "Service t = Some svc"
    and "RootDataset svc = rel_path cs" and "cs \<noteq> []" and "list_all plain_comp cs" and "list_all plain_comp (Hosts t)"
    and "tree_ok t" and "jobs_complete t"
  shows "hosts_complete st'"
  unfolding hosts_complete_def
proof (intro conjI allI impI)
  note i = InitializeState_hosts [OF assms(1-6)]
  show "Service (a_tree st') \<noteq> None" using i(2) assms(2) by simp
  fix h m
  assume m: "map_of (a_hosts st') h = Some m"
  then have "h \<in> keys_of st'" by (metis map_of_eq_None_keys option.distinct(1))
  then obtain j where "tree_Host t h = Some j" using i(1) Hosts_known by blast
  then show "\<exists>j. m_job m = Some j \<and> Host j = h \<and> complete_job j"
    using i(3) [OF m] jobs_completeD [OF assms(8)] tree_Host_name [OF assms(7)] by (auto simp: Host_def)
qed

lemma daemon_step_same: "daemon_ok d \<Longrightarrow> daemon_step d l d' \<Longrightarrow> same_jobs (d_app d) (d_app d')"
  by (erule daemon_stepE)
    (auto dest: visit_check_same reschedule_same live_known intro: start_same result_same handleIndex_same)

lemma daemon_run_same: "run_of daemon_step d ls d' \<Longrightarrow> daemon_ok d \<Longrightarrow> same_jobs (d_app d) (d_app d')"
proof (induction rule: run_of.induct)
  case (run_cons d l d1 ls d')
  then show ?case
    using same_jobs_trans [OF daemon_step_same [OF run_cons.prems run_cons.hyps(1)]]
      daemon_ok_step [OF run_cons.prems run_cons.hyps(1)] by blast
qed simp

section \<open>Jobs that are complete\<close>

text \<open>Where the global configuration has both sections, every job of the tree is complete.\<close>

lemma merge_complete: "complete_job g \<Longrightarrow> SSH j = merge_ssh s (SSH g) \<Longrightarrow> RSync j = merge_rsync r (RSync g) \<Longrightarrow> complete_job j"
  by (auto simp: complete_job_def merge_ssh_def merge_rsync_def split: option.splits)

lemma merge_hosts_complete:
  assumes "grow_ok gr" and "complete_job g" and "(k, j) \<in> set (merge_hosts gr hosts g)"
  shows "complete_job j"
proof (rule merge_hosts_shape [OF assms(1), of hosts g])
  fix merged
  assume z: "merge_hosts gr hosts g = zip (map fst hosts) merged"
    and m: "map (\<lambda>j. (job_host j, SSH j, RSync j)) merged =
      map (\<lambda>(_, j). (job_host j, merge_ssh (SSH j) (SSH g), merge_rsync (RSync j) (RSync g))) hosts"
  have "j \<in> set merged" using assms(3) z by (metis set_zip_rightD)
  then have "(job_host j, SSH j, RSync j) \<in> set (map (\<lambda>j. (job_host j, SSH j, RSync j)) merged)" by simp
  then show ?thesis unfolding m using merge_complete [OF assms(2)] by auto
qed

lemma reload_hosts_complete:
  assumes "env_ok e" and "reload_hosts e g t = (t', None)" and "complete_job g" and "(k, j) \<in> set (t_hosts t')"
  shows "complete_job j"
proof -
  obtain h where "t_hosts t' = merge_hosts (grow e) h g"
    using assms(2) by (auto simp: reload_hosts_def split: prod.splits option.splits)
  then show ?thesis using merge_hosts_complete [OF _ assms(3)] assms(1,4) by (auto simp: env_ok_def)
qed

lemma reload_complete:
  assumes "env_ok e" and "reload e t = (t', None)" and "t_global t' = Some g" and "complete_job g"
    and "tree_Host t' h = Some j"
  shows "complete_job j"
proof -
  obtain t0 g0 where r: "reload_hosts e g0 t0 = (t', None)" and g0: "t_global t0 = Some g0"
    using assms(2) by (auto simp: reload_def Let_def split: prod.splits option.splits)
  have "t_global t' = t_global t0"
    using r by (auto simp: reload_hosts_def split: prod.splits option.splits)
  then have "complete_job g0" using assms(3,4) g0 by simp
  then show ?thesis using reload_hosts_complete [OF assms(1) r] assms(5) by (auto simp: tree_Host_eq dest: map_of_SomeD)
qed

section \<open>The set-up and the daemon\<close>

lemma initConfig_state:
  assumes "env_ok (ce_conf ce)" and "initConfig ce (initial_cmd dir) = (InitDone, st)" and "Service (c_tree st) = Some svc"
  shows "tree_ok (c_tree st)" and "c_queue st = Resize (uint (Parallel svc)) NewQueue"
    and "\<exists>a. InitializeState (ce_float ce) (ce_zfs ce) (ce_rnd ce) (ce_now ce) (c_tree st) a = Some (c_app st, None)"
proof -
  let ?s = "init_root ce (init_logging ce (initial_cmd dir))"
  obtain t where t: "SetRoot (ce_conf ce) (c_treeRoot ?s) (c_tree ?s) = (t, None)"
    using assms(2) by (auto simp: initConfig_def Let_def split: prod.splits option.splits)
  let ?s1 = "?s\<lparr>c_tree := t, c_validArgs := Hosts t\<rparr>"
  have i: "(case Service t of None \<Rightarrow> (InitDone, ?s1) | Some svc \<Rightarrow> init_service ce svc ?s1) = (InitDone, st)"
    using assms(2) t by (simp add: initConfig_def Let_def)
  obtain svc' where s: "Service (c_tree ?s1) = Some svc'" "init_service ce svc' ?s1 = (InitDone, st)"
    using i assms(3) by (cases "Service t") auto
  note d = init_service_Done [OF s(2,1)]
  have c: "c_tree (initial_cmd dir) = NewTree []" "c_queue (initial_cmd dir) = NewQueue"
    by (simp_all add: initial_cmd_def)
  show "tree_ok (c_tree st)" using SetRoot_ok [OF assms(1) _ t] NewTree_ok d(1) c by simp
  have "svc' = svc" using d(1) s(1) assms(3) by simp
  then show "c_queue st = Resize (uint (Parallel svc)) NewQueue" using d(3) c by simp
  show "\<exists>a. InitializeState (ce_float ce) (ce_zfs ce) (ce_rnd ce) (ce_now ce) (c_tree st) a = Some (c_app st, None)"
    using s(2) by (auto simp: init_service_def Let_def split: prod.splits option.splits if_splits)
qed

lemma resized_queue: "queue_ok (Resize n NewQueue)" "pending (Resize n NewQueue) = []"
  using queue_ok_step [OF NewQueue_ok step_resize]
  by (simp_all add: pending_def running_def Resize_def Let_def NewQueue_def newWorker_def)

lemma initConfig_daemon:
  assumes "env_ok (ce_conf ce)" and "initConfig ce (initial_cmd dir) = (InitDone, st)"
    and "Service (c_tree st) = Some svc" and "RootDataset svc = rel_path cs" and "cs \<noteq> []" and "list_all plain_comp cs"
    and "list_all plain_comp (Hosts (c_tree st))" and "jobs_complete (c_tree st)"
  shows "daemon_init (daemon_start (c_app st) (c_queue st))"
    and "keys_of (c_app st) = set (Hosts (c_tree st))"
    and "map_of (a_hosts (c_app st)) h = Some m \<Longrightarrow> m_job m = tree_Host (c_tree st) h"
proof -
  note i = initConfig_state [OF assms(1-3)]
  obtain a where a: "InitializeState (ce_float ce) (ce_zfs ce) (ce_rnd ce) (ce_now ce) (c_tree st) a = Some (c_app st, None)"
    using i(3) by blast
  show "daemon_init (daemon_start (c_app st) (c_queue st))"
    unfolding daemon_init_def
  proof (intro exI conjI)
    show "hosts_complete (c_app st)" by (rule hosts_complete_start [OF a assms(3-7) i(1) assms(8)])
  qed (use InitializeState_ok [OF a] resized_queue i(2) in simp_all)
  show "keys_of (c_app st) = set (Hosts (c_tree st))"
    "map_of (a_hosts (c_app st)) h = Some m \<Longrightarrow> m_job m = tree_Host (c_tree st) h"
    using InitializeState_hosts [OF a assms(3-7)] by blast+
qed

section \<open>An entry without a job\<close>















section \<open>Properties\<close>

text \<open>C4: The daemon panics exactly if the signal comes before the scheduler's \<open>Start\<close>: after a set-up with a clean
  root dataset, plain host names and complete jobs, in whatever order the scheduler, the workers, the page and
  the signal come, neither a poll nor a backup panics, and \<open>Stop\<close> does, on the channel that was never made,
  exactly in the runs in which the signal arrives before \<open>Start\<close> has run; and the hosts of the state stay those
  of the configuration, each with its job.\<close>

theorem daemon_panics_on_early_signal:
  assumes "env_ok (ce_conf ce)" and "initConfig ce (initial_cmd dir) = (InitDone, st)"
    and "Service (c_tree st) = Some svc" and "RootDataset svc = rel_path cs" and "cs \<noteq> []" and "list_all plain_comp cs"
    and "list_all plain_comp (Hosts (c_tree st))" and "jobs_complete (c_tree st)"
    and "run_of daemon_step (daemon_start (c_app st) (c_queue st)) ls d"
  shows "(d_panicked d \<longleftrightarrow> early_signal (concat (map fst ls)))
    \<and> map_option m_job (map_of (a_hosts (d_app d)) h) = map_option Some (tree_Host (c_tree st) h)"
proof -
  let ?d = "daemon_start (c_app st) (c_queue st)"
  note i = initConfig_daemon [OF assms(1-8)]
  have ok: "daemon_ok ?d" using daemon_life.inv_init [OF i(1)] .
  have "d_panicked d \<longleftrightarrow> s_crashed (sv_sched (d_serve d))" using daemon_life.inv_run [OF assms(9) ok] by (simp add: daemon_ok_def)
  moreover have "s_crashed (sv_sched (d_serve d)) \<longleftrightarrow> early_signal (concat (map fst ls))"
    using serve_crash [OF daemon_serve.run_refines [OF assms(9) ok]] ok
    by (simp add: daemon_ok_def daemon_start_def serve_start_def NewScheduler_def)
  moreover have "map_option m_job (map_of (a_hosts (d_app d)) h) = map_option m_job (map_of (a_hosts (c_app st)) h)"
    using daemon_run_same [OF assms(9) ok] by (simp add: same_jobs_def daemon_start_def)
  moreover have "map_option m_job (map_of (a_hosts (c_app st)) h) = map_option Some (tree_Host (c_tree st) h)"
  proof (cases "map_of (a_hosts (c_app st)) h")
    case None
    then have "h \<notin> set (Hosts (c_tree st))" using i(2) by (simp add: map_of_eq_None_keys)
    then show ?thesis using None by (simp add: Hosts_known)
  next
    case (Some m)
    then have "h \<in> set (Hosts (c_tree st))" using i(2) by (metis map_of_eq_None_keys option.distinct(1))
    then obtain j where "tree_Host (c_tree st) h = Some j" using Hosts_known by blast
    then show ?thesis using Some i(3) [OF Some] by simp
  qed
  ultimately show ?thesis by simp
qed

definition full_job :: job_config where
  "full_job = (new_job [])\<lparr>SSH := Some \<lparr>User = ''root'', Port = 22, Timeout = None\<rparr>,
     RSync := Some \<lparr>Included = [''/etc''], Excluded = [], Arguments = [], OverrideGlobalInclude = False,
       OverrideGlobalExclude = False, OverrideGlobalArguments = False\<rparr>\<rparr>"

definition full_env :: cmd_env where
  "full_env = example_cmd_env\<lparr>ce_conf := (example_env [''/z/hosts/a/config.yml''] [])
     \<lparr>yaml_service := (\<lambda>_. (zero_service\<lparr>RootDataset := ''zroot''\<rparr>, None)), yaml_job := (\<lambda>_. (full_job, None))\<rparr>\<rparr>"

lemma full_env_ok: "env_ok (ce_conf full_env)"
  using example_env_ok by (simp add: full_env_def env_ok_def)

lemma full_reload:
  "\<exists>t. reload (ce_conf full_env) (NewTree ''/z'') = (t, None) \<and> Service t = Some (zero_service\<lparr>RootDataset := ''zroot''\<rparr>)
    \<and> Hosts t = [''a''] \<and> t_global t = Some full_job"
proof -
  let ?e = "ce_conf full_env" and ?h = "[(''a'', full_job\<lparr>job_host := ''a''\<rparr>)]"
  have e: "ce_conf full_env = (example_env [''/z/hosts/a/config.yml''] [])
     \<lparr>yaml_service := (\<lambda>_. (zero_service\<lparr>RootDataset := ''zroot''\<rparr>, None)), yaml_job := (\<lambda>_. (full_job, None))\<rparr>"
    by (simp add: full_env_def)
  have A: "readGlob ?e ''/z/hosts/*/config.yml'' pathToHostVariantA [] = (?h, None)"
    "readGlob ?e ''/z/hosts/*.yml'' pathToHostVariantB ?h = (?h, None)"
    by (simp_all add: e readGlob_def readHostConfig_def example_env_def example_paths)
  have s: "PreScript (full_job\<lparr>job_host := ''a''\<rparr>) = empty_script" "PostScript (full_job\<lparr>job_host := ''a''\<rparr>) = empty_script"
    by (simp_all add: full_job_def new_job_def)
  have "(full_job\<lparr>job_host := ''a''\<rparr>)\<lparr>PreScript := empty_script, PostScript := empty_script\<rparr> = full_job\<lparr>job_host := ''a''\<rparr>"
    by (simp add: full_job_def new_job_def)
  then have H: "readHooks ?e ''/z'' ?h = (?h, None)"
    by (simp add: e readHooks_def readFiles_def example_env_def example_paths s)
  let ?t = "(NewTree ''/z'')\<lparr>t_service := Some (zero_service\<lparr>RootDataset := ''zroot''\<rparr>), t_global := Some full_job,
     t_hosts := merge_hosts (grow ?e) ?h full_job\<rparr>"
  have "reload ?e (NewTree ''/z'') = (?t, None)"
    by (simp add: reload_def reload_hosts_def A H decodeYaml_def NewTree_def example_paths) (simp add: e example_env_def)
  moreover have "grow_ok (grow ?e)" using full_env_ok by (simp add: env_ok_def)
  then have "Hosts ?t = [''a'']" by (simp add: Hosts_def merge_hosts_keys)
  ultimately show ?thesis by (intro exI [of _ ?t]) (simp add: Service_def)
qed

lemma daemon_panics_on_early_signal_witness:
  "\<exists>st d j. initConfig full_env (initial_cmd ''/z'') = (InitDone, st)
    \<and> run_of daemon_step (daemon_start (c_app st) (c_queue st)) [([SvSched EvStart], [])] d
    \<and> \<not> d_panicked d \<and> map_option m_job (map_of (a_hosts (d_app d)) ''a'') = Some (Some j)"
proof -
  obtain t where t: "reload (ce_conf full_env) (NewTree ''/z'') = (t, None)" "Hosts t = [''a'']"
      "Service t = Some (zero_service\<lparr>RootDataset := ''zroot''\<rparr>)" "t_global t = Some full_job"
    using full_reload by blast
  have "ce_zfs full_env = (\<lambda>_. ([], True))" by (simp add: full_env_def example_cmd_env_def)
  then obtain st where st: "initConfig full_env (initial_cmd ''/z'') = (InitDone, st)" "c_tree st = t"
    using initConfig_no_zfs [OF t(1,3)] by blast
  have "complete_job full_job" by (simp add: complete_job_def full_job_def)
  then have "jobs_complete t"
    using reload_complete [OF full_env_ok t(1,4)] by (auto simp: jobs_complete_def list_all_iff split: option.split)
  moreover obtain j where "tree_Host t ''a'' = Some j" using Hosts_known [of "''a''" t] t(2) by auto
  moreover have "daemon_step (daemon_start (c_app st) (c_queue st)) ([SvSched EvStart], [])
      ((daemon_start (c_app st) (c_queue st))\<lparr>d_serve := serving sched_phase.Polling (c_queue st)\<rparr>)"
    using serving_steps(1) [of "c_queue st"] by (intro dm_move) (simp_all add: daemon_start_def)
  then have r: "run_of daemon_step (daemon_start (c_app st) (c_queue st)) [([SvSched EvStart], [])]
      ((daemon_start (c_app st) (c_queue st))\<lparr>d_serve := serving sched_phase.Polling (c_queue st)\<rparr>)"
    by (rule run_single [where step = daemon_step])
  ultimately show ?thesis
    using daemon_panics_on_early_signal [OF full_env_ok st(1) _ _ _ _ _ _ r, of "zero_service\<lparr>RootDataset := ''zroot''\<rparr>" "[''zroot'']" "''a''"]
      st t(2,3) r by (auto simp: plain_comp_def rel_path_def early_signal_def)
qed




end
