(* ===== verification/Daemon_Stop.thy ===== *)
theory Daemon_Stop imports Daemon begin

text \<open>
  The end of the daemon: the runs of the processes that end it (\<open>Cmd_Serve\<close>) are runs of the whole
  daemon, in which backups come to their end and the poll plans the host it has just enqueued.
\<close>

section \<open>Workers and the poll\<close>

text \<open>A busy worker is in a backup, and the poll has begun while the scheduler is in \<open>run\<close>.\<close>

definition daemon_staged :: "daemon \<Rightarrow> bool" where
  "daemon_staged d \<longleftrightarrow>
     (\<forall>c j. (c, Busy j) \<in> set (live_workers d) \<longrightarrow> d_stage d c \<noteq> NoBackup)
     \<and> (d_poll d = NotPolling \<longrightarrow> s_phase (sv_sched (d_serve d)) \<noteq> InRun)"

lemma staged_busy: "daemon_staged d \<Longrightarrow> (c, Busy j) \<in> set (live_workers d) \<Longrightarrow>
     d_stage d c = Creating \<or> d_stage d c = Working \<or> d_stage d c = Ended"
  unfolding daemon_staged_def by (cases "d_stage d c") auto

lemma queue_busy:
  "queue_step q e q' \<Longrightarrow> (c, Busy j) \<in> set (q_live q') \<Longrightarrow> (c, Busy j) \<in> set (q_live q) \<or> e = QTake c j"
  by (erule queue_stepE) (auto simp: Enqueue_def Resize_def newWorker_def Let_def split: if_splits)

lemma serve_busy:
  "serve_step s e s' \<Longrightarrow> (c, Busy j) \<in> set (q_live (sv_queue s')) \<Longrightarrow>
     (c, Busy j) \<in> set (q_live (sv_queue s)) \<or> e = SvQueue (QTake c j)"
  by (erule serve_stepE) (auto simp: Enqueue_def dest: queue_busy)

lemma serve_in_run:
  "serve_step s e s' \<Longrightarrow> s_phase (sv_sched s') = InRun \<Longrightarrow> s_phase (sv_sched s) = InRun \<or> e = SvSched EvTimer"
  by (erule serve_stepE)
    (auto elim!: sched_stepE simp: sched_Start_def sched_Stop_def sched_leave_def Let_def split: if_splits)

lemma serve_finish_idle:
  assumes "serve_step s (SvQueue (QFinish c j)) s'" and "queue_ok (sv_queue s)"
  shows "(c, Busy j') \<notin> set (q_live (sv_queue s'))"
proof -
  obtain ls rs where l: "q_live (sv_queue s) = ls @ (c, Busy j) # rs" "q_live (sv_queue s') = ls @ (c, Idle) # rs"
    using assms(1) by (elim serve_stepE queue_stepE) auto
  have "distinct (map fst (q_live (sv_queue s)))" using assms(2) by (simp add: queue_ok_def queue_channels_def)
  then show ?thesis unfolding l by force
qed

lemma staged_process:
  assumes "daemon_staged d" and "serve_step (d_serve d) e s" and "\<And>c j. e \<noteq> SvQueue (QTake c j)"
    and "p = NotPolling \<Longrightarrow> d_poll d = NotPolling \<and> e \<noteq> SvSched EvTimer \<or> e = SvSched EvRunDone"
  shows "daemon_staged (d\<lparr>d_serve := s, d_app := a, d_poll := p\<rparr>)"
proof -
  have "d_stage d c \<noteq> NoBackup" if "(c, Busy j) \<in> set (q_live (sv_queue s))" for c j
    using assms(1,3) serve_busy [OF assms(2) that] unfolding daemon_staged_def live_workers_def by blast
  moreover have "s_phase (sv_sched s) \<noteq> InRun" if "p = NotPolling"
    using assms(4) [OF that] assms(1) serve_in_run [OF assms(2)] assms(2)
    by (auto simp: daemon_staged_def elim!: serve_stepE sched_stepE)
  ultimately show ?thesis by (auto simp: daemon_staged_def live_workers_def)
qed

lemma daemon_staged_step:
  assumes ok: "daemon_ok d" and sg: "daemon_staged d" and st: "daemon_step d l d'"
  shows "daemon_staged d'"
proof -
  have q: "queue_ok (sv_queue (d_serve d))" using ok by (simp add: daemon_ok_def serve_ok_def)
  have fin: "daemon_staged (d\<lparr>d_serve := s, d_stage := (d_stage d)(c := NoBackup)\<rparr>)"
    if f: "serve_step (d_serve d) (SvQueue (QFinish c i)) s" for s c i
  proof -
    have "c' \<noteq> c \<and> d_stage d c' \<noteq> NoBackup" if "(c', Busy j) \<in> set (q_live (sv_queue s))" for c' j
      using serve_finish_idle [OF f q, of j] serve_busy [OF f that] that sg
      unfolding daemon_staged_def live_workers_def by auto
    moreover have "sv_sched s = sv_sched (d_serve d)" using f by (auto elim: serve_stepE)
    ultimately show ?thesis using sg by (simp add: daemon_staged_def live_workers_def)
  qed
  note proc = staged_process [OF sg]
  from st show ?thesis
  proof cases
    case (dm_process e s)
    have "daemon_staged (d\<lparr>d_serve := s\<rparr>)" using dm_process proc [OF dm_process(4), of "d_poll d" "d_app d"] by auto
    then show ?thesis using dm_process(2) by (simp add: daemon_staged_def live_workers_def)
  next
    case (dm_timer s todo)
    then show ?thesis using proc [OF dm_timer(4), of "poll.Polling todo" "d_app d"] by simp
  next
    case (dm_enqueue h hs rnd now st' j ops s)
    then show ?thesis using proc [OF dm_enqueue(9), of "Sending h hs" st'] by simp
  next
    case (dm_poll_ends s hs)
    then show ?thesis using proc [OF dm_poll_ends(4), of NotPolling "d_app d"] by simp
  next
    case (dm_take c j s)
    have "d_stage d c' \<noteq> NoBackup \<or> c' = c" if "(c', Busy i) \<in> set (q_live (sv_queue s))" for c' i
      using serve_busy [OF dm_take(4) that] sg unfolding daemon_staged_def live_workers_def by auto
    moreover have "sv_sched s = sv_sched (d_serve d)" using dm_take(4) by (auto elim: serve_stepE)
    ultimately show ?thesis using dm_take(1,2) sg by (auto simp: daemon_staged_def live_workers_def)
  next
    case (dm_finish c j s)
    then show ?thesis using fin [OF dm_finish(5)] by simp
  qed (use sg in \<open>auto simp: daemon_staged_def live_workers_def\<close>)
qed

definition daemon_good :: "daemon \<Rightarrow> bool" where
  "daemon_good d \<longleftrightarrow> daemon_ok d \<and> daemon_staged d"

interpretation daemon_stages: invariant_of daemon_init daemon_step daemon_good
proof
  show "daemon_init d \<Longrightarrow> daemon_good d" for d
  proof -
    assume i: "daemon_init d"
    have "daemon_staged d"
      using i live_pending by (force simp: daemon_init_def daemon_staged_def daemon_start_def serve_start_def live_workers_def NewScheduler_def)
    then show ?thesis using daemon_life.inv_init [OF i] by (simp add: daemon_good_def)
  qed
  show "daemon_good d \<Longrightarrow> daemon_step d l d' \<Longrightarrow> daemon_good d'" for d l d'
    using daemon_ok_step daemon_staged_step unfolding daemon_good_def by blast
qed

section \<open>Runs of the processes are runs of the daemon\<close>

definition stop_event :: "serve_event \<Rightarrow> bool" where
  "stop_event e = (case e of SvQueue e \<Rightarrow> internal e | _ \<Rightarrow> ending_event e)"

lemma stop_event_waiting:
  "serve_step s e s' \<Longrightarrow> stop_event e \<Longrightarrow> sv_pc s \<noteq> SvWaiting \<Longrightarrow> sv_pc s' \<noteq> SvWaiting"
  by (erule serve_stepE) auto

lemma serve_alive: "serve_step s e s' \<Longrightarrow> alive s"
  by (erule serve_stepE) simp_all

lemma in_run_stopping:
  assumes "daemon_ok d" and "serve_step (d_serve d) (SvSched EvRunDone) s" and "sv_pc (d_serve d) \<noteq> SvWaiting"
  shows "stopping d"
proof -
  have ok: "serve_ok (d_serve d)" using assms(1) by (simp add: daemon_ok_def)
  have p: "s_phase (sv_sched (d_serve d)) = InRun" "alive (d_serve d)"
    using assms(2) by (auto elim!: serve_stepE sched_stepE)
  then have "sv_pc (d_serve d) = SvStopping"
    using ok assms(3) by (cases "sv_pc (d_serve d)") (auto simp: serve_ok_def)
  then show ?thesis using ok p by (auto simp: serve_ok_def sched_ok_def alive_def stopping_def)
qed

text \<open>A step of the processes takes the daemon at most two.\<close>

lemma lift_step:
  assumes g: "daemon_good d" and s: "serve_step (d_serve d) e s" and e: "stop_event e" and w: "sv_pc (d_serve d) \<noteq> SvWaiting"
  shows "\<exists>ls d'. run_of daemon_step d ls d' \<and> d_serve d' = s \<and> length ls \<le> 2"
proof -
  have ok: "daemon_ok d" and sg: "daemon_staged d" using g by (simp_all add: daemon_good_def)
  have np: "\<not> d_panicked d" and svc: "Service (a_tree (d_app d)) \<noteq> None"
    using ok serve_alive [OF s] by (simp_all add: daemon_ok_def hosts_complete_def alive_def)
  have one: ?thesis if "daemon_step d l d'" "d_serve d' = s" for l d'
    using run_single [where step = daemon_step, OF that(1)] that(2) by (intro exI [of _ "[l]"] exI [of _ d']) simp
  have proc: ?thesis if "e \<in> {SvSched EvStart, SvSched EvQuit, SvListen, SvSignal, SvStopped, SvExit}
         \<or> (\<exists>j c. e \<in> {SvQueue (QSend j), SvQueue (QQuit c), SvQueue QSpawn})"
    by (rule one [OF dm_process [OF np s that]]) simp
  show ?thesis
  proof (cases "e = SvSched EvRunDone")
    case True
    have p: "s_phase (sv_sched (d_serve d)) = InRun" "alive (d_serve d)" "q_blocked (sv_queue (d_serve d)) = []"
      using s True by (auto elim!: serve_stepE sched_stepE)
    have stop: "stopping d" using in_run_stopping ok s True w by blast
    have ends: "daemon_step u ([SvSched EvRunDone], []) (u\<lparr>d_serve := s, d_poll := NotPolling\<rparr>)"
      if "d_serve u = d_serve d" "\<not> d_panicked u" "d_poll u = poll.Polling hs" for u hs
      using that s True stop by (intro dm_poll_ends [of u s hs]) (simp_all add: stopping_def)
    show ?thesis
    proof (cases "d_poll d")
      case NotPolling
      then show ?thesis using sg p(1) by (simp add: daemon_staged_def)
    next
      case (Polling hs)
      then show ?thesis using one [OF ends [OF refl np]] by simp
    next
      case (Sending h hs)
      obtain st where st: "reschedule undefined h undefined (d_app d) = Some st" using reschedule_total [OF svc] by blast
      let ?u = "d\<lparr>d_app := st, d_poll := poll.Polling hs\<rparr>"
      have m: "daemon_step d ([], [LReschedule h undefined]) ?u" using dm_plan [OF np p(2) Sending p(3) st] .
      have "daemon_step ?u ([SvSched EvRunDone], []) (?u\<lparr>d_serve := s, d_poll := NotPolling\<rparr>)"
        using ends [of ?u hs] np by simp
      then have "run_of daemon_step d [([], [LReschedule h undefined]), ([SvSched EvRunDone], [])] (?u\<lparr>d_serve := s, d_poll := NotPolling\<rparr>)"
        using run_cons [where step = daemon_step, OF m run_single [where step = daemon_step]] by blast
      then show ?thesis
        by (intro exI [of _ "[([], [LReschedule h undefined]), ([SvSched EvRunDone], [])]"] exI) auto
    qed
  next
    case False
    show ?thesis
    proof (cases e)
      case (SvQueue qe)
      show ?thesis
      proof (cases qe)
        case (QTake c j)
        then have "serve_step (d_serve d) (SvQueue (QTake c j)) s" using s SvQueue by simp
        from one [OF dm_take [OF np this]] show ?thesis by simp
      next
        case (QFinish c j)
        have live: "(c, Busy j) \<in> set (live_workers d)"
          using s SvQueue QFinish by (auto elim!: serve_stepE queue_stepE simp: live_workers_def)
        obtain job where j: "j = Some job"
          using live_pending [of c j] live ok by (auto simp: live_workers_def daemon_ok_def jobs_known_def)
        have s': "serve_step (d_serve d) (SvQueue (QFinish c j)) s" using s SvQueue QFinish by simp
        have fin: ?thesis if m: "daemon_step d l u" "d_serve u = d_serve d" "\<not> d_panicked u" "d_stage u c = Ended" for l u
        proof -
          have "daemon_step u ([SvQueue (QFinish c j)], []) (u\<lparr>d_serve := s, d_stage := (d_stage u)(c := NoBackup)\<rparr>)"
            using dm_finish [OF m(3,4), of j s] s' m(2) by simp
          from run_cons [where step = daemon_step, OF m(1) run_single [where step = daemon_step, OF this]]
          show ?thesis by (intro exI conjI) auto
        qed
        have a: "alive (d_serve d)" using serve_alive [OF s] .
        from staged_busy [OF sg live] show ?thesis
        proof (elim disjE)
          assume "d_stage d c = Creating"
          from fin [OF dm_create_fails [OF np a this live]] np show ?thesis by simp
        next
          assume "d_stage d c = Working"
          from fin [OF dm_succeeds [OF np a this live [unfolded j], of undefined]] np show ?thesis by simp
        next
          assume "d_stage d c = Ended"
          from one [OF dm_finish [OF np this s']] show ?thesis by simp
        qed
      qed (use proc SvQueue e in \<open>auto simp: stop_event_def internal_def\<close>)
    qed (use proc e False in \<open>auto simp: stop_event_def ending_event_def\<close>)
  qed
qed

lemma lift_run:
  "run_of serve_step s es s' \<Longrightarrow> d_serve d = s \<Longrightarrow> daemon_good d \<Longrightarrow> list_all stop_event es \<Longrightarrow> sv_pc s \<noteq> SvWaiting \<Longrightarrow>
     \<exists>ls d'. run_of daemon_step d ls d' \<and> d_serve d' = s' \<and> length ls \<le> 2 * length es"
proof (induction arbitrary: d rule: run_of.induct)
  case (run_nil s)
  then show ?case using run_of.run_nil [of daemon_step d] by (intro exI [of _ "[]"] exI [of _ d]) simp
next
  case (run_cons s e s1 es s')
  obtain ls d1 where d1: "run_of daemon_step d ls d1" "d_serve d1 = s1" "length ls \<le> 2"
    using lift_step [of d e s1] run_cons.prems run_cons.hyps(1) by auto
  have "daemon_good d1" using daemon_stages.inv_run [OF d1(1)] run_cons.prems(2) by blast
  moreover have "sv_pc s1 \<noteq> SvWaiting" using stop_event_waiting [OF run_cons.hyps(1)] run_cons.prems by simp
  ultimately obtain ls' d' where "run_of daemon_step d1 ls' d'" "d_serve d' = s'" "length ls' \<le> 2 * length es"
    using run_cons.IH [of d1] d1(2) run_cons.prems(3) by auto
  then show ?case using run_of_append [OF d1(1)] d1(3) by (intro exI [of _ "ls @ ls'"] exI [of _ d']) simp
qed

text \<open>A daemon that is to stop and has not crashed can end.\<close>

lemma stopping_ends:
  assumes g: "daemon_good d" and "alive (d_serve d)" and "sv_pc (d_serve d) = SvStopping"
    and "visible (q_workers (sv_queue (d_serve d))) \<noteq> []"
  shows "\<exists>ls d'. run_of daemon_step d ls d' \<and> sv_pc (d_serve d') = SvExited \<and> \<not> d_panicked d'
    \<and> length ls \<le> 2 * (queue_measure (sv_queue (d_serve d)) + 4)"
proof -
  let ?s = "d_serve d"
  have ok: "serve_ok ?s" using g by (simp add: daemon_good_def daemon_ok_def)
  then obtain es q' where r: "run_of queue_step (sv_queue ?s) es q'" "list_all internal es" "q_blocked q' = []"
      "length es \<le> queue_measure (sv_queue ?s)"
    using queue_unblocks [OF _ assms(4)] by (auto simp: serve_ok_def)
  have r1: "run_of serve_step ?s (map SvQueue es) (?s\<lparr>sv_queue := q'\<rparr>)"
    using serve_queue_run [OF r(1,2) assms(2) refl] .
  have "serve_ok (?s\<lparr>sv_queue := q'\<rparr>)" using serve_life.inv_run [OF r1 ok] .
  then obtain fs s' where f: "run_of serve_step (?s\<lparr>sv_queue := q'\<rparr>) fs s'" "sv_pc s' = SvExited" "length fs \<le> 4"
      "list_all ending_event fs"
    using serve_ends [of "?s\<lparr>sv_queue := q'\<rparr>"] assms(2,3) r(3) by (auto simp: alive_def)
  have "list_all stop_event (map SvQueue es @ fs)"
    using r(2) f(4) by (auto simp: list_all_iff stop_event_def ending_event_def)
  then obtain ls d' where l: "run_of daemon_step d ls d'" "d_serve d' = s'" "length ls \<le> 2 * length (map SvQueue es @ fs)"
    using lift_run [OF run_of_append [OF r1 f(1)] refl g] assms(3) by auto
  have "serve_ok (d_serve d')" "d_panicked d' \<longleftrightarrow> s_crashed (sv_sched (d_serve d'))"
    using daemon_stages.inv_run [OF l(1) g] by (simp_all add: daemon_good_def daemon_ok_def)
  then have "\<not> d_panicked d'" using l(2) f(2) by (simp add: serve_ok_def)
  then show ?thesis using l f(2,3) r(4) by (intro exI [of _ ls] exI [of _ d']) simp
qed

section \<open>Properties\<close>

text \<open>C27: After the signal the daemon, started on hosts with complete jobs and with a queue of which at least one
  worker is to stay, has either panicked already, which is the case exactly if the signal came before
  the scheduler was started, or it can end: whatever the poll, the workers and their backups are doing,
  there is a run to the exit without a panic, in a number of steps bounded by the jobs in the queue.\<close>

theorem daemon_shuts_down:
  assumes "reachable daemon_init daemon_step d" and "sv_pc (d_serve d) = SvStopping"
    and "visible (q_workers (sv_queue (d_serve d))) \<noteq> []"
  shows "(d_panicked d \<longleftrightarrow> s_phase (sv_sched (d_serve d)) = NotStarted)
    \<and> (d_panicked d \<or> (\<exists>ls d'. run_of daemon_step d ls d' \<and> sv_pc (d_serve d') = SvExited \<and> \<not> d_panicked d'
         \<and> length ls \<le> 2 * (queue_measure (sv_queue (d_serve d)) + 4)))"
proof -
  have g: "daemon_good d" using daemon_stages.inv_reachable [OF assms(1)] .
  then have "serve_ok (d_serve d)" "d_panicked d \<longleftrightarrow> s_crashed (sv_sched (d_serve d))"
    by (simp_all add: daemon_good_def daemon_ok_def)
  then show ?thesis using stopping_ends [OF g _ assms(2,3)] assms(2) by (auto simp: serve_ok_def alive_def)
qed

text \<open>A signal while a host is being enqueued.\<close>

text \<open>The first poll of a daemon with one host that is due.\<close>

lemma due_host_enqueued:
  fixes st :: app and q :: queue
  defines "st \<equiv> example_app due_metrics" and "q \<equiv> NewQueue"
  shows "daemon_init (daemon_start st q)"
    and "daemon_step (daemon_start st q) ([SvSched EvStart], []) (daemon_at (serving sched_phase.Polling q) st NotPolling)"
    and "daemon_step (daemon_at (serving sched_phase.Polling q) st NotPolling) ([SvSched EvTimer], [])
      (daemon_at (serving InRun q) st (poll.Polling [''a'']))"
    and "daemon_step (daemon_at (serving InRun q) st (poll.Polling [''a''])) ([SvEnqueue (Some example_job)], [])
      (daemon_at (serving InRun (Enqueue (Some example_job) q)) st (Sending ''a'' []))"
proof -
  let ?j = "Some example_job" and ?P = "sched_phase.Polling"
  have e: "app_ok st" "keys_of st = {''a''}" "hosts_complete st"
    by (auto simp: st_def example_app_def app_ok_def initial_app_def hosts_complete_def due_metrics_def zero_metrics_def Service_def
        example_job_def complete_job_def Host_def new_job_def)
  have b: "q_blocked q = []" "pending q = []" by (simp_all add: q_def NewQueue_def newWorker_def pending_def running_def)
  show "daemon_init (daemon_start st q)" unfolding daemon_init_def using NewQueue_ok b e q_def by blast
  have v: "visit_check ''a'' (\<lambda>_. 0) (200 * second) st = Some (st, Some ?j)"
    by (simp add: st_def visit_check_def example_app_def due_metrics_def zero_metrics_def is_zero_def zero_time_def Status_def)
  show "daemon_step (daemon_start st q) ([SvSched EvStart], []) (daemon_at (serving ?P q) st NotPolling)"
    using dm_move [of "daemon_start st q" "SvSched EvStart"] serving_steps(1) [of q] by (simp add: daemon_start_def)
  show "daemon_step (daemon_at (serving ?P q) st NotPolling) ([SvSched EvTimer], []) (daemon_at (serving InRun q) st (poll.Polling [''a'']))"
    using dm_timer [of "daemon_at (serving ?P q) st NotPolling" "serving InRun q" "[''a'']"] serving_steps(2) [of q] e(2) by simp
  show "daemon_step (daemon_at (serving InRun q) st (poll.Polling [''a''])) ([SvEnqueue ?j], [])
      (daemon_at (serving InRun (Enqueue ?j q)) st (Sending ''a'' []))"
    using dm_enqueue [of "daemon_at (serving InRun q) st (poll.Polling [''a''])" "''a''" "[]" "\<lambda>_. 0" "200 * second" st ?j "[]"]
      v run_nil [of app_step st] serving_steps(4) [OF b(1), of ?j]
    by (simp add: stopping_def)
qed

lemma daemon_shuts_down_witness:
  "\<exists>es d ls d'. run_of daemon_step (daemon_start (example_app due_metrics) NewQueue) (es @ [([SvSignal], [])]) d
    \<and> q_blocked (sv_queue (d_serve d)) = [Some example_job]
    \<and> run_of daemon_step d ls d' \<and> sv_pc (d_serve d') = SvExited \<and> \<not> d_panicked d'"
proof -
  let ?st = "example_app due_metrics" and ?j = "Some example_job" and ?q = NewQueue
  let ?d0 = "daemon_start ?st ?q"
  let ?d3 = "daemon_at (serving InRun (Enqueue ?j ?q)) ?st (Sending ''a'' [])"
  note init = due_host_enqueued(1) and steps = due_host_enqueued(2-4)
  have q: "q_blocked ?q = []" by (simp add: NewQueue_def newWorker_def)
  let ?s4 = "(d_serve ?d3)\<lparr>sv_sched := sched_Stop (sv_sched (d_serve ?d3)), sv_pc := SvStopping\<rparr>"
  have "sched_step (sv_sched (d_serve ?d3)) EvStop (sched_Stop (sv_sched (d_serve ?d3)))"
    by (rule sched_stop) (simp add: serve_start_def sched_Start_def NewScheduler_def)
  then have "serve_step (d_serve ?d3) SvSignal ?s4"
    by (intro sv_signal) (simp_all add: serve_start_def sched_Start_def NewScheduler_def alive_def)
  then have 4: "daemon_step ?d3 ([SvSignal], []) (?d3\<lparr>d_serve := ?s4\<rparr>)"
    using dm_process [of ?d3 SvSignal ?s4] by (simp add: sched_Stop_def sched_Start_def serve_start_def NewScheduler_def)
  note c = run_cons [where step = daemon_step]
  have r: "run_of daemon_step ?d0 ([([SvSched EvStart], []), ([SvSched EvTimer], []), ([SvEnqueue ?j], [])] @ [([SvSignal], [])])
      (?d3\<lparr>d_serve := ?s4\<rparr>)"
    using c [OF steps(1) c [OF steps(2) c [OF steps(3) run_single [where step = daemon_step, OF 4]]]] by simp
  have "reachable daemon_init daemon_step (?d3\<lparr>d_serve := ?s4\<rparr>)"
    using run_of_reachable [OF r reachable_init [where init = daemon_init, OF init]] .
  moreover have "alive ?s4" "sv_pc ?s4 = SvStopping" "q_blocked (sv_queue ?s4) = [?j]" "visible (q_workers (sv_queue ?s4)) \<noteq> []"
    using visible_NewQueue q
    by (simp_all add: alive_def serve_start_def sched_Start_def sched_Stop_def NewScheduler_def Enqueue_def)
  moreover have "\<not> d_panicked (?d3\<lparr>d_serve := ?s4\<rparr>)" by simp
  ultimately show ?thesis using daemon_shuts_down [of "?d3\<lparr>d_serve := ?s4\<rparr>"] r by fastforce
qed

end
