(* ===== verification/Daemon_Backlog.thy ===== *)
theory Daemon_Backlog imports Daemon begin

text \<open>
  What the guard of the scheduler does not see: a job that waits in the queue. Its host does not
  count as running, so when the host is due again before a worker has taken the job, the
  host is enqueued a second time, and two workers may back it up at once.
\<close>

section \<open>A poll over one host\<close>

text \<open>A queue after a job was sent to it.\<close>

definition sent :: "job \<Rightarrow> queue \<Rightarrow> queue" where
  "sent j q = (Enqueue j q)\<lparr>q_blocked := [], q_jobs := q_jobs q @ [j]\<rparr>"

lemma sent_fields [simp]:
  "q_live (sent j q) = q_live q" "q_jobs (sent j q) = q_jobs q @ [j]" "q_blocked (sent j q) = []"
  by (simp_all add: sent_def Enqueue_def)

lemma poll_one_host:
  assumes q: "q_blocked q = []" "length (q_jobs q) < jobQueueSize" and h: "keys_of st = {h}"
    and v: "visit_check h rnd now st = Some (st, Some j)" and r: "reschedule rnd h t st = Some st'"
  shows "\<exists>ls. run_of daemon_step (daemon_at (serving sched_phase.Polling q) st NotPolling) ls
    (daemon_at (serving sched_phase.Polling (sent j q)) st' NotPolling)"
proof -
  let ?at = "\<lambda>p q. daemon_at (serving p q)" and ?P = "sched_phase.Polling"
  note c = run_cons [where step = daemon_step]
  have 1: "daemon_step (?at ?P q st NotPolling) ([SvSched EvTimer], []) (?at InRun q st (poll.Polling [h]))"
    using dm_timer [of "?at ?P q st NotPolling" "serving InRun q" "[h]"] serving_steps(2) [of q] h by simp
  have 2: "daemon_step (?at InRun q st (poll.Polling [h])) ([SvEnqueue j], []) (?at InRun (Enqueue j q) st (Sending h []))"
    using dm_enqueue [of "?at InRun q st (poll.Polling [h])" h "[]" rnd now st j "[]"] v run_nil [of app_step st]
      serving_steps(4) [OF q(1), of j]
    by (simp add: stopping_def)
  have "queue_step (Enqueue j q) (QSend j) (sent j q)"
    using step_send [of "Enqueue j q" "[]" j "[]"] q by (simp add: sent_def Enqueue_def)
  then have "serve_step (serving InRun (Enqueue j q)) (SvQueue (QSend j)) (serving InRun (sent j q))"
    by (intro serving_steps(5)) (simp_all add: internal_def)
  then have 3: "daemon_step (?at InRun (Enqueue j q) st (Sending h [])) ([SvQueue (QSend j)], []) (?at InRun (sent j q) st (Sending h []))"
    using dm_move [of "?at InRun (Enqueue j q) st (Sending h [])" "SvQueue (QSend j)"] by simp
  have 4: "daemon_step (?at InRun (sent j q) st (Sending h [])) ([], [LReschedule h t]) (?at InRun (sent j q) st' (poll.Polling []))"
    using dm_plan [of "?at InRun (sent j q) st (Sending h [])" h "[]" rnd t st'] r by simp
  have 5: "daemon_step (?at InRun (sent j q) st' (poll.Polling [])) ([SvSched EvRunDone], []) (?at ?P (sent j q) st' NotPolling)"
    using dm_poll_ends [of "?at InRun (sent j q) st' (poll.Polling [])" "serving ?P (sent j q)" "[]"] serving_steps(3) [of "sent j q"]
    by simp
  show ?thesis using c [OF 1 c [OF 2 c [OF 3 c [OF 4 run_single [where step = daemon_step, OF 5]]]]] by blast
qed

section \<open>Properties\<close>

text \<open>C33: A host can be backed up twice at the same time: when it is due again while its job still waits for
  a worker, the scheduler enqueues it once more, since a waiting host does not count as running,
  and two workers then run the same backup side by side.\<close>

theorem backlog_runs_host_twice:
  assumes "a_hosts st = [(h, m)]" and "m_job m = Some job" and "Status m \<noteq> StatusRunning" and "zero_time < ScheduledAt m"
    and "Service (a_tree st) = Some svc" and "valid_schedule (Schedule svc)" and "int63n_contract rnd"
    and "q_live q = [(c1, Idle), (c2, Idle)]" and "q_jobs q = []" and "q_blocked q = []"
  shows "\<exists>ls d. run_of daemon_step (daemon_start st q) ls d
    \<and> live_workers d = [(c1, Busy (Some job)), (c2, Busy (Some job))]"
proof -
  let ?t = "ScheduledAt m" and ?P = "sched_phase.Polling" and ?j = "Some job"
  let ?p = "NextSchedule rnd svc ?t"
  let ?st1 = "st\<lparr>a_hosts := [(h, m\<lparr>ScheduledAt := ?p\<rparr>)]\<rparr>"
  let ?st2 = "st\<lparr>a_hosts := [(h, m\<lparr>ScheduledAt := NextSchedule rnd svc ?p\<rparr>)]\<rparr>"
  have p: "?t < ?p" using NextSchedule_future [OF assms(7,6)] .
  have v: "visit_check h rnd (ScheduledAt m') (st\<lparr>a_hosts := [(h, m')]\<rparr>) = Some (st\<lparr>a_hosts := [(h, m')]\<rparr>, Some (m_job m'))"
    if "zero_time < ScheduledAt m'" "Status m' \<noteq> StatusRunning" for m'
    using that by (simp add: visit_check_def is_zero_def)
  have r: "reschedule rnd h t (st\<lparr>a_hosts := [(h, m')]\<rparr>) = Some (st\<lparr>a_hosts := [(h, m'\<lparr>ScheduledAt := NextSchedule rnd svc t\<rparr>)]\<rparr>)" for t m'
    using assms(5) by (simp add: reschedule_def)
  have st: "st\<lparr>a_hosts := [(h, m)]\<rparr> = st" using assms(1) by simp
  let ?q1 = "sent ?j q" and ?q2 = "sent ?j (sent ?j q)"
  have "daemon_step (daemon_start st q) ([SvSched EvStart], []) (daemon_at (serving ?P q) st NotPolling)"
    using dm_move [of "daemon_start st q" "SvSched EvStart"] serving_steps(1) [of q] by (simp add: daemon_start_def)
  moreover have "\<exists>l. run_of daemon_step (daemon_at (serving ?P q) st NotPolling) l (daemon_at (serving ?P ?q1) ?st1 NotPolling)"
  proof (rule poll_one_host)
    show "visit_check h rnd ?t st = Some (st, Some ?j)" using v [of m] assms(2-4) st by simp
    show "reschedule rnd h ?t st = Some ?st1" using r [of ?t m] st by simp
  qed (use assms(1,9,10) in \<open>simp_all add: jobQueueSize_def\<close>)
  moreover have "\<exists>l. run_of daemon_step (daemon_at (serving ?P ?q1) ?st1 NotPolling) l (daemon_at (serving ?P ?q2) ?st2 NotPolling)"
  proof (rule poll_one_host)
    show "visit_check h rnd ?p ?st1 = Some (?st1, Some ?j)" using v [of "m\<lparr>ScheduledAt := ?p\<rparr>"] p assms(2-4) by simp
    show "reschedule rnd h ?p ?st1 = Some ?st2" using r [of ?p "m\<lparr>ScheduledAt := ?p\<rparr>"] by simp
  qed (use assms(9) in \<open>simp_all add: jobQueueSize_def\<close>)
  ultimately obtain l where l: "run_of daemon_step (daemon_start st q) l (daemon_at (serving ?P ?q2) ?st2 NotPolling)"
    using run_cons [where step = daemon_step, OF _ run_of_append] by blast
  let ?q3 = "?q2\<lparr>q_live := [(c1, Busy ?j), (c2, Idle)], q_jobs := [?j]\<rparr>"
  let ?q4 = "?q3\<lparr>q_live := [(c1, Busy ?j), (c2, Busy ?j)], q_jobs := []\<rparr>"
  have "queue_step ?q2 (QTake c1 ?j) ?q3" using step_take [of ?q2 "[]" c1 "[(c2, Idle)]" ?j "[?j]"] assms(8,9) by simp
  moreover have "queue_step ?q3 (QTake c2 ?j) ?q4" using step_take [of ?q3 "[(c1, Busy ?j)]" c2 "[]" ?j "[]"] by simp
  ultimately have s: "serve_step (serving ?P ?q2) (SvQueue (QTake c1 ?j)) (serving ?P ?q3)"
    "serve_step (serving ?P ?q3) (SvQueue (QTake c2 ?j)) (serving ?P ?q4)"
    by (auto intro: serving_steps(5) simp: internal_def)
  let ?d = "daemon_at (serving ?P ?q2) ?st2 NotPolling"
  let ?d3 = "?d\<lparr>d_serve := serving ?P ?q3, d_stage := (d_stage ?d)(c1 := Creating), d_panicked := (?j = None)\<rparr>"
  let ?d4 = "?d3\<lparr>d_serve := serving ?P ?q4, d_stage := (d_stage ?d3)(c2 := Creating), d_panicked := (?j = None)\<rparr>"
  have "daemon_step ?d ([SvQueue (QTake c1 ?j)], []) ?d3" using s(1) by (intro dm_take) simp_all
  moreover have "daemon_step ?d3 ([SvQueue (QTake c2 ?j)], []) ?d4" using s(2) by (intro dm_take) simp_all
  ultimately have "run_of daemon_step ?d [([SvQueue (QTake c1 ?j)], []), ([SvQueue (QTake c2 ?j)], [])] ?d4"
    using run_cons [where step = daemon_step] run_nil [of daemon_step] by blast
  from run_of_append [OF l this] have "\<exists>ls. run_of daemon_step (daemon_start st q) ls ?d4" by blast
  moreover have "live_workers ?d4 = [(c1, Busy ?j), (c2, Busy ?j)]" by (simp add: live_workers_def)
  ultimately show ?thesis by blast
qed

lemma backlog_runs_host_twice_witness:
  "\<exists>ls d. run_of daemon_step (daemon_start (example_app due_metrics) (newWorker ((Resize 2 NewQueue)\<lparr>q_spawning := 0\<rparr>))) ls d
    \<and> live_workers d = [(0, Busy (Some example_job)), (1, Busy (Some example_job))]"
  by (rule backlog_runs_host_twice [of _ "''a''" due_metrics example_job zero_service "\<lambda>_. 0"])
    (simp_all add: example_app_def due_metrics_def zero_metrics_def Status_def zero_time_def is_zero_def initial_app_def Service_def
      zero_service_def valid_schedule_def int63n_contract_def NewQueue_def newWorker_def Resize_def Let_def)

end
