(* ===== verification/Daemon_Exclusion.thy ===== *)
theory Daemon_Exclusion imports Daemon_Stop Daemon_Backlog "HOL-Library.Multiset" begin

text \<open>
  When the guard of the scheduler is enough: as long as no host is due again before the backup
  enqueued for it has begun, and the clock does not run back behind the results of a host, no
  host ever has two jobs whose backups are not over, so that the backups of a host exclude each
  other. A worker that has recorded its result but is not done with its job yet does not count:
  in that moment the host may be enqueued, and its next backup may begin.
  \<open>Daemon_Backlog\<close> has what happens otherwise.
\<close>

section \<open>Runs without a backlog\<close>

text \<open>The jobs of the workers whose stage is one of some.\<close>

definition staged_jobs :: "(stage \<Rightarrow> bool) \<Rightarrow> (nat \<Rightarrow> stage) \<Rightarrow> (nat \<times> work) list \<Rightarrow> job list" where
  "staged_jobs P f ws = concat (map (\<lambda>(c, w). case w of Idle \<Rightarrow> [] | Busy j \<Rightarrow> if P (f c) then [j] else []) ws)"

text \<open>The jobs whose backup has not begun: on their way, in the channel, or before the start.\<close>

definition unstarted :: "daemon \<Rightarrow> job list" where
  "unstarted d =
     q_blocked (sv_queue (d_serve d)) @ q_jobs (sv_queue (d_serve d))
     @ staged_jobs (\<lambda>s. s = NoBackup \<or> s = Creating) (d_stage d) (live_workers d)"

text \<open>The jobs whose backup is not over: those, and the ones that have begun and have no result yet.\<close>

definition open_jobs :: "daemon \<Rightarrow> job list" where
  "open_jobs d =
     q_blocked (sv_queue (d_serve d)) @ q_jobs (sv_queue (d_serve d))
     @ staged_jobs (\<lambda>s. s \<noteq> Ended) (d_stage d) (live_workers d)"

definition waiting_hosts :: "daemon \<Rightarrow> string option list" where
  "waiting_hosts d = map (map_option Host) (unstarted d)"

text \<open>An instant after all results of a host.\<close>

definition after_results :: "string \<Rightarrow> time \<Rightarrow> app \<Rightarrow> bool" where
  "after_results h t st \<longleftrightarrow> \<not> is_zero t
     \<and> (case map_of (a_hosts st) h of
          None \<Rightarrow> True
        | Some m \<Rightarrow> (case SucceededAt m of None \<Rightarrow> True | Some s \<Rightarrow> s < t) \<and> (case FailedAt m of None \<Rightarrow> True | Some f \<Rightarrow> f < t))"

text \<open>A step without a backlog: what is enqueued does not wait already, what begins is the latest.\<close>

definition prompt :: "daemon \<Rightarrow> daemon_label \<Rightarrow> bool" where
  "prompt d l \<longleftrightarrow>
     list_all (\<lambda>e. case e of SvEnqueue j \<Rightarrow> map_option Host j \<notin> set (waiting_hosts d) | _ \<Rightarrow> True) (fst l)
     \<and> list_all (\<lambda>op. case op of LStart h t \<Rightarrow> after_results h t (d_app d) | _ \<Rightarrow> True) (snd l)"

definition prompt_step :: "daemon \<Rightarrow> daemon_label \<Rightarrow> daemon \<Rightarrow> bool" where
  "prompt_step d l d' \<longleftrightarrow> daemon_step d l d' \<and> prompt d l"

section \<open>One open job per host\<close>

definition exclusive :: "daemon \<Rightarrow> bool" where
  "exclusive d \<longleftrightarrow> distinct (map (map_option Host) (open_jobs d))
     \<and> (\<forall>c job. (c, Busy (Some job)) \<in> set (live_workers d) \<and> d_stage d c = Working \<longrightarrow> runs (Host job) (d_app d))"

lemma staged_jobs_simps [simp]:
  "staged_jobs P f [] = []" "staged_jobs P f ((c, Idle) # ws) = staged_jobs P f ws"
  "staged_jobs P f ((c, Busy j) # ws) = (if P (f c) then j # staged_jobs P f ws else staged_jobs P f ws)"
  "staged_jobs P f (vs @ ws) = staged_jobs P f vs @ staged_jobs P f ws"
  by (simp_all add: staged_jobs_def)

lemma staged_jobs_other [simp]: "c \<notin> fst ` set ws \<Longrightarrow> staged_jobs P (f(c := s)) ws = staged_jobs P f ws"
  by (induction ws) (auto simp: staged_jobs_def split: work.split)

lemma staged_jobs_mem: "(c, Busy j) \<in> set ws \<Longrightarrow> P (f c) \<Longrightarrow> j \<in> set (staged_jobs P f ws)"
  by (force simp: staged_jobs_def)

lemma staged_jobs_mono:
  "(\<And>c. P (g c) \<Longrightarrow> P (f c)) \<Longrightarrow> mset (staged_jobs P g ws) \<subseteq># mset (staged_jobs P f ws)"
proof (induction ws)
  case (Cons v ws)
  obtain c w where "v = (c, w)" by fastforce
  then show ?case using Cons by (cases w) (auto intro: subset_mset.order_trans)
qed simp

text \<open>What the processes do on their own keeps the open jobs.\<close>

lemma queue_open_mset:
  assumes "queue_step q e q'" and "e \<in> {QSend j, QQuit c, QSpawn}"
  shows "mset (q_blocked q' @ q_jobs q' @ staged_jobs P f (q_live q'))
    \<subseteq># mset (q_blocked q @ q_jobs q @ staged_jobs P f (q_live q))"
  using assms by (elim queue_stepE) (auto simp: newWorker_def)

lemma serve_open_mset:
  assumes "serve_step s e s'" and "\<forall>j. e \<noteq> SvEnqueue j" and "\<forall>c j. e \<noteq> SvQueue (QTake c j) \<and> e \<noteq> SvQueue (QFinish c j)"
  shows "mset (q_blocked (sv_queue s') @ q_jobs (sv_queue s') @ staged_jobs P f (q_live (sv_queue s')))
    \<subseteq># mset (q_blocked (sv_queue s) @ q_jobs (sv_queue s) @ staged_jobs P f (q_live (sv_queue s)))"
  using assms(1)
proof cases
  case (sv_queue_move e' q)
  then show ?thesis using queue_open_mset [OF sv_queue_move(5)] assms(3) by (cases e') (auto simp: internal_def)
qed (use assms(2) in auto)

lemma distinct_map_subset:
  assumes "distinct (map f ys)" and "mset xs \<subseteq># mset ys"
  shows "distinct (map f xs)"
proof -
  have "count (mset (map f xs)) a \<le> count (mset (map f ys)) a" for a
    using image_mset_subseteq_mono [OF assms(2), of f] by (simp add: mset_subset_eq_count)
  moreover have "count (mset (map f ys)) a \<le> 1" for a using assms(1) by (simp add: distinct_count_atmost_1)
  ultimately have "count (mset (map f xs)) a \<le> 1" for a using order_trans by blast
  then show ?thesis
    unfolding distinct_count_atmost_1 by (metis One_nat_def count_mset_0_iff le_Suc_eq le_zero_eq)
qed

lemma busy_apart:
  "distinct (map f (staged_jobs P g ws)) \<Longrightarrow> (c1, Busy i) \<in> set ws \<Longrightarrow> (c2, Busy j) \<in> set ws \<Longrightarrow>
     P (g c1) \<Longrightarrow> P (g c2) \<Longrightarrow> c1 \<noteq> c2 \<Longrightarrow> f i \<noteq> f j"
proof (induction ws)
  case (Cons v ws)
  obtain c w where v: "v = (c, w)" by fastforce
  have d: "distinct (map f (staged_jobs P g ws))" using Cons.prems(1) v by (cases w) (auto split: if_splits)
  have e: "f k \<notin> f ` set (staged_jobs P g ws)" if "w = Busy k" "P (g c)" for k
    using Cons.prems(1) that v by simp
  have busy: "f k \<in> f ` set (staged_jobs P g ws)" if "(b, Busy k) \<in> set ws" "P (g b)" for b k
    using staged_jobs_mem [OF that(1), of P g] that(2) by blast
  consider "(c1, Busy i) = v" "(c2, Busy j) \<in> set ws" | "(c1, Busy i) \<in> set ws" "(c2, Busy j) = v"
    | "(c1, Busy i) \<in> set ws" "(c2, Busy j) \<in> set ws"
    using Cons.prems(2,3,6) by (metis prod.inject set_ConsD)
  then show ?case
  proof cases
    case 1
    then show ?thesis using e [of i] busy [of c2 j] v Cons.prems(4,5) by (metis prod.inject)
  next
    case 2
    then show ?thesis using e [of j] busy [of c1 i] v Cons.prems(4,5) by (metis prod.inject)
  next
    case 3
    then show ?thesis using Cons.IH [OF d] Cons.prems(4-6) by blast
  qed
qed simp

lemma live_apart:
  assumes "exclusive d" and "(c1, Busy i) \<in> set (live_workers d)" and "(c2, Busy j) \<in> set (live_workers d)"
    and "d_stage d c1 \<noteq> Ended" and "d_stage d c2 \<noteq> Ended" and "c1 \<noteq> c2"
  shows "map_option Host i \<noteq> map_option Host j"
proof -
  have "distinct (map (map_option Host) (staged_jobs (\<lambda>s. s \<noteq> Ended) (d_stage d) (live_workers d)))"
    using assms(1) by (simp add: exclusive_def open_jobs_def)
  from busy_apart [OF this assms(2,3)] show ?thesis using assms(4-6) by blast
qed

lemma exclusive_frame:
  assumes "exclusive d" and "mset (open_jobs d') \<subseteq># mset (open_jobs d)"
    and "\<And>c job. (c, Busy (Some job)) \<in> set (live_workers d') \<Longrightarrow> d_stage d' c = Working \<Longrightarrow>
      (c, Busy (Some job)) \<in> set (live_workers d) \<and> d_stage d c = Working
        \<and> (runs (Host job) (d_app d) \<longrightarrow> runs (Host job) (d_app d'))"
  shows "exclusive d'"
  using assms distinct_map_subset [OF _ assms(2)] unfolding exclusive_def by blast

lemma serve_live_kept:
  "serve_step (d_serve d) e s \<Longrightarrow> (c, Busy j) \<in> set (q_live (sv_queue s)) \<Longrightarrow> e \<noteq> SvQueue (QTake c j) \<Longrightarrow>
     (c, Busy j) \<in> set (live_workers d)"
  using serve_busy by (fastforce simp: live_workers_def)

lemma live_channels: "daemon_ok d \<Longrightarrow> distinct (map fst (live_workers d))"
  by (simp add: daemon_ok_def serve_ok_def queue_ok_def queue_channels_def live_workers_def)

text \<open>A job that is taken, and a worker that is done, with the stage that goes with it.\<close>

lemma serve_queue_step: "serve_step s (SvQueue e) s' \<Longrightarrow> queue_step (sv_queue s) e (sv_queue s')"
  by (erule serve_stepE) simp_all

lemma take_open:
  assumes "daemon_ok d" and "serve_step (d_serve d) (SvQueue (QTake c j)) s"
    and "d_serve d' = s" and "d_stage d' = (d_stage d)(c := Creating)"
  shows "mset (open_jobs d') = mset (open_jobs d)"
proof -
  obtain ls rs js where q: "live_workers d = ls @ (c, Idle) # rs" "q_live (sv_queue s) = ls @ (c, Busy j) # rs"
      "q_jobs (sv_queue (d_serve d)) = j # js" "q_jobs (sv_queue s) = js"
      "q_blocked (sv_queue s) = q_blocked (sv_queue (d_serve d))"
    using serve_queue_step [OF assms(2)] by cases (rule that; simp add: live_workers_def)
  have "c \<notin> fst ` set ls" "c \<notin> fst ` set rs" using live_channels [OF assms(1)] unfolding q(1) by auto
  moreover have "live_workers d' = ls @ (c, Busy j) # rs" using q(2) assms(3) by (simp add: live_workers_def)
  ultimately show ?thesis using q assms(3,4) by (simp add: open_jobs_def)
qed

lemma finish_open:
  assumes "daemon_ok d" and "d_stage d c = Ended" and "serve_step (d_serve d) (SvQueue (QFinish c j)) s"
    and "d_serve d' = s" and "d_stage d' = (d_stage d)(c := NoBackup)"
  shows "mset (open_jobs d') = mset (open_jobs d)"
proof -
  obtain ls rs where q: "live_workers d = ls @ (c, Busy j) # rs" "q_live (sv_queue s) = ls @ (c, Idle) # rs"
      "q_jobs (sv_queue s) = q_jobs (sv_queue (d_serve d))" "q_blocked (sv_queue s) = q_blocked (sv_queue (d_serve d))"
    using serve_queue_step [OF assms(3)] by cases (rule that; simp add: live_workers_def)
  have "c \<notin> fst ` set ls" "c \<notin> fst ` set rs" using live_channels [OF assms(1)] unfolding q(1) by auto
  moreover have "live_workers d' = ls @ (c, Idle) # rs" using q(2) assms(4) by (simp add: live_workers_def)
  ultimately show ?thesis using q assms(2,4,5) by (simp add: open_jobs_def)
qed

lemma stage_open:
  assumes "s = Ended \<or> d_stage d c \<noteq> Ended"
  shows "mset (open_jobs (d\<lparr>d_app := a, d_stage := (d_stage d)(c := s)\<rparr>)) \<subseteq># mset (open_jobs d)"
proof -
  have "mset (staged_jobs (\<lambda>s. s \<noteq> Ended) ((d_stage d)(c := s)) ws) \<subseteq># mset (staged_jobs (\<lambda>s. s \<noteq> Ended) (d_stage d) ws)" for ws
    using assms by (intro staged_jobs_mono) (auto split: if_splits)
  then show ?thesis by (simp add: open_jobs_def live_workers_def)
qed

text \<open>A host that is enqueued has no job that has begun, since it would count as running.\<close>

lemma visit_check_not_running:
  assumes "visit_check h rnd now st = Some (st', Some j)"
  shows "\<not> runs h st"
proof
  assume r: "runs h st"
  obtain m where m: "map_of (a_hosts st) h = Some m" "Status m = StatusRunning" using r by (auto simp: runs_def)
  show False
  proof (cases "is_zero (ScheduledAt m)")
    case False
    then show ?thesis using assms m by (simp add: visit_check_def)
  next
    case True
    then obtain st1 where s: "reschedule rnd h now st = Some st1"
      using assms m by (auto simp: visit_check_def split: option.splits)
    then obtain m1 where "map_of (a_hosts st1) h = Some m1" "Status m1 = StatusRunning"
      using reschedule_runs [OF s r] by (auto simp: runs_def)
    then show ?thesis using assms m True s by (simp add: visit_check_def Let_def)
  qed
qed

lemma open_cases:
  "j \<in> set (open_jobs d) \<Longrightarrow> j \<in> set (unstarted d) \<or> (\<exists>c. (c, Busy j) \<in> set (live_workers d) \<and> d_stage d c = Working)"
proof -
  assume j: "j \<in> set (open_jobs d)"
  have "(\<exists>c. (c, Busy j) \<in> set ws \<and> g c \<noteq> Ended) \<or> j \<notin> set (staged_jobs (\<lambda>s. s \<noteq> Ended) g ws)" for g ws
    by (auto simp: staged_jobs_def split: work.splits if_splits)
  then consider "j \<in> set (q_blocked (sv_queue (d_serve d)) @ q_jobs (sv_queue (d_serve d)))"
    | c where "(c, Busy j) \<in> set (live_workers d)" "d_stage d c \<noteq> Ended"
    using j unfolding open_jobs_def by (metis Un_iff set_append)
  then show ?thesis
  proof cases
    case 2
    then show ?thesis using staged_jobs_mem [OF 2(1), of "\<lambda>s. s = NoBackup \<or> s = Creating" "d_stage d"]
      by (cases "d_stage d c") (auto simp: unstarted_def)
  qed (auto simp: unstarted_def)
qed

lemma live_job:
  assumes "daemon_ok d" and "(c, Busy i) \<in> set (live_workers d)"
  obtains job where "i = Some job"
  using assms live_pending [of c i "sv_queue (d_serve d)"] by (auto simp: daemon_ok_def jobs_known_def live_workers_def)

lemma exclusive_enqueue:
  assumes ok: "daemon_ok d" and ex: "exclusive d" and v: "visit_check h rnd now (d_app d) = Some (st, Some j)"
    and p: "map_option Host j \<notin> set (waiting_hosts d)"
  shows "map_option Host j \<notin> map_option Host ` set (open_jobs d)"
proof
  assume "map_option Host j \<in> map_option Host ` set (open_jobs d)"
  then obtain i where i: "i \<in> set (open_jobs d)" "map_option Host i = map_option Host j" by (metis imageE)
  have "i \<notin> set (unstarted d)" using p i(2) by (metis image_eqI list.set_map waiting_hosts_def)
  then obtain c where c: "(c, Busy i) \<in> set (live_workers d)" "d_stage d c = Working" using open_cases [OF i(1)] by blast
  have "hosts_complete (d_app d)" using ok by (simp add: daemon_ok_def)
  then obtain job where "i = Some job" "Host job = h"
    using i(2) visit_check_enqueues [OF v] by auto
  then have "runs h (d_app d)" using ex c by (auto simp: exclusive_def)
  then show False using visit_check_not_running [OF v] by blast
qed

lemma start_runs: "after_results h t st \<Longrightarrow> runs h (fst (start h t st))"
  by (auto simp: after_results_def runs_def start_def Let_def Status_Running still_running_def zero_metrics_def
      split: option.splits)

text \<open>The result of another backup leaves a running one running.\<close>

lemma result_runs:
  assumes "runs h st" and "h' \<noteq> h"
  shows "runs h (fst (success h' t st))" "runs h (fst (failure h' t st))"
  using app_step_runs [OF life_success _ assms(1), of h' t] app_step_runs [OF life_failure _ assms(1), of h' t] assms(2)
  by (simp_all add: spares_def)

lemma exclusive_result:
  assumes ex: "exclusive d" and w: "d_stage d c = Working" and l: "(c, Busy (Some job)) \<in> set (live_workers d)"
    and a: "a = fst (success (Host job) t (d_app d)) \<or> a = fst (failure (Host job) t (d_app d))"
  shows "exclusive (d\<lparr>d_app := a, d_stage := (d_stage d)(c := Ended)\<rparr>)"
proof (rule exclusive_frame [OF ex])
  fix c' job'
  assume "(c', Busy (Some job')) \<in> set (live_workers (d\<lparr>d_app := a, d_stage := (d_stage d)(c := Ended)\<rparr>))"
    and "d_stage (d\<lparr>d_app := a, d_stage := (d_stage d)(c := Ended)\<rparr>) c' = Working"
  then have k: "(c', Busy (Some job')) \<in> set (live_workers d)" "c' \<noteq> c" "d_stage d c' = Working"
    by (auto simp: live_workers_def split: if_splits)
  then have "Host job' \<noteq> Host job" using live_apart [OF ex k(1) l] w by simp
  then show "(c', Busy (Some job')) \<in> set (live_workers d) \<and> d_stage d c' = Working
      \<and> (runs (Host job') (d_app d) \<longrightarrow> runs (Host job') (d_app (d\<lparr>d_app := a, d_stage := (d_stage d)(c := Ended)\<rparr>)))"
    using k a result_runs [of "Host job'" "d_app d" "Host job" t] by auto
qed (simp add: stage_open)

lemma live_unique:
  "daemon_ok d \<Longrightarrow> (c, w) \<in> set (live_workers d) \<Longrightarrow> (c, w') \<in> set (live_workers d) \<Longrightarrow> w = w'"
  by (auto simp: daemon_ok_def serve_ok_def queue_ok_def queue_channels_def live_workers_def dest: eq_key_imp_eq_value)

text \<open>Steps of the processes that leave the workers in their stages.\<close>

lemma exclusive_serve:
  assumes "exclusive d" and "serve_step (d_serve d) e s" and "\<forall>j. e \<noteq> SvEnqueue j"
    and "\<forall>c j. e \<noteq> SvQueue (QTake c j) \<and> e \<noteq> SvQueue (QFinish c j)"
    and "d_serve d' = s" and "d_stage d' = d_stage d" and "d_app d' = d_app d"
  shows "exclusive d'"
proof (rule exclusive_frame [OF assms(1)])
  show "mset (open_jobs d') \<subseteq># mset (open_jobs d)"
    using serve_open_mset [OF assms(2-4), of "\<lambda>s. s \<noteq> Ended" "d_stage d"] assms(5,6)
    by (simp add: open_jobs_def live_workers_def)
  fix c job
  assume "(c, Busy (Some job)) \<in> set (live_workers d')" and "d_stage d' c = Working"
  then show "(c, Busy (Some job)) \<in> set (live_workers d) \<and> d_stage d c = Working
      \<and> (runs (Host job) (d_app d) \<longrightarrow> runs (Host job) (d_app d'))"
    using serve_live_kept [OF assms(2), of c "Some job"] assms(4-7) by (auto simp: live_workers_def)
qed

text \<open>Steps that only change the state of the application, and keep running hosts running.\<close>

lemma exclusive_app:
  assumes "exclusive d" and "d_serve d' = d_serve d" and "d_stage d' = d_stage d"
    and "\<And>h. runs h (d_app d) \<Longrightarrow> runs h (d_app d')"
  shows "exclusive d'"
  using assms by (auto simp: exclusive_def open_jobs_def live_workers_def)

lemma exclusive_step:
  assumes ok: "daemon_ok d" and ex: "exclusive d" and st: "daemon_step d l d'" and p: "prompt d l"
  shows "exclusive d'"
  using st
proof cases
  case (dm_process e s)
  then show ?thesis by (intro exclusive_serve [OF ex dm_process(4)]) auto
next
  case (dm_timer s todo)
  then show ?thesis by (intro exclusive_serve [OF ex dm_timer(4)]) auto
next
  case (dm_skip h hs rnd now a ops)
  have "list_all (spares h') ops" for h' using dm_skip(9) by (auto simp: list_all_iff spares_def)
  then show ?thesis using app_run_runs [OF dm_skip(8)] dm_skip(2) by (intro exclusive_app [OF ex]) auto
next
  case (dm_enqueue h hs rnd now a j ops s)
  have q: "sv_queue s = Enqueue j (sv_queue (d_serve d))" using dm_enqueue(9) by (auto elim: serve_stepE)
  have new: "map_option Host j \<notin> map_option Host ` set (open_jobs d)"
    using exclusive_enqueue [OF ok ex dm_enqueue(6)] p dm_enqueue(1) by (simp add: prompt_def)
  have "mset (open_jobs d') = mset (j # open_jobs d)"
    using q dm_enqueue(2) by (simp add: open_jobs_def live_workers_def Enqueue_def)
  then have "distinct (map (map_option Host) (open_jobs d')) = distinct (map (map_option Host) (j # open_jobs d))"
    by (metis mset_eq_imp_distinct_iff mset_map)
  then have "distinct (map (map_option Host) (open_jobs d'))" using new ex by (simp add: exclusive_def)
  moreover have "list_all (spares h') ops" for h' using dm_enqueue(8) by (auto simp: list_all_iff spares_def)
  ultimately show ?thesis using ex app_run_runs [OF dm_enqueue(7)] dm_enqueue(2) q
    by (auto simp: exclusive_def live_workers_def Enqueue_def)
next
  case (dm_plan h hs rnd t a)
  then show ?thesis using reschedule_runs [OF dm_plan(7)] by (intro exclusive_app [OF ex]) auto
next
  case (dm_poll_panics h hs rnd t)
  then show ?thesis by (intro exclusive_app [OF ex]) auto
next
  case (dm_poll_ends s hs)
  then show ?thesis by (intro exclusive_serve [OF ex dm_poll_ends(4)]) auto
next
  case (dm_take c j s)
  have "(c', Busy i) \<in> set (live_workers d)" if "(c', Busy i) \<in> set (q_live (sv_queue s))" "c' \<noteq> c" for c' i
    using serve_live_kept [OF dm_take(4) that(1)] that(2) by simp
  then show ?thesis using take_open [OF ok dm_take(4), of d'] dm_take(2)
    by (intro exclusive_frame [OF ex]) (auto simp: live_workers_def split: if_splits)
next
  case (dm_create_fails c j)
  have "mset (open_jobs (d\<lparr>d_app := d_app d, d_stage := (d_stage d)(c := Ended)\<rparr>)) \<subseteq># mset (open_jobs d)" by (rule stage_open) simp
  then show ?thesis using dm_create_fails(2)
    by (intro exclusive_frame [OF ex]) (auto simp: live_workers_def split: if_splits)
next
  case (dm_begin c job t)
  have a: "after_results (Host job) t (d_app d)" using p dm_begin(1) by (simp add: prompt_def)
  have "runs (Host job') (fst (start (Host job) t (d_app d)))"
    if "(c', Busy (Some job')) \<in> set (live_workers d)" "d_stage d c' = Working \<or> c' = c" for c' job'
  proof (cases "Host job' = Host job")
    case False
    then have "c' \<noteq> c" using live_unique [OF ok that(1)] dm_begin(6) by blast
    then have "runs (Host job') (d_app d)" using that ex by (auto simp: exclusive_def)
    then show ?thesis using app_step_runs [OF life_start, of "Host job'" "Host job" t] False by (simp add: spares_def)
  qed (use start_runs [OF a] in simp)
  moreover have "distinct (map (map_option Host) (open_jobs d'))"
  proof (rule distinct_map_subset)
    show "distinct (map (map_option Host) (open_jobs d))" using ex by (simp add: exclusive_def)
    show "mset (open_jobs d') \<subseteq># mset (open_jobs d)" unfolding dm_begin(2) using dm_begin(5) by (intro stage_open) simp
  qed
  ultimately show ?thesis using dm_begin(2) by (auto simp: exclusive_def live_workers_def split: if_splits)
next
  case (dm_succeeds c job t)
  then show ?thesis using exclusive_result [OF ex dm_succeeds(5,6), of "fst (success (Host job) t (d_app d))" t] by simp
next
  case (dm_fails c job t)
  then show ?thesis using exclusive_result [OF ex dm_fails(5,6), of "fst (failure (Host job) t (d_app d))" t] by simp
next
  case (dm_finish c j s)
  have "(c', Busy i) \<in> set (live_workers d)" if "(c', Busy i) \<in> set (q_live (sv_queue s))" for c' i
    using serve_live_kept [OF dm_finish(5) that] by simp
  then show ?thesis using finish_open [OF ok dm_finish(4,5), of d'] dm_finish(2)
    by (intro exclusive_frame [OF ex]) (auto simp: live_workers_def split: if_splits)
next
  case (dm_backup_panics c job t)
  then show ?thesis using live_known [OF ok dm_backup_panics(6)] by blast
next
  case dm_page
  have "runs h (d_app d) \<Longrightarrow> runs h (handleIndex (d_app d))" for h
    using app_step_runs [OF life_index] by (simp add: spares_def)
  then show ?thesis using dm_page by (intro exclusive_app [OF ex]) auto
qed

interpretation prompt_life: invariant_of daemon_init prompt_step "\<lambda>d. daemon_ok d \<and> exclusive d"
proof
  fix d
  assume i: "daemon_init d"
  then have "pending (sv_queue (d_serve d)) = []" by (auto simp: daemon_init_def daemon_start_def serve_start_def)
  moreover from this have "\<not> (c, Busy j) \<in> set (live_workers d)" for c j
    using live_pending [of c j "sv_queue (d_serve d)"] by (auto simp: live_workers_def)
  moreover from this have "staged_jobs P f (live_workers d) = []" for P f
    by (fastforce simp: staged_jobs_def split: work.splits if_splits)
  ultimately show "daemon_ok d \<and> exclusive d"
    using daemon_life.inv_init [OF i] by (simp add: exclusive_def open_jobs_def pending_def)
next
  fix d l d'
  assume "daemon_ok d \<and> exclusive d" and "prompt_step d l d'"
  then show "daemon_ok d' \<and> exclusive d'"
    using daemon_ok_step [of d l d'] exclusive_step [of d l d'] by (simp add: prompt_step_def)
qed

section \<open>Properties\<close>

text \<open>C1: Without a backlog the backups of a host exclude each other. As long as no host is enqueued again while an
  earlier job of it waits or has not begun its backup, and every backup begins after the zero time and the results its host
  already has, no host ever has two jobs whose backups are not over, in whatever order the poll, the senders,
  the workers and the page move: two workers are never in backups of the same host, and a host whose backup has
  begun counts as running until its result. A backup is over with its result (or when its dataset cannot be
  created), although its worker is done with the job only later.\<close>

theorem backups_exclude_each_other:
  assumes "daemon_init d0" and "run_of prompt_step d0 ls d"
  shows "distinct (map (map_option Host) (open_jobs d))
    \<and> (\<forall>c1 c2 j1 j2. (c1, Busy (Some j1)) \<in> set (live_workers d) \<and> (c2, Busy (Some j2)) \<in> set (live_workers d)
         \<and> d_stage d c1 \<noteq> Ended \<and> d_stage d c2 \<noteq> Ended \<and> Host j1 = Host j2 \<longrightarrow> c1 = c2 \<and> j1 = j2)
    \<and> (\<forall>c j. (c, Busy (Some j)) \<in> set (live_workers d) \<and> d_stage d c = Working \<longrightarrow>
         (\<exists>m. map_of (a_hosts (d_app d)) (Host j) = Some m \<and> Status m = StatusRunning))"
proof -
  have ok: "daemon_ok d" and ex: "exclusive d"
    using prompt_life.inv_run [OF assms(2) prompt_life.inv_init [OF assms(1)]] by simp_all
  have "c1 = c2 \<and> j1 = j2"
    if l: "(c1, Busy (Some j1)) \<in> set (live_workers d)" "(c2, Busy (Some j2)) \<in> set (live_workers d)"
      "d_stage d c1 \<noteq> Ended" "d_stage d c2 \<noteq> Ended" "Host j1 = Host j2" for c1 c2 j1 j2
  proof -
    have "c1 = c2" using live_apart [OF ex l(1-4)] l(5) by auto
    then show ?thesis using live_unique [OF ok l(1)] l(2) by blast
  qed
  then show ?thesis using ex unfolding exclusive_def runs_def by blast
qed

lemma backups_exclude_each_other_witness:
  "\<exists>ls d. run_of prompt_step (daemon_start (example_app due_metrics) NewQueue) ls d
    \<and> live_workers d = [(0, Busy (Some example_job))] \<and> d_stage d 0 = Working
    \<and> (\<exists>m. map_of (a_hosts (d_app d)) ''a'' = Some m \<and> Status m = StatusRunning)"
proof -
  let ?st = "example_app due_metrics" and ?j = "Some example_job" and ?P = "sched_phase.Polling"
  let ?d0 = "daemon_start ?st NewQueue" and ?q3 = "Enqueue ?j NewQueue"
  let ?q4 = "sent ?j NewQueue"
  let ?q5 = "?q4\<lparr>q_live := [(0, Busy ?j)], q_jobs := []\<rparr>"
  let ?at = "\<lambda>q. daemon_at (serving InRun q) ?st (Sending ''a'' [])"
  let ?d5 = "(?at ?q5)\<lparr>d_stage := (\<lambda>_. NoBackup)(0 := Creating)\<rparr>"
  let ?d6 = "?d5\<lparr>d_app := fst (start (Host example_job) 0 ?st), d_stage := (d_stage ?d5)(0 := Working)\<rparr>"
  note init = due_host_enqueued(1) and steps = due_host_enqueued(2-4)
  have q: "q_blocked NewQueue = []" "q_jobs NewQueue = []" "q_live NewQueue = [(0, Idle)]"
    by (simp_all add: NewQueue_def newWorker_def)
  have "queue_step ?q3 (QSend ?j) ?q4"
    using step_send [of ?q3 "[]" ?j "[]"] q by (simp add: sent_def Enqueue_def jobQueueSize_def)
  then have 4: "daemon_step (?at ?q3) ([SvQueue (QSend ?j)], []) (?at ?q4)"
    using dm_move [of "?at ?q3" "SvQueue (QSend ?j)" "serving InRun ?q4"] serving_steps(5) [of "QSend ?j" ?q3 ?q4]
    by (simp add: internal_def)
  have "queue_step ?q4 (QTake 0 ?j) ?q5" using step_take [of ?q4 "[]" 0 "[]" ?j "[]"] q by simp
  then have 5: "daemon_step (?at ?q4) ([SvQueue (QTake 0 ?j)], []) ?d5"
    using dm_take [of "?at ?q4" 0 ?j "serving InRun ?q5"] serving_steps(5) [of "QTake 0 ?j" ?q4 ?q5] by (simp add: internal_def)
  have 6: "daemon_step ?d5 ([], [LStart (Host example_job) 0]) ?d6"
    using dm_begin [of ?d5 0 example_job] by (simp add: live_workers_def)
  have p: "prompt ?d0 ([SvSched EvStart], [])" "prompt (daemon_at (serving ?P NewQueue) ?st NotPolling) ([SvSched EvTimer], [])"
    "prompt (?at ?q3) ([SvQueue (QSend ?j)], [])" "prompt (?at ?q4) ([SvQueue (QTake 0 ?j)], [])"
    "prompt (daemon_at (serving InRun NewQueue) ?st (poll.Polling [''a''])) ([SvEnqueue ?j], [])"
    "prompt ?d5 ([], [LStart (Host example_job) 0])"
    using q by (auto simp: prompt_def waiting_hosts_def unstarted_def live_workers_def after_results_def is_zero_def zero_time_def
        example_app_def due_metrics_def zero_metrics_def split: option.split)
  note c = run_cons [where step = prompt_step]
  note s = prompt_step_def [THEN iffD2, OF conjI]
  have r: "run_of prompt_step ?d0 ([([SvSched EvStart], []), ([SvSched EvTimer], []), ([SvEnqueue ?j], []),
      ([SvQueue (QSend ?j)], []), ([SvQueue (QTake 0 ?j)], []), ([], [LStart (Host example_job) 0])]) ?d6"
    by (rule c [OF s [OF steps(1) p(1)] c [OF s [OF steps(2) p(2)] c [OF s [OF steps(3) p(5)]
          c [OF s [OF 4 p(3)] c [OF s [OF 5 p(4)] run_single [where step = prompt_step, OF s [OF 6 p(6)]]]]]]])
  have l: "live_workers ?d6 = [(0, Busy ?j)]" "d_stage ?d6 0 = Working" by (simp_all add: live_workers_def)
  have "Host example_job = ''a''" by (simp add: example_job_def Host_def new_job_def)
  then show ?thesis using backups_exclude_each_other [OF init r] r l by (metis list.set_intros(1))
qed

end
