(* ===== verification/Daemon_Stuck.thy ===== *)
theory Daemon_Stuck imports Daemon_Backlog begin

text \<open>
  The processes of \<open>serve\<close> when the queue has no workers, as a configuration without a value for
  \<open>parallel\<close> leaves it: once the channel of the queue is full, the poll waits for ever to send the next
  job, the scheduler does not return from its loop, and a signal does not end the process.
\<close>

section \<open>A full queue without workers\<close>

definition starved :: "serve \<Rightarrow> bool" where
  "starved s \<longleftrightarrow> q_live (sv_queue s) = [] \<and> q_spawning (sv_queue s) = 0 \<and> jobQueueSize \<le> length (q_jobs (sv_queue s))
     \<and> q_blocked (sv_queue s) \<noteq> [] \<and> s_phase (sv_sched s) = InRun \<and> 0 < s_wg (sv_sched s)
     \<and> (sv_pc s = SvWaiting \<or> sv_pc s = SvStopping)"

lemma starved_step: "starved s \<Longrightarrow> serve_step s e s' \<Longrightarrow> starved s'"
  by (erule serve_stepE)
    (auto simp: starved_def internal_def sched_Start_def sched_Stop_def sched_leave_def Let_def
      elim!: sched_stepE queue_stepE)

lemma starved_run: "run_of serve_step s es s' \<Longrightarrow> starved s \<Longrightarrow> starved s'"
  by (induction rule: run_of.induct) (auto dest: starved_step)

text \<open>Sending jobs until the channel is full.\<close>

lemma fill_channel:
  assumes "q_blocked q = []" and "length (q_jobs q) + length js \<le> jobQueueSize"
  shows "\<exists>es. run_of serve_step (serving InRun q) es (serving InRun (fold sent js q))"
  using assms
proof (induction js arbitrary: q)
  case Nil
  then show ?case using run_nil [of serve_step] by fastforce
next
  case (Cons j js)
  have 1: "serve_step (serving InRun q) (SvEnqueue j) (serving InRun (Enqueue j q))"
    using serving_steps(4) Cons.prems(1) by blast
  have "queue_step (Enqueue j q) (QSend j) (sent j q)"
    using step_send [of "Enqueue j q" "[]" j "[]"] Cons.prems by (simp add: sent_def Enqueue_def)
  then have 2: "serve_step (serving InRun (Enqueue j q)) (SvQueue (QSend j)) (serving InRun (sent j q))"
    by (intro serving_steps(5)) (simp_all add: internal_def)
  obtain es where "run_of serve_step (serving InRun (sent j q)) es (serving InRun (fold sent js (sent j q)))"
    using Cons.IH [of "sent j q"] Cons.prems by auto
  then show ?case using serve_run_cons [OF 1 serve_run_cons [OF 2]] by fastforce
qed

lemma sent_spawning [simp]: "q_spawning (sent j q) = q_spawning q"
  by (simp add: sent_def Enqueue_def)

lemma fold_sent:
  "q_live (fold sent js q) = q_live q" "q_spawning (fold sent js q) = q_spawning q"
  "q_jobs (fold sent js q) = q_jobs q @ js" "q_blocked q = [] \<Longrightarrow> q_blocked (fold sent js q) = []"
  by (induction js arbitrary: q) simp_all

section \<open>Properties\<close>

text \<open>Without workers the daemon cannot be stopped: when one host more is due than the channel of the queue
  holds, the poll blocks, and after the signal no run whatsoever ends the process.\<close>

theorem serve_cannot_stop_without_workers:
  fixes js :: "job list"
  assumes "queue_step (Resize 0 NewQueue) (QQuit 0) q" and "length js = jobQueueSize"
  shows "\<exists>es s. run_of serve_step (serve_start q) (es @ [SvSignal]) s
    \<and> (\<forall>fs s'. run_of serve_step s fs s' \<longrightarrow> sv_pc s' \<noteq> SvExited)"
proof -
  let ?q = "fold sent js q" and ?P = "sched_phase.Polling"
  have r0: "q_live (Resize 0 NewQueue) = [(0, Idle)]" "q_spawning (Resize 0 NewQueue) = 0"
    "q_jobs (Resize 0 NewQueue) = []" "q_blocked (Resize 0 NewQueue) = []"
    by (simp_all add: Resize_def Let_def NewQueue_fields clamp_size_def maxParallelity_def)
      (simp_all add: NewQueue_def newWorker_def)
  have q: "q_live q = []" "q_spawning q = 0" "q_jobs q = []" "q_blocked q = []"
    using assms(1) r0 by (auto elim!: queue_stepE simp: append_eq_Cons_conv)
  obtain es where f: "run_of serve_step (serving InRun q) es (serving InRun ?q)"
    using fill_channel [of q js] q assms(2) by auto
  have b: "q_blocked ?q = []" using fold_sent(4) [OF q(4)] .
  let ?s = "serving InRun (Enqueue None ?q)"
  let ?t = "?s\<lparr>sv_sched := sched_Stop (sv_sched ?s), sv_pc := SvStopping\<rparr>"
  have 1: "run_of serve_step (serve_start q) [SvSched EvStart, SvSched EvTimer] (serving InRun q)"
    using serve_run_cons [OF serving_steps(1) run_single [where step = serve_step, OF serving_steps(2)]] .
  have "run_of serve_step (serving InRun ?q) [SvEnqueue None] ?s"
    using run_single [where step = serve_step, OF serving_steps(4) [OF b]] .
  then have r: "run_of serve_step (serve_start q) ([SvSched EvStart, SvSched EvTimer] @ es @ [SvEnqueue None]) ?s"
    using run_of_append [OF 1 run_of_append [OF f]] by blast
  have "sched_step (sv_sched ?s) EvStop (sched_Stop (sv_sched ?s))"
    by (rule sched_stop) (simp add: serve_start_def sched_Start_def NewScheduler_def)
  then have st: "serve_step ?s SvSignal ?t"
    by (intro sv_signal) (simp_all add: serve_start_def sched_Start_def NewScheduler_def alive_def)
  have "starved ?s"
    using q assms(2) by (simp add: starved_def fold_sent Enqueue_def serve_start_def sched_Start_def NewScheduler_def)
  then have "starved ?t" using starved_step st by blast
  then have "sv_pc s' \<noteq> SvExited" if "run_of serve_step ?t fs s'" for fs s'
    using starved_run [OF that] by (auto simp: starved_def)
  then show ?thesis using run_of_append [OF r run_single [where step = serve_step, OF st]] by blast
qed

lemma serve_cannot_stop_without_workers_witness:
  "\<exists>q es s. queue_step (Resize 0 NewQueue) (QQuit 0) q \<and> run_of serve_step (serve_start q) (es @ [SvSignal]) s
    \<and> (\<forall>fs s'. run_of serve_step s fs s' \<longrightarrow> sv_pc s' \<noteq> SvExited)"
proof -
  have "q_live (Resize 0 NewQueue) = [] @ (0, Idle) # []" "0 \<in> set (q_closed (Resize 0 NewQueue))"
    using visible_NewQueue by (simp_all add: Resize_def Let_def clamp_size_def maxParallelity_def NewQueue_fields)
  from step_quit [OF this] obtain q where q: "queue_step (Resize 0 NewQueue) (QQuit 0) q" by blast
  from serve_cannot_stop_without_workers [OF q, of "replicate jobQueueSize (None :: job)"] show ?thesis using q by auto
qed

end
