(* ===== verification/Spec2Isabelle.thy ===== *)
theory Spec2Isabelle imports Cmd_Status Cmd_Line Main_Go App_Isolation App_Capture App_Http App_Page Cmd_Run Daemon_Safety Daemon_Exclusion Daemon_Stuck begin

text \<open>
  A verification development of zackup, a program that backs up remote hosts into local ZFS
  datasets. All paths below are relative to \<open>src/\<close>.

  \<^bold>\<open>The program.\<close> The package \<open>config\<close> reads a directory of YAML files and hook scripts into a
  tree: a service configuration, the global configuration and one job per host, into which
  the globals are merged. The package \<open>app\<close> keeps the metrics of every host, stores them as
  user properties of the host's dataset and restores them at the start; its scheduler polls
  the hosts and enqueues those that are due; the workers of its queue perform the backups:
  create the dataset, open an SSH tunnel, run the scripts before, rsync, the scripts after, take
  the snapshot, record the result. The metrics are shown on a page and exported to
  Prometheus. The package \<open>cmd\<close> holds the commands, \<open>graylog\<close> the log hook and the request log.

  \<^bold>\<open>The theories.\<close> In the order of their imports:

  \<^item> \<open>Prelude\<close>: results, lists, association lists, transition systems; the locales \<open>invariant_of\<close>
    (an invariant of a transition system), \<open>refines\<close> (an abstract system implemented by a detailed
    one) and \<open>text_codec\<close> (a parser that undoes a printer).
  \<^item> \<open>Go_Strings\<close>, \<open>Go_Path\<close>, \<open>Go_Strconv\<close>, \<open>Go_Time\<close>, \<open>Go_Duration\<close>, \<open>Go_Slice\<close>, \<open>Go_Float\<close>: what the program
    uses of Go's language and library: fields, prefixes, scanned lines; cleaned and joined paths;
    decimal numbers of 64 bits; instants in nanoseconds, the civil calendar and RFC 3339; the text
    of durations; slices as an array with a length, whose growth is a parameter; the rounding of
    \<open>float64\<close> on rationals.
  \<^item> \<open>Config_Script\<close> (\<open>config/script.go\<close>), \<open>Config_Job\<close> (\<open>config/job.go\<close>, on values), \<open>Config_Alias\<close>
    (the same merge on slices that share arrays), \<open>Config_Rsync\<close> and \<open>Config_Blacklist\<close>
    (\<open>config/rsync.go\<close>, \<open>config/rsync_blacklist.go\<close>), \<open>Config_Service\<close> (\<open>config/service.go\<close>),
    \<open>Config_Tree\<close> (\<open>config/hosts.go\<close>, \<open>config/tree.go\<close>), with the locale \<open>config_tree\<close> for what the other
    packages rely on.
  \<^item> \<open>App_Metrics\<close> (\<open>app/metric_status.go\<close>, \<open>app/zprops.go\<close>), \<open>App_State\<close> (\<open>app/state.go\<close>,
    \<open>app/app.go\<close>), \<open>App_Persist\<close> (what a restart restores of what was stored).
  \<^item> \<open>App_Ssh\<close> (\<open>app/ssh.go\<close>: the master, scripts and rsync as sequences of actions), \<open>App_Capture\<close> (the
    same file: how a command is waited for, with its process, the readers of its two streams and the
    caller side by side), \<open>App_Runner\<close> (\<open>app/runner.go\<close>), \<open>App_Isolation\<close> (what a backup may touch).
  \<^item> \<open>App_Queue\<close> (\<open>app/queue.go\<close>), with the locale \<open>job_queue\<close> for its clients; \<open>App_Scheduler\<close>
    (\<open>app/scheduler.go\<close>).
  \<^item> \<open>App_Web\<close> (\<open>app/prometheus.go\<close>, what the page in \<open>app/server.go\<close> shows and does to the state),
    \<open>App_Page\<close> (its rows, with their bars, and the functions of the template), \<open>App_Http\<close> (the answers of its handler), \<open>App_Life\<close> (all
    operations on the state together), \<open>App_Hosts\<close> (the state as a machine per host).
  \<^item> \<open>Graylog\<close> (\<open>graylog/graylog.go\<close>, \<open>graylog/mux.go\<close>, \<open>graylog/terminal.go\<close>), \<open>Cmd\<close> (\<open>cmd/root.go\<close>,
    \<open>cmd/run.go\<close>, \<open>cmd/status.go\<close>), \<open>Cmd_Line\<close> (the commands and flags they register), \<open>Cmd_Run\<close>
    (whether \<open>run\<close> returns), \<open>Cmd_Status\<close> (the output of \<open>status\<close>), \<open>Cmd_Serve\<close> (\<open>cmd/serve.go\<close>, the processes), \<open>Main_Go\<close> (the signal handler of
    \<open>main.go\<close>).
  \<^item> \<open>Daemon\<close>: \<open>cmd/serve.go\<close> as a whole, the processes of \<open>Cmd_Serve\<close> with the state of \<open>App_Life\<close>: the
    poll of \<open>app/scheduler.go\<close> in the pieces between which it waits, the backups of the workers in
    the pieces that touch the state, panics that end the process. A worker's job is at a \<open>stage\<close>: no backup yet, its
    dataset being created, at work, or over; the result in the state (\<open>dm_succeeds\<close>, \<open>dm_fails\<close>, or none if the
    dataset cannot be created) and the end of the job in the queue (\<open>dm_finish\<close>) are separate steps, as in
    \<open>PerformBackup\<close> and \<open>newWorker\<close>. \<open>Daemon_Safety\<close>, \<open>Daemon_Stop\<close>,
    \<open>Daemon_Exclusion\<close>, \<open>Daemon_Backlog\<close> and \<open>Daemon_Stuck\<close>: when it panics, that it can end, that
    without a backlog the backups of a host exclude each other, what a backlog can do, and what a
    queue without workers does to it.

  A struct is a record with the fields of the code, a function has the name it has there
  where HOL allows it. Go maps are association lists without duplicate keys (\<open>a_hosts\<close> for
  \<open>state.hosts\<close>, \<open>t_hosts\<close> for the hosts of the tree); an error result is a sum or an option; a
  panic is \<open>None\<close> or the constructor \<open>Panicked\<close>. Mutexes make the operations they protect single
  steps. Concurrency is a step relation over all interleavings: \<open>queue_step\<close>, \<open>sched_step\<close>,
  \<open>serve_step\<close>, \<open>daemon_step\<close>, and \<open>capture_step\<close> for a command and its readers; sequences of configuration, state and log operations are \<open>tree_step\<close>, \<open>app_step\<close>,
  \<open>gl_step\<close>. A backup is a function from an oracle (which command succeeds, what time it is) to
  the list of its commands.

  \<^bold>\<open>What is shown.\<close>

  \<^item> Configuration: a reload finds exactly the hosts of the two file variants, and every sequence
    of reloads leaves consistent queries; merging is what it is on values although slices are
    shared, as long as the shared arrays have no spare capacity, and what goes wrong otherwise;
    the rsync filter list equals a reference definition, the forbidden options are removed with
    their values, though not in clusters of short options; cleaned scripts are a normal form; schedules survive printing and parsing, the
    next time is the first one after the given instant, with jitter within its bounds.
  \<^item> State: the status is the latest result since the last start; starting and ending a backup
    moves it accordingly, and so does what is exported for the page, the status output and Prometheus; stored
    metrics come back after a restart up to fractions of seconds. What ZFS answers, ten lines with the sizes and the
    ratio as the documentation of \<open>zfs get\<close> has them, is \<open>zfs_output\<close>, a hypothesis of these properties
    (\<open>zfs_has\<close>): the text of the ratio is one from which \<open>ParseFloat\<close> reads the factor. The state is an
    interleaving of machines, one per host: the locale \<open>entry_reading\<close> has what the operations on other hosts, the
    plans and the page leave of an entry, and so how far backups of several hosts can run side by side.
  \<^item> Backups: the commands of a backup follow an automaton on every path, errors and panics
    included; no snapshot without a successful rsync; a backup stays with its host; its result is
    what the status shows. A command is collected, with the lines of its streams, exactly if what its
    readers leave unread fits into the pipes; a line that is too long can hang it.
  \<^item> Queue and scheduler: the queue refines a bag of jobs, its wait groups count what they should,
    left to itself it comes to rest, and then with all jobs done if one worker stays; resizing
    ends at the size asked for; a poll enqueues what is due, nothing twice, and no host whose
    backup is running; the plans of a host are a day apart, less the jitter; \<open>Stop\<close> panics on a channel that is
    not there or closed, otherwise it does not return before the loop is over, and can return then.
  \<^item> Daemon: it refines its processes and the machine of the state; after a set-up with a clean root
    dataset and complete jobs it panics exactly if the signal comes before the scheduler's \<open>Start\<close>, and
    the hosts stay those of the configuration; after any other signal it can end, in a number of steps the queue bounds,
    if a worker stays; as long as no host is due again before its backup has begun, no host has two jobs
    whose backups are not over.
  \<^item> Output: the samples for Prometheus keep the rules of its registry; the bars of a host on the page are its shares in percent up to stated
    rounding errors; the columns of \<open>status\<close> are aligned whatever bytes a name has.
  \<^item> Commands: the set-up leaves queue, state and tree in agreement; \<open>run\<close> runs the backups it was
    asked for, each exactly as often as named, and can return as long as a worker stays; the flags of the commands do not clash.
  \<^item> Behaviour that looks unintended is stated as it is: interrupted backups block their host,
    the page changes what it shows, a trailing slash ends the process, a host that waits in the
    backlog is enqueued again and backed up twice at once, a long line of output hangs its backup, panics are recorded as successes, the daemon abandons running jobs, a resize to zero starves the queue, so that \<open>run\<close> waits for ever and \<open>serve\<close> does not stop, two exports
    in one collection, a dataset that cannot be created leaves no result, endpoints that are never stored, shared arrays that are overwritten.

  \<^bold>\<open>Parameters.\<close> Code that is not in the repository is an argument: the file system and its globs,
  the YAML decoder, the pattern matcher (\<open>match_contract\<close>), Go's map order and slice growth
  (\<open>env_ok\<close>, \<open>grow_ok\<close>), \<open>rand.Int63n\<close> (\<open>int63n_contract\<close>), \<open>ParseFloat\<close>, \<open>ParseDuration\<close>, the
  answers of \<open>zfs\<close>, the parser of log levels and of the command line (\<open>accepts_contract\<close>), the ioctl of terminals, the
  capacity of pipes, the formats of sizes, ratios and local times. Every
  property with a hypothesis has a witness in which these are concrete functions.

  \<^bold>\<open>Bounds.\<close> No definition uses fuel; all functions are total, by structural recursion or with a
  measure (\<open>rune_count\<close>, the numbers, the calendar). Counters of ZFS are 64-bit words, ports 16-bit
  words, seconds and milliseconds that are stored must fit 64 bits (\<open>storable\<close>), years of
  snapshot names four digits. Scanned lines are limited as in \<open>bufio.Scanner\<close>, workers to 255, the
  buffer of the queue to 16.

  \<^bold>\<open>Not modelled.\<close> The HTTP server beyond whether it listens, the matching of routes and the HTML
  of the template around its values (both done by libraries); the contents of log messages;
  parsing of the command line (cobra), the dump of values in \<open>status\<close> (a parameter); the seed of the random
  numbers in \<open>main.go\<close>; in \<open>Cmd_Serve\<close> and the queue the end of the process by a panic in a worker, which
  \<open>Daemon\<close> has, and backups that hang, which \<open>App_Capture\<close> has: in the queue every job that runs can
  finish; processes whose children keep their streams open after them; numbers of
  \<open>float64\<close> that are subnormal, infinite or negative, which the page does not compute;
  white space beyond ASCII in \<open>strings.TrimSpace\<close>; data races outside the mutexes, where the
  model takes each access as one step.
\<close>

section \<open>Properties that span components\<close>

text \<open>What the export shows of a host, field by field; only the job is left out.\<close>

lemma export_entry:
  assumes "app_ok st"
  shows "map_of (export st) h = map_option export_metrics (map_of (a_hosts st) h)"
  using export_snapshot [OF assms, of h] by (simp add: export_metrics_eq [abs_def])

lemma export_hosts: "set (map fst (export s)) = set (map fst (a_hosts s))"
  by (simp add: export_def image_image case_prod_unfold)

lemma export_metrics_status [simp]: "Status (export_metrics m) = Status m"
  by (simp add: Status_def export_metrics_def)

lemma unplanned_status: "unplanned m = unplanned n \<Longrightarrow> Status m = Status n"
  by (simp add: unplanned_eq Status_def)

lemma unplanned_updates:
  assumes "unplanned m = unplanned n"
  shows "unplanned (m\<lparr>SucceededAt := Some t, SuccessDuration := run_time t m\<rparr>)
      = unplanned (n\<lparr>SucceededAt := Some t, SuccessDuration := run_time t n\<rparr>)"
    and "unplanned (m\<lparr>FailedAt := Some t, FailureDuration := run_time t m\<rparr>)
      = unplanned (n\<lparr>FailedAt := Some t, FailureDuration := run_time t n\<rparr>)"
  using assms by (simp_all add: unplanned_eq run_time_def)

definition keeps_entry :: "string \<Rightarrow> app_op \<Rightarrow> bool" where
  "keeps_entry h op \<longleftrightarrow> \<not> own h op \<and> op \<noteq> LInit \<and> op \<noteq> LIndex"

lemma keeps_entry_run:
  assumes "run_of app_step st ops st'" and "list_all (keeps_entry h) ops"
  shows "map_option unplanned (map_of (a_hosts st') h) = map_option unplanned (map_of (a_hosts st) h)"
proof -
  have "filter (own h) ops = []" "LInit \<notin> set ops" "LIndex \<notin> set ops"
    using assms(2) by (auto simp: keeps_entry_def list_all_iff filter_empty_conv)
  then show ?thesis using unshown_entry.agree [OF assms(1), of h st] run_nil [of app_step st] by simp
qed

text \<open>C23: The export, from which the page, the status output and the Prometheus samples are made, follows the
  backups. In any reachable state let a backup of a known host start after all its results, and let any
  other operations follow, of other hosts or of the scheduler, without the page being shown and without
  initialisation. Then the exported entry of the host is that of before with the new start, the job left out and
  possibly another plan, and its status is running. If the success comes then, it has the success and
  the duration from start to success besides, everything else as it was, and the status is success; likewise
  for a failure. The plan exported is the one in the state, the exported hosts are those of the state, each once
  and in order, and the result of a backup changes no other host's exported entry.\<close>

theorem export_follows_backup:
  assumes "reachable app_init app_step st" and "map_of (a_hosts st) h = Some m"
    and "\<not> is_zero t" and "still_running t (SucceededAt m) (FailedAt m)" and "t \<le> u"
    and "run_of app_step (fst (start h t st)) ops now" and "list_all (keeps_entry h) ops"
  shows "let running = m\<lparr>m_job := None, StartedAt := t\<rparr>; lasted = trunc_dur (time_sub u t) millisecond;
      good = fst (success h u now); bad = fst (failure h u now) in
    (\<exists>e. map_of (export now) h = Some e \<and> Status e = StatusRunning \<and> unplanned e = unplanned running
      \<and> map_option ScheduledAt (map_of (a_hosts now) h) = Some (ScheduledAt e))
    \<and> (\<exists>e. map_of (export good) h = Some e \<and> Status e = StatusSuccess
      \<and> unplanned e = unplanned (running\<lparr>SucceededAt := Some u, SuccessDuration := lasted\<rparr>))
    \<and> (\<exists>e. map_of (export bad) h = Some e \<and> Status e = StatusFailed
      \<and> unplanned e = unplanned (running\<lparr>FailedAt := Some u, FailureDuration := lasted\<rparr>))
    \<and> (\<forall>h'. h' \<noteq> h \<longrightarrow> map_of (export good) h' = map_of (export now) h' \<and> map_of (export bad) h' = map_of (export now) h')
    \<and> (\<forall>s \<in> {now, good, bad}. sorted (map fst (export s)) \<and> distinct (map fst (export s))
        \<and> set (map fst (export s)) = set (map fst (a_hosts s)))"
proof -
  let ?st = "fst (start h t st)" and ?m = "m\<lparr>StartedAt := t\<rparr>"
  let ?good = "fst (success h u now)" and ?bad = "fst (failure h u now)"
  have "app_ok ?st" using app_life.inv_step [OF app_life.inv_reachable [OF assms(1)] life_start] .
  then have now: "app_ok now" using app_life.inv_run [OF assms(6)] by blast
  then have ok: "app_ok ?good" "app_ok ?bad" using app_life.inv_step life_success life_failure by blast+
  have "map_of (a_hosts ?st) h = Some ?m" using start_view [of h h t st] assms(2) by (simp add: host_view_def)
  then obtain m1 where m1: "map_of (a_hosts now) h = Some m1" and p: "unplanned m1 = unplanned ?m"
    using keeps_entry_run [OF assms(6,7)] by auto
  let ?ok = "m1\<lparr>SucceededAt := Some u, SuccessDuration := run_time u m1\<rparr>"
  let ?er = "m1\<lparr>FailedAt := Some u, FailureDuration := run_time u m1\<rparr>"
  have e: "map_of (export now) h = Some (export_metrics m1)" "map_of (export ?good) h = Some (export_metrics ?ok)"
    "map_of (export ?bad) h = Some (export_metrics ?er)"
    using m1 success_view [of h h u now] failure_view [of h h u now]
    by (simp_all add: export_entry now ok host_view_def)
  note pu = unplanned_updates [OF p, of u]
  have s: "Status m1 = StatusRunning" "Status ?ok = StatusSuccess" "Status ?er = StatusFailed"
    unfolding unplanned_status [OF p] unplanned_status [OF pu(1)] unplanned_status [OF pu(2)]
    using assms(3-5) by (auto simp: Status_Running Status_Success Status_Failed still_running_def finished_by_def)
  let ?run = "m\<lparr>m_job := None, StartedAt := t\<rparr>" and ?d = "trunc_dur (time_sub u t) millisecond"
  have x: "unplanned (export_metrics m1) = unplanned ?run"
    "unplanned (export_metrics ?ok) = unplanned (?run\<lparr>SucceededAt := Some u, SuccessDuration := ?d\<rparr>)"
    "unplanned (export_metrics ?er) = unplanned (?run\<lparr>FailedAt := Some u, FailureDuration := ?d\<rparr>)"
    using p by (simp_all add: unplanned_eq export_metrics_def run_time_def)
  have o: "map_of (export ?good) h' = map_of (export now) h' \<and> map_of (export ?bad) h' = map_of (export now) h'"
    if "h' \<noteq> h" for h'
    using that success_view [of h' h u now] failure_view [of h' h u now] by (auto simp: export_entry now ok host_view_def)
  have k: "sorted (map fst (export s)) \<and> distinct (map fst (export s)) \<and> set (map fst (export s)) = set (map fst (a_hosts s))"
    if "s \<in> {now, ?good, ?bad}" for s
    using that now ok export_snapshot [of s] export_hosts [of s] by auto
  have "ScheduledAt (export_metrics m1) = ScheduledAt m1" by (simp add: export_metrics_def)
  then show ?thesis using e s x o k m1 by (simp add: Let_def)
qed

lemma export_follows_backup_witness:
  "\<exists>st e. run_of app_step (initial_app (NewTree []))
      [LStart ''a'' 1, LStart ''a'' 5, LStart ''b'' 7, LFailure ''b'' 8, LSuccess ''a'' (9 * second)] st
    \<and> map_of (export st) ''a'' = Some e \<and> Status e = StatusSuccess \<and> SuccessDuration e = 8999 * millisecond"
proof -
  let ?i = "initial_app (NewTree [])" and ?m = "zero_metrics\<lparr>StartedAt := 1\<rparr>"
  let ?st = "fst (start ''a'' 1 ?i)" and ?t = "9 * second"
  let ?now = "fst (failure ''b'' 8 (fst (start ''b'' 7 (fst (start ''a'' 5 ?st)))))"
  have "reachable app_init app_step ?i" by (rule reachable_init) (simp add: app_init_def initial_app_def)
  then have r: "reachable app_init app_step ?st" by (rule reachable_step [where step = app_step]) (rule life_start)
  have o: "run_of app_step (fst (start ''a'' 5 ?st)) [LStart ''b'' 7, LFailure ''b'' 8] ?now" by (rule backup_run)
  have m: "map_of (a_hosts ?st) ''a'' = Some ?m" by (simp add: start_def initial_app_def Let_def)
  obtain e where e: "map_of (export (fst (success ''a'' ?t ?now))) ''a'' = Some e" "Status e = StatusSuccess"
      "SuccessDuration e = trunc_dur (time_sub ?t 5) millisecond"
    using export_follows_backup [OF r m _ _ _ o, of ?t]
    by (auto simp: Let_def is_zero_def zero_time_def still_running_def zero_metrics_def keeps_entry_def own_def unplanned_eq)
  have "run_of app_step ?st [LStart ''a'' 5, LStart ''b'' 7, LFailure ''b'' 8, LSuccess ''a'' ?t] (fst (success ''a'' ?t ?now))"
    by ((rule run_cons [where step = app_step], rule life_start life_success life_failure)+, rule run_nil)
  then have "run_of app_step ?i [LStart ''a'' 1, LStart ''a'' 5, LStart ''b'' 7, LFailure ''b'' 8, LSuccess ''a'' ?t]
      (fst (success ''a'' ?t ?now))"
    by (rule run_cons [where step = app_step, OF life_start])
  moreover have "trunc_dur (time_sub ?t 5) millisecond = 8999 * millisecond" by (simp add: trunc_dur_def time_sub_def int64_range_def)
  ultimately show ?thesis using e by (intro exI [of _ "fst (success ''a'' ?t ?now)"] exI [of _ e] conjI) simp_all
qed

text \<open>A host whose backup is running is left alone: while it runs, a poll of the scheduler does not
  enqueue the host, whatever the backups of the other hosts, their planning and the page do
  meanwhile.\<close>

theorem no_concurrent_backups:
  assumes "map_of (a_hosts st) h = Some m" and "Status m = StatusRunning"
    and "sched_run visits st = Some (st', es)"
    and "list_all (\<lambda>(_, k). others_act h (k_meanwhile k)) visits"
  shows "h \<notin> fst ` set es \<and> (\<exists>m'. map_of (a_hosts st') h = Some m' \<and> Status m' = StatusRunning)"
  using sched_run_runs [OF assms(3) _ assms(4)] assms(1,2) by (auto simp: runs_def)

definition two_hosts :: app where
  "two_hosts = (example_app due_metrics)\<lparr>a_hosts := [(''a'', due_metrics),
     (''b'', due_metrics\<lparr>StartedAt := 150 * second\<rparr>)]\<rparr>"

lemma two_hosts_run:
  "\<exists>st. sched_run [(''b'', example_tick), (''a'', example_tick)] two_hosts = Some (st, [(''a'', Some example_job)])"
  by (simp add: sched_visit_def example_tick_def two_hosts_def example_app_def due_metrics_def initial_app_def is_zero_def
      zero_time_def Status_def zero_metrics_def reschedule_def Service_def)

lemma no_concurrent_backups_witness:
  "\<exists>st m. sched_run [(''b'', example_tick), (''a'', example_tick)] two_hosts = Some (st, [(''a'', Some example_job)])
    \<and> map_of (a_hosts st) ''b'' = Some m \<and> Status m = StatusRunning"
proof -
  obtain st where r: "sched_run [(''b'', example_tick), (''a'', example_tick)] two_hosts = Some (st, [(''a'', Some example_job)])"
    using two_hosts_run by blast
  have b: "map_of (a_hosts two_hosts) ''b'' = Some (due_metrics\<lparr>StartedAt := 150 * second\<rparr>)"
    "Status (due_metrics\<lparr>StartedAt := 150 * second\<rparr>) = StatusRunning"
    by (simp_all add: two_hosts_def due_metrics_def zero_metrics_def Status_def is_zero_def zero_time_def)
  have "list_all (\<lambda>(_, k). others_act ''b'' (k_meanwhile k)) [(''b'', example_tick), (''a'', example_tick)]"
    by (simp add: example_tick_def)
  from no_concurrent_backups [OF b r this] show ?thesis using r by blast
qed

text \<open>C30: A backup that was interrupted, by the end of the process for instance, blocks its host for good.
  Say the last thing ZFS has of a host, in a dataset under a clean relative root dataset and with a name
  that fits into a line, is a backup that runs: metrics within the range of stored times, their instants in
  different seconds. When they are loaded into an entry that has no results yet, loading reports no error, the host
  counts as running, and no poll of the scheduler enqueues it again or ends this, whatever the backups of other
  hosts, the plans and the page do meanwhile.\<close>

theorem interrupted_backup_stuck:
  assumes "Status m = StatusRunning" and "storable m" and "seconds_apart m"
    and "v_RootDataset st = rel_path cs" and "cs \<noteq> []" and "list_all plain_comp cs" and "plain_comp h"
    and "plain_text (rel_path cs @ ''/'' @ h)" and "length (rel_path cs @ ''/'' @ h) \<le> 1000"
    and "map_of (a_hosts st) h = Some m0" and "SucceededAt m0 = None" and "FailedAt m0 = None"
    and "zfs_has pf zfs (rel_path cs @ ''/'' @ h) m"
    and "loadHost pf zfs h st = (st1, err)" and "sched_run visits st1 = Some (st2, es)"
    and "list_all (\<lambda>(_, k). others_act h (k_meanwhile k)) visits"
  shows "err = None \<and> h \<notin> fst ` set es \<and> (\<exists>m'. map_of (a_hosts st2) h = Some m' \<and> Status m' = StatusRunning)"
proof -
  obtain st1' where "loadHost pf zfs h st = (st1', None)" "map_of (a_hosts st1') h = Some (restored m m0)"
    using loadHost_stored [where pf = pf and zfs = zfs, OF assms(2,4-10,13)] by blast
  then have "err = None" "runs h st1"
    using assms(14) restored_status [OF assms(3,11,12)] assms(1) by (auto simp: runs_def Status_Running)
  then show ?thesis using sched_run_runs [OF assms(15) _ assms(16)] by (auto simp: runs_def)
qed

definition overdue :: app where
  "overdue = example_app (zero_metrics\<lparr>ScheduledAt := 100 * second\<rparr>)"

abbreviation interrupted :: metrics where
  "interrupted \<equiv> zero_metrics\<lparr>StartedAt := 1600000000 * second\<rparr>"

lemma interrupted_backup_stuck_witness:
  "\<exists>st1 st2 es. loadHost (\<lambda>_. Ok (CompressionFactor interrupted)) (\<lambda>_. (zfs_output ''1.50x'' ''zroot/a'' interrupted, False)) ''a'' overdue = (st1, None)
    \<and> sched_run [(''a'', example_tick)] st1 = Some (st2, es) \<and> ''a'' \<notin> fst ` set es"
proof -
  have z: "rel_path [''zroot''] @ ''/'' @ ''a'' = ''zroot/a''" by (simp add: rel_path_def)
  let ?zfs = "\<lambda>_ :: argv. (zfs_output ''1.50x'' ''zroot/a'' interrupted, False)"
  have m: "Status interrupted = StatusRunning" "storable interrupted" "seconds_apart interrupted"
    by (auto simp: storable_def seconds_apart_def zero_metrics_def unix_range_def int64_range_def unix_def Status_def is_zero_def
        zero_time_def at_seconds_def)
  obtain st1 err where l: "loadHost (\<lambda>_. Ok (CompressionFactor interrupted)) ?zfs ''a'' overdue = (st1, err)" by fastforce
  then have "a_tree st1 = a_tree overdue" using loadHost_frame by blast
  then have "Service (a_tree st1) \<noteq> None" by (simp add: overdue_def example_app_def initial_app_def Service_def)
  then obtain st2 es where r: "sched_run [(''a'', example_tick)] st1 = Some (st2, es)"
    using sched_visit_total [of st1 example_tick "''a''"] by (force simp: example_tick_def split: option.splits)
  have root: "v_RootDataset overdue = rel_path [''zroot'']" "map_of (a_hosts overdue) ''a'' = Some (zero_metrics\<lparr>ScheduledAt := 100 * second\<rparr>)"
    by (simp_all add: overdue_def example_app_def initial_app_def rel_path_def)
  have "list_all (\<lambda>(_, k). others_act ''a'' (k_meanwhile k)) [(''a'', example_tick)]" by (simp add: example_tick_def)
  from interrupted_backup_stuck [OF m root(1) _ _ _ _ _ root(2) _ _ _ l r this] show ?thesis
    using l r example_has [of interrupted "''zroot/a''"] unfolding z by (auto simp: zero_metrics_def plain_comp_def plain_text_def tab_def newline_def)
qed

text \<open>C31: Looking at the overview page can stop the backups of a host: one that succeeded within the second
  it started in counts as running once the page was shown, and no poll enqueues the host again.\<close>

theorem page_stops_backups:
  assumes "map_of (a_hosts st) h = Some m" and "Status m = StatusSuccess" and "within_second m"
    and "sched_run visits (handleIndex st) = Some (st', es)"
    and "list_all (\<lambda>(_, k). others_act h (k_meanwhile k)) visits"
  shows "h \<notin> fst ` set es \<and> (\<exists>m'. map_of (a_hosts st') h = Some m' \<and> Status m' = StatusRunning)"
proof -
  have "runs h (handleIndex st)" using assms(1) show_host_running [OF assms(2,3)] by (simp add: runs_def handleIndex_entry)
  then show ?thesis using sched_run_runs [OF assms(4) _ assms(5)] by (auto simp: runs_def)
qed

lemma page_stops_backups_witness:
  "\<exists>st es. sched_run [(''a'', example_tick)] (handleIndex (example_app (quick_metrics\<lparr>ScheduledAt := 100 * second\<rparr>))) = Some (st, es)
    \<and> ''a'' \<notin> fst ` set es"
proof -
  let ?m = "quick_metrics\<lparr>ScheduledAt := 100 * second\<rparr>"
  let ?st = "handleIndex (example_app ?m)"
  have m: "Status ?m = StatusSuccess" "within_second ?m"
    using quick_metrics_ok by (simp_all add: within_second_def split: option.splits)
  have "Service (a_tree ?st) \<noteq> None" by (simp add: handleIndex_def example_app_def initial_app_def Service_def)
  then obtain st es where r: "sched_run [(''a'', example_tick)] ?st = Some (st, es)"
    using sched_visit_total [of ?st example_tick "''a''"] by (force simp: example_tick_def split: option.splits)
  have "list_all (\<lambda>(_, k). others_act ''a'' (k_meanwhile k)) [(''a'', example_tick)]" by (simp add: example_tick_def)
  from page_stops_backups [OF example_app_entry m r this] show ?thesis using r by blast
qed

definition slashed :: app where
  "slashed = (example_app zero_metrics)\<lparr>v_RootDataset := ''zroot/''\<rparr>"

text \<open>A trailing slash in the configured root dataset ends the process: after a restart the stored
  values create an entry without a job, the first poll plans it, a later one enqueues the nil job,
  and the worker that takes it panics.\<close>

theorem trailing_slash_crashes:
  assumes "storable m" and "seconds_apart m" and "Status m \<noteq> StatusRunning"
    and "v_RootDataset st = rel_path cs @ ''/''" and "cs \<noteq> []" and "list_all plain_comp cs" and "plain_comp h"
    and "plain_text (rel_path cs @ ''/'' @ h)" and "length (rel_path cs @ ''/'' @ h) \<le> 1000"
    and "map_of (a_hosts st) (rel_path cs @ ''/'' @ h) = None"
    and "zfs_has pf zfs (rel_path cs @ ''/'' @ h) m"
    and "loadHost pf zfs h st = (st1, err)"
    and "schedulable st1 k1" and "zero_time \<le> k_now k1" and "sched_visit (rel_path cs @ ''/'' @ h) k1 st1 = Some (st2, r)"
  shows "err = None \<and> r = None \<and> (\<exists>m2. map_of (a_hosts st2) (rel_path cs @ ''/'' @ h) = Some m2
        \<and> (\<forall>k2. k_meanwhile k2 = (\<lambda>s. s) \<and> ScheduledAt m2 \<le> k_now k2 \<longrightarrow>
            (\<exists>st3. sched_visit (rel_path cs @ ''/'' @ h) k2 st2 = Some (st3, Some None))))
    \<and> PerformBackup os None w = (Panicked, w)"
proof -
  let ?ds = "rel_path cs @ ''/'' @ h" and ?m1 = "restored m zero_metrics"
  have e: "map_of (a_hosts st1) ?ds = Some ?m1" "err = None"
    using loadHost_trailing [where zfs = zfs and pf = pf, OF assms(1,4-11)] assms(12) by auto
  have m1: "is_zero (ScheduledAt ?m1)" "m_job ?m1 = None" "Status ?m1 \<noteq> StatusRunning"
    using restored_status [OF assms(2), of zero_metrics] assms(3)
    by (simp_all add: restored_def zero_metrics_def is_zero_def)
  obtain svc where svc: "Service (a_tree st1) = Some svc" "valid_schedule (Schedule svc)" "int63n_contract (k_rnd k1)"
    using assms(13) by (auto simp: schedulable_def)
  let ?m2 = "?m1\<lparr>ScheduledAt := NextSchedule (k_rnd k1) svc (k_now k1)\<rparr>"
  note later = NextSchedule_future [OF svc(3,2), of "k_now k1"]
  have v: "r = None" "a_tree st2 = a_tree st1" "map_of (a_hosts st2) ?ds = Some ?m2"
    using assms(15) e m1(1) svc(1) later by (auto simp: sched_visit_def Let_def reschedule_def)
  have "\<not> is_zero (ScheduledAt ?m2)" using later assms(14) by (simp add: is_zero_def)
  then have "\<exists>st3. sched_visit ?ds k2 st2 = Some (st3, Some None)"
    if "k_meanwhile k2 = (\<lambda>s. s) \<and> ScheduledAt ?m2 \<le> k_now k2" for k2
    using that v(2,3) m1(2,3) svc(1) by (simp add: sched_visit_def Let_def reschedule_def)
  then show ?thesis using v(1,3) e(2) by (auto simp: PerformBackup_def)
qed

lemma trailing_slash_crashes_witness:
  "\<exists>st1 st2 st3 k2. loadHost (\<lambda>_. Ok 9) (\<lambda>_. (zfs_output ''1.50x'' ''zroot/a'' example_metrics, False)) ''a'' slashed = (st1, None)
    \<and> sched_visit ''zroot/a'' example_tick st1 = Some (st2, None)
    \<and> sched_visit ''zroot/a'' k2 st2 = Some (st3, Some None)
    \<and> fst (PerformBackup (example_os []) None example_world) = Panicked"
proof -
  have z: "rel_path [''zroot''] @ ''/'' @ ''a'' = ''zroot/a''" by (simp add: rel_path_def)
  let ?zfs = "\<lambda>_ :: argv. (zfs_output ''1.50x'' ''zroot/a'' example_metrics, False)"
  have m: "seconds_apart example_metrics" "Status example_metrics \<noteq> StatusRunning"
    by (auto simp: seconds_apart_def zero_metrics_def unix_def Status_def is_zero_def zero_time_def at_seconds_def)
  have root: "v_RootDataset slashed = rel_path [''zroot''] @ ''/''" by (simp add: slashed_def rel_path_def)
  obtain st1 err where l: "loadHost (\<lambda>_. Ok 9) ?zfs ''a'' slashed = (st1, err)" by fastforce
  then have "a_tree st1 = a_tree slashed" using loadHost_frame by blast
  then have t: "a_tree st1 = a_tree (example_app zero_metrics)" by (simp add: slashed_def)
  then have k: "schedulable st1 example_tick" using example_schedulable by (simp add: schedulable_def)
  have "Service (a_tree st1) \<noteq> None" by (simp add: t example_app_def initial_app_def Service_def)
  then obtain st2 r where v: "sched_visit ''zroot/a'' example_tick st1 = Some (st2, r)"
    using sched_visit_total [of st1 example_tick "''zroot/a''"] by (force simp: example_tick_def)
  have *: "err = None \<and> r = None \<and> (\<exists>m2. map_of (a_hosts st2) ''zroot/a'' = Some m2
        \<and> (\<forall>k2. k_meanwhile k2 = (\<lambda>s. s) \<and> ScheduledAt m2 \<le> k_now k2 \<longrightarrow>
            (\<exists>st3. sched_visit ''zroot/a'' k2 st2 = Some (st3, Some None))))
    \<and> PerformBackup (example_os []) None example_world = (Panicked, example_world)"
    using trailing_slash_crashes [OF example_storable m root, where h = "''a''", OF _ _ _ _ _ _ _ l k _ , unfolded z, OF _ _ _ _ _ _ _ _ v]
    using example_has [of example_metrics "''zroot/a''"]
    by (auto simp: slashed_def example_app_def plain_comp_def plain_text_def tab_def newline_def example_tick_def zero_time_def)
  then obtain m2 :: metrics where "\<forall>k2. k_meanwhile k2 = (\<lambda>s. s) \<and> ScheduledAt m2 \<le> k_now k2 \<longrightarrow>
      (\<exists>st3. sched_visit ''zroot/a'' k2 st2 = Some (st3, Some None))" by blast
  from this [rule_format, of "example_tick\<lparr>k_now := ScheduledAt m2\<rparr>"]
  obtain st3 where "sched_visit ''zroot/a'' (example_tick\<lparr>k_now := ScheduledAt m2\<rparr>) st2 = Some (st3, Some None)"
    by (auto simp: example_tick_def)
  then show ?thesis using * l v by auto
qed

end
